(* ===== verification/Prelude.thy ===== *)
theory Prelude
  imports Main "HOL-Library.Word"
begin

text \<open>
  The shared vocabulary of the development: names for the machine integers of
  kernel/types.h, the result type of kernel code (a value, a panic, a call of
  kexit, or a sleep), its sequencing operator with the rules that drive every
  component proof, and generic lemmas on lists that several components use.
\<close>

section \<open>Machine integers\<close>

type_synonym u8 = "8 word"
type_synonym u16 = "16 word"
type_synonym u32 = "32 word"
type_synonym u64 = "64 word"

lemma unat_u32_lt: "unat (w :: u32) < 4294967296"
  using unsigned_less [of w] by simp

lemma unat_of_nat_u32: "k < 4294967296 \<Longrightarrow> unat (of_nat k :: u32) = k"
  by (simp add: unat_of_nat take_bit_eq_mod)

section \<open>Outcomes of kernel code\<close>

text \<open>
  \<open>Ret x s\<close>: the function returned \<open>x\<close> in state \<open>s\<close>. \<open>Panic m\<close>: it called
  \<open>panic(m)\<close>, which never returns and stops the machine. \<open>Exit c s\<close>: it called
  \<open>kexit(c)\<close> in state \<open>s\<close>, which never returns to its caller. \<open>Sleep ch s\<close>: it
  called \<open>sleep\<close> on channel \<open>ch\<close> in state \<open>s\<close>; another process runs before it
  continues. \<open>NoFuel\<close>: a recursion whose depth the source does not bound was cut
  off by the model.
\<close>

text \<open>
  A sleep channel is an address in C: of a kernel object with a name, of an entry
  of the process table, or of the counters of a pipe.
\<close>

datatype chan = NoChan | Named string | ProcChan nat | BufChan nat | PipeRead u64 | PipeWrite u64

datatype ('a, 's) outcome =
  Ret 'a 's | Panic string | Exit int 's | Sleep chan 's | NoFuel

fun bindo :: "('a, 's) outcome \<Rightarrow> ('a \<Rightarrow> 's \<Rightarrow> ('b, 's) outcome) \<Rightarrow> ('b, 's) outcome" where
  "bindo (Ret x s) f = f x s"
| "bindo (Panic m) f = Panic m"
| "bindo (Exit c s) f = Exit c s"
| "bindo (Sleep ch s) f = Sleep ch s"
| "bindo NoFuel f = NoFuel"

named_theorems outcome_iffs \<open>when a sequence of kernel calls has a given outcome\<close>
named_theorems frame_simps \<open>which state components an operation leaves alone\<close>

lemma bindo_Ret_iff [outcome_iffs]:
  "bindo m f = Ret y t \<longleftrightarrow> (\<exists>x s. m = Ret x s \<and> f x s = Ret y t)"
  by (cases m) auto

lemma bindo_Panic_iff [outcome_iffs]:
  "bindo m f = Panic msg \<longleftrightarrow> m = Panic msg \<or> (\<exists>x s. m = Ret x s \<and> f x s = Panic msg)"
  by (cases m) auto

lemma bindo_Exit_iff [outcome_iffs]:
  "bindo m f = Exit c t \<longleftrightarrow> m = Exit c t \<or> (\<exists>x s. m = Ret x s \<and> f x s = Exit c t)"
  by (cases m) auto

lemma bindo_Sleep_iff [outcome_iffs]:
  "bindo m f = Sleep c t \<longleftrightarrow> m = Sleep c t \<or> (\<exists>x s. m = Ret x s \<and> f x s = Sleep c t)"
  by (cases m) auto

lemma bindo_assoc: "bindo (bindo m f) g = bindo m (\<lambda>x s. bindo (f x s) g)"
  by (cases m) auto

lemma bindo_cong [fundef_cong]:
  "m = m' \<Longrightarrow> (\<And>x s. m' = Ret x s \<Longrightarrow> f x s = f' x s) \<Longrightarrow> bindo m f = bindo m' f'"
  by (cases m') auto

text \<open>\<open>holds Q m\<close>: \<open>m\<close> returns (no panic, exit or sleep) and its result satisfies \<open>Q\<close>.\<close>

fun holds :: "('a \<Rightarrow> 's \<Rightarrow> bool) \<Rightarrow> ('a, 's) outcome \<Rightarrow> bool" where
  "holds Q (Ret x s) = Q x s"
| "holds Q (Panic m) = False"
| "holds Q (Exit c s) = False"
| "holds Q (Sleep ch s) = False"
| "holds Q NoFuel = False"

lemma holds_iff: "holds Q m \<longleftrightarrow> (\<exists>x s. m = Ret x s \<and> Q x s)"
  by (cases m) auto

lemma holds_bindo [simp]: "holds Q (bindo m f) = holds (\<lambda>x s. holds Q (f x s)) m"
  by (cases m) auto

lemma holds_mono: "holds Q m \<Longrightarrow> (\<And>x s. Q x s \<Longrightarrow> R x s) \<Longrightarrow> holds R m"
  by (cases m) auto

text \<open>A \<open>for\<close> loop whose body \<open>f\<close> runs once for each index of a list, in order.\<close>

fun forM :: "'i list \<Rightarrow> ('i \<Rightarrow> 's \<Rightarrow> (unit, 's) outcome) \<Rightarrow> 's \<Rightarrow> (unit, 's) outcome" where
  "forM [] f s = Ret () s"
| "forM (i # is) f s = bindo (f i s) (\<lambda>_ s. forM is f s)"

lemma forM_append: "forM (xs @ ys) f s = bindo (forM xs f s) (\<lambda>_ s. forM ys f s)"
proof (induction xs arbitrary: s)
  case (Cons x xs)
  then show ?case by (cases "f x s") auto
qed simp

text \<open>The loop rule: an invariant over the indices done so far.\<close>

lemma forM_inv:
  assumes "I 0 s"
    and "\<And>k t. k < length xs \<Longrightarrow> I k t \<Longrightarrow> \<exists>u. f (xs ! k) t = Ret () u \<and> I (Suc k) u"
  shows "\<exists>t. forM xs f s = Ret () t \<and> I (length xs) t"
  using assms
proof (induction xs arbitrary: s I)
  case Nil
  then show ?case by simp
next
  case (Cons x xs)
  obtain u where u: "f x s = Ret () u" "I (Suc 0) u"
    using Cons.prems(2) [of 0 s] Cons.prems(1) by auto
  have "\<exists>t. forM xs f u = Ret () t \<and> I (Suc (length xs)) t"
    using u(2) Cons.prems(2) [of "Suc _"] by (intro Cons.IH [of "\<lambda>k. I (Suc k)"]) auto
  with u(1) show ?case by auto
qed

lemma forM_frame: "(\<And>i s t. f i s = Ret () t \<Longrightarrow> g t = g s) \<Longrightarrow> forM xs f s = Ret () t \<Longrightarrow> g t = g s"
proof (induction xs arbitrary: s)
  case (Cons x xs)
  then show ?case by (auto simp: bindo_Ret_iff)
qed simp

section \<open>Lists\<close>

lemma distinct_list_update_last:
  assumes "distinct xs" and "i < length xs"
  shows "distinct (butlast (xs[i := last xs]))"
proof (cases "i = length xs - 1")
  case True
  with assms show ?thesis
    by (metis distinct_butlast last_conv_nth list_update_id list.size(3) not_less_zero)
next
  case False
  with assms(2) have i: "i < length xs - 1" by simp
  then have ne: "xs \<noteq> []" by auto
  have "butlast (xs[i := last xs]) = (butlast xs)[i := last xs]"
    using i by (simp add: butlast_list_update)
  moreover have "last xs \<notin> set (butlast xs)"
    using assms(1) ne by (metis append_butlast_last_id distinct_append disjoint_insert(1) list.set(2))
  ultimately show ?thesis
    using assms(1) by (simp add: distinct_butlast distinct_list_update)
qed

end
