(* ===== verification/Bytes.thy ===== *)
theory Bytes
  imports Prelude
begin

text \<open>
  Byte-level storage: little-endian encoding of machine words (as the RISC-V
  target stores them), byte arrays of fixed length (disk blocks and the structs
  in them), and the byte-addressed physical memory that the kernel, its page
  tables and its user pages share.
\<close>

unbundle bit_operations_syntax

section \<open>Little-endian words\<close>

definition le_bytes :: "nat \<Rightarrow> 'a::len word \<Rightarrow> u8 list" where
  "le_bytes n v = map (\<lambda>i. ucast (drop_bit (8 * i) v)) [0..<n]"

fun le_word :: "u8 list \<Rightarrow> 'a::len word" where
  "le_word [] = 0"
| "le_word (b # bs) = ucast b OR push_bit 8 (le_word bs)"

lemma length_le_bytes [simp]: "length (le_bytes n v) = n"
  by (simp add: le_bytes_def)

lemma nth_le_bytes [simp]: "i < n \<Longrightarrow> le_bytes n v ! i = ucast (drop_bit (8 * i) v)"
  by (simp add: le_bytes_def)

lemma bit_le_word:
  "bit (le_word bs :: 'a::len word) k \<longleftrightarrow>
     k < LENGTH('a) \<and> k div 8 < length bs \<and> bit (bs ! (k div 8)) (k mod 8)"
proof (induction bs arbitrary: k)
  case Nil
  then show ?case by simp
next
  case (Cons b bs)
  show ?case
  proof (cases "k < 8")
    case True
    then show ?thesis
      by (auto simp: bit_simps)
  next
    case False
    then have div: "k div 8 = Suc ((k - 8) div 8)" and mod: "k mod 8 = (k - 8) mod 8"
      by (simp_all add: le_div_geq le_mod_geq)
    have high: "\<not> bit b k"
      using False bit_imp_le_length [of b k] by auto
    with False show ?thesis
      by (auto simp: bit_simps Cons.IH div mod)
  qed
qed

lemma le_word_le_bytes: "le_word (le_bytes n v) = take_bit (8 * n) v"
  by (rule bit_word_eqI) (auto simp: bit_le_word bit_simps div_less_iff_less_mult)

lemma le_word_le_bytes_u64 [simp]: "le_word (le_bytes 8 (v :: u64)) = v"
  by (simp add: le_word_le_bytes take_bit_word_eq_self)

lemma le_word_le_bytes_u32 [simp]: "le_word (le_bytes 4 (v :: u32)) = v"
  by (simp add: le_word_le_bytes take_bit_word_eq_self)

lemma le_word_le_bytes_u16 [simp]: "le_word (le_bytes 2 (v :: u16)) = v"
  by (simp add: le_word_le_bytes take_bit_word_eq_self)

lemma le_bytes_le_word:
  assumes "8 * length bs \<le> LENGTH('a::len)"
  shows "le_bytes (length bs) (le_word bs :: 'a word) = bs"
proof (rule nth_equalityI)
  show "length (le_bytes (length bs) (le_word bs :: 'a word)) = length bs" by simp
next
  fix i
  assume "i < length (le_bytes (length bs) (le_word bs :: 'a word))"
  then have i: "i < length bs" by simp
  have "bit (ucast (drop_bit (8 * i) (le_word bs :: 'a word)) :: u8) k = bit (bs ! i) k"
    if "k < 8" for k
    using that i assms by (auto simp: bit_simps bit_le_word)
  then have "ucast (drop_bit (8 * i) (le_word bs :: 'a word)) = bs ! i"
    by (intro bit_word_eqI) simp
  with i show "le_bytes (length bs) (le_word bs :: 'a word) ! i = bs ! i"
    by simp
qed

lemma le_word_zeros [simp]: "le_word (replicate n 0) = 0"
  by (induction n) auto

section \<open>Fixed-length byte arrays\<close>

definition blk_get :: "u8 list \<Rightarrow> nat \<Rightarrow> nat \<Rightarrow> u8 list" where
  "blk_get bs off n = take n (drop off bs)"

definition blk_put :: "u8 list \<Rightarrow> nat \<Rightarrow> u8 list \<Rightarrow> u8 list" where
  "blk_put bs off xs = take off bs @ xs @ drop (off + length xs) bs"

lemma length_blk_get [simp]: "off + n \<le> length bs \<Longrightarrow> length (blk_get bs off n) = n"
  by (simp add: blk_get_def)

lemma length_blk_put [simp]: "off + length xs \<le> length bs \<Longrightarrow> length (blk_put bs off xs) = length bs"
  by (simp add: blk_put_def)

lemma nth_blk_get [simp]: "off + n \<le> length bs \<Longrightarrow> i < n \<Longrightarrow> blk_get bs off n ! i = bs ! (off + i)"
  by (simp add: blk_get_def)

lemma nth_blk_put:
  assumes "off + length xs \<le> length bs" and "i < length bs"
  shows "blk_put bs off xs ! i = (if off \<le> i \<and> i < off + length xs then xs ! (i - off) else bs ! i)"
  using assms by (auto simp: blk_put_def nth_append min_def)

lemma blk_get_put_same [simp]:
  assumes "off + length xs \<le> length bs" and "n = length xs"
  shows "blk_get (blk_put bs off xs) off n = xs"
  using assms by (intro nth_equalityI) (auto simp: nth_blk_put)

lemma blk_get_put_other:
  assumes "off + length xs \<le> length bs" and "o' + n \<le> length bs"
    and "o' + n \<le> off \<or> off + length xs \<le> o'"
  shows "blk_get (blk_put bs off xs) o' n = blk_get bs o' n"
  using assms by (intro nth_equalityI) (auto simp: nth_blk_put)

section \<open>Physical memory\<close>

type_synonym pmem = "u64 \<Rightarrow> u8"

definition mread :: "pmem \<Rightarrow> u64 \<Rightarrow> nat \<Rightarrow> u8 list" where
  "mread m a n = map (\<lambda>i. m (a + of_nat i)) [0..<n]"

definition mwrite :: "pmem \<Rightarrow> u64 \<Rightarrow> u8 list \<Rightarrow> pmem" where
  "mwrite m a bs = (\<lambda>x. if unat (x - a) < length bs then bs ! unat (x - a) else m x)"

text \<open>A 64-bit load and store, as compiled for \<open>*p\<close> on a \<open>uint64 *\<close>.\<close>

definition load64 :: "pmem \<Rightarrow> u64 \<Rightarrow> u64" where
  "load64 m a = le_word (mread m a 8)"

definition store64 :: "pmem \<Rightarrow> u64 \<Rightarrow> u64 \<Rightarrow> pmem" where
  "store64 m a v = mwrite m a (le_bytes 8 v)"

lemma length_mread [simp]: "length (mread m a n) = n"
  by (simp add: mread_def)

lemma nth_mread [simp]: "i < n \<Longrightarrow> mread m a n ! i = m (a + of_nat i)"
  by (simp add: mread_def)

lemma unat_of_nat_u64: "n < 2 ^ 64 \<Longrightarrow> unat (of_nat n :: u64) = n"
  by (simp add: unat_of_nat)

lemma unat_diff_u64:
  "unat (a - b :: u64) = (if unat b \<le> unat a then unat a - unat b else unat a + 2 ^ 64 - unat b)"
  using unat_sub_if_size [of a b] by (simp add: word_size word_le_nat_alt)

lemma unat_add_nat_u64: "unat a + n < 2 ^ 64 \<Longrightarrow> unat (a + of_nat n :: u64) = unat a + n"
  by (simp add: unat_word_ariths unat_of_nat_u64)

lemma mread_mwrite_same [simp]:
  assumes "n = length bs" and "n \<le> 2 ^ 64"
  shows "mread (mwrite m a bs) a n = bs"
  using assms by (intro nth_equalityI) (auto simp: mwrite_def unat_of_nat_u64)

lemma mread_cong:
  assumes "\<And>x. unat (x - a) < n \<Longrightarrow> m x = m' x" and "n \<le> 2 ^ 64"
  shows "mread m a n = mread m' a n"
  using assms by (intro nth_equalityI) (auto simp: unat_of_nat_u64)

lemma load64_store64_same [simp]: "load64 (store64 m a v) a = v"
  by (simp add: load64_def store64_def)

lemma load64_cong:
  assumes "\<And>x. unat (x - a) < 8 \<Longrightarrow> m x = m' x"
  shows "load64 m a = load64 m' a"
  unfolding load64_def using assms by (subst mread_cong [of a 8 m m']) auto

end
