(* ===== verification/Cstring.thy ===== *)
theory Cstring
  imports Bytes
begin

text \<open>
  kernel/string.c: the memory and string routines every other part of the
  kernel calls. Memory routines act on the byte-addressed physical memory;
  string routines read through a pointer view \<open>cptr\<close> (what \<open>p[0]\<close>,
  \<open>p[1]\<close>, ... hold) and return the bytes they store. The last section has the
  decimal formatter \<open>itoa\<close> that kernel/exec.c adds for swap-file names.
\<close>

section \<open>memset, memmove, memcpy\<close>

function memset_from :: "pmem \<Rightarrow> u64 \<Rightarrow> u32 \<Rightarrow> nat \<Rightarrow> nat \<Rightarrow> pmem" where
  "memset_from m dst c i n =
     (if i < n then memset_from (m(dst + of_nat i := ucast c)) dst c (Suc i) n else m)"
  by pat_completeness auto
termination
  by (relation "measure (\<lambda>(m, dst, c, i, n). n - i)") auto

declare memset_from.simps [simp del]

definition memset :: "pmem \<Rightarrow> u64 \<Rightarrow> u32 \<Rightarrow> nat \<Rightarrow> pmem" where
  "memset m dst c n = memset_from m dst c 0 n"

fun copy_back :: "pmem \<Rightarrow> u64 \<Rightarrow> u64 \<Rightarrow> nat \<Rightarrow> pmem" where
  "copy_back m d s 0 = m"
| "copy_back m d s (Suc n) = copy_back (m(d - 1 := m (s - 1))) (d - 1) (s - 1) n"

fun copy_fwd :: "pmem \<Rightarrow> u64 \<Rightarrow> u64 \<Rightarrow> nat \<Rightarrow> pmem" where
  "copy_fwd m d s 0 = m"
| "copy_fwd m d s (Suc n) = copy_fwd (m(d := m s)) (d + 1) (s + 1) n"

definition memmove :: "pmem \<Rightarrow> u64 \<Rightarrow> u64 \<Rightarrow> nat \<Rightarrow> pmem" where
  "memmove m dst src n =
     (if n = 0 then m
      else if src < dst \<and> src + of_nat n > dst
      then copy_back m (dst + of_nat n) (src + of_nat n) n
      else copy_fwd m dst src n)"

definition memcpy :: "pmem \<Rightarrow> u64 \<Rightarrow> u64 \<Rightarrow> nat \<Rightarrow> pmem" where
  "memcpy m dst src n = memmove m dst src n"

section \<open>memcmp and the string routines\<close>

type_synonym cptr = "nat \<Rightarrow> u8"

definition view :: "pmem \<Rightarrow> u64 \<Rightarrow> cptr" where
  "view m p = (\<lambda>i. m (p + of_nat i))"

fun memcmp :: "cptr \<Rightarrow> cptr \<Rightarrow> nat \<Rightarrow> int" where
  "memcmp s1 s2 0 = 0"
| "memcmp s1 s2 (Suc n) =
     (if s1 0 \<noteq> s2 0 then uint (s1 0) - uint (s2 0)
      else memcmp (\<lambda>i. s1 (Suc i)) (\<lambda>i. s2 (Suc i)) n)"

fun strncmp :: "cptr \<Rightarrow> cptr \<Rightarrow> nat \<Rightarrow> int" where
  "strncmp p q 0 = 0"
| "strncmp p q (Suc n) =
     (if p 0 \<noteq> 0 \<and> p 0 = q 0 then strncmp (\<lambda>i. p (Suc i)) (\<lambda>i. q (Suc i)) n
      else uint (p 0) - uint (q 0))"

text \<open>The bytes \<open>strncpy(s, t, n)\<close> stores at \<open>s[0], s[1], ...\<close>.\<close>

fun strncpy :: "cptr \<Rightarrow> nat \<Rightarrow> u8 list" where
  "strncpy t 0 = []"
| "strncpy t (Suc n) =
     t 0 # (if t 0 \<noteq> 0 then strncpy (\<lambda>i. t (Suc i)) n else replicate n 0)"

text \<open>The bytes \<open>safestrcpy(s, t, n)\<close> stores: after copying a NUL it stores one more.\<close>

fun safestrcpy :: "cptr \<Rightarrow> nat \<Rightarrow> u8 list" where
  "safestrcpy t 0 = []"
| "safestrcpy t (Suc 0) = [0]"
| "safestrcpy t (Suc (Suc n)) =
     t 0 # (if t 0 \<noteq> 0 then safestrcpy (\<lambda>i. t (Suc i)) (Suc n) else [0])"

text \<open>\<open>strlen\<close> runs until it meets a NUL; \<open>None\<close> when there is none.\<close>

partial_function (option) strlen_from :: "cptr \<Rightarrow> nat \<Rightarrow> nat option" where
  "strlen_from s n = (if s n \<noteq> 0 then strlen_from s (Suc n) else Some n)"

definition strlen :: "cptr \<Rightarrow> nat option" where
  "strlen s = strlen_from s 0"

section \<open>itoa and strcat of kernel/exec.c\<close>

text \<open>The digits \<open>itoa\<close> generates, least significant first, for \<open>n > 0\<close>.\<close>

fun itoa_digits :: "nat \<Rightarrow> u8 list" where
  "itoa_digits n = (if n > 0 then of_nat (n mod 10 + 48) # itoa_digits (n div 10) else [])"

declare itoa_digits.simps [simp del]

definition itoa_rev :: "int \<Rightarrow> int \<Rightarrow> u8 list" where
  "itoa_rev n min_width =
     (let ds = (if n = 0 then [48] else itoa_digits (nat n))
      in ds @ replicate (nat min_width - length ds) 48)"

text \<open>The swap loop \<open>for(j = 0; j < i/2; j++)\<close> that reverses the buffer in place.\<close>

function rev_loop :: "u8 list \<Rightarrow> nat \<Rightarrow> nat \<Rightarrow> u8 list" where
  "rev_loop buf j i =
     (if j < i div 2
      then rev_loop (buf[j := buf ! (i - j - 1), i - j - 1 := buf ! j]) (Suc j) i
      else buf)"
  by pat_completeness auto
termination
  by (relation "measure (\<lambda>(buf, j, i). i div 2 - j)") auto

declare rev_loop.simps [simp del]

text \<open>The bytes \<open>itoa(n, buf, min_width)\<close> leaves in \<open>buf\<close>, NUL included.\<close>

definition itoa :: "int \<Rightarrow> int \<Rightarrow> u8 list" where
  "itoa n min_width =
     (let ds = itoa_rev n min_width; i = length ds in rev_loop (ds @ [0]) 0 i)"

text \<open>\<open>strcat\<close>: the string \<open>dest\<close> (up to its NUL) followed by \<open>src\<close> and its NUL.\<close>

fun str_of :: "u8 list \<Rightarrow> u8 list" where
  "str_of [] = []"
| "str_of (b # bs) = (if b = 0 then [] else b # str_of bs)"

definition strcat :: "u8 list \<Rightarrow> u8 list \<Rightarrow> u8 list" where
  "strcat dest src = str_of dest @ str_of src @ [0]"

section \<open>memset and memmove against their specifications\<close>

lemma memset_from_apply:
  assumes "i \<le> n" and "n \<le> 2 ^ 64"
  shows "memset_from m dst c i n x =
    (if i \<le> unat (x - dst) \<and> unat (x - dst) < n then ucast c else m x)"
  using assms
proof (induction m dst c i n rule: memset_from.induct)
  case (1 m dst c i n)
  show ?case
  proof (cases "i < n")
    case True
    have eq: "x = dst + of_nat i \<longleftrightarrow> unat (x - dst) = i"
    proof
      assume "x = dst + of_nat i"
      then show "unat (x - dst) = i"
        using True "1.prems" by (simp add: unat_of_nat_u64)
    next
      assume "unat (x - dst) = i"
      then have "of_nat (unat (x - dst)) = (of_nat i :: u64)" by simp
      then have "x - dst = of_nat i" by simp
      then show "x = dst + of_nat i" by (metis diff_add_cancel add.commute)
    qed
    have IH: "memset_from (m(dst + of_nat i := ucast c)) dst c (Suc i) n x =
      (if Suc i \<le> unat (x - dst) \<and> unat (x - dst) < n then ucast c
       else (m(dst + of_nat i := ucast c)) x)"
      by (rule "1.IH" [OF True]) (use True "1.prems" in simp_all)
    show ?thesis
      by (subst memset_from.simps) (use True IH eq in auto)
  next
    case False
    then show ?thesis
      using "1.prems" by (subst memset_from.simps) auto
  qed
qed

lemma memset_eq_mwrite:
  assumes "n \<le> 2 ^ 64"
  shows "memset m dst c n = mwrite m dst (replicate n (ucast c))"
proof
  fix x
  show "memset m dst c n x = mwrite m dst (replicate n (ucast c)) x"
    using memset_from_apply [of 0 n m dst c x] assms by (simp add: memset_def mwrite_def)
qed

lemma copy_fwd_apply:
  assumes "n \<le> 2 ^ 64" and "\<not> (0 < unat (d - s) \<and> unat (d - s) < n)"
  shows "copy_fwd m d s n x = (if unat (x - d) < n then m (s + (x - d)) else m x)"
  using assms
proof (induction m d s n arbitrary: x rule: copy_fwd.induct)
  case (1 m d s)
  then show ?case by simp
next
  case (2 m d s n)
  let ?m = "m(d := m s)"
  have "copy_fwd ?m (d + 1) (s + 1) n x =
    (if unat (x - (d + 1)) < n then ?m (s + 1 + (x - (d + 1))) else ?m x)"
    using "2.prems" by (intro "2.IH") auto
  then have IH: "copy_fwd m d s (Suc n) x =
    (if unat (x - d - 1) < n then ?m (s + (x - d)) else ?m x)"
    by (simp add: algebra_simps)
  show ?case
  proof (cases "x = d")
    case True
    have "\<not> unat (x - d - 1) < n"
      using True "2.prems"(1) by (simp add: unsigned_minus_1_eq_mask mask_eq_exp_minus_1)
    with IH True show ?thesis by simp
  next
    case False
    then have pos: "x - d \<noteq> 0" by simp
    then have u: "unat (x - d - 1) = unat (x - d) - 1"
      by (rule unat_minus_one)
    have upos: "0 < unat (x - d)"
      using pos by (simp add: unat_gt_0)
    have ne: "s + (x - d) \<noteq> d" if "unat (x - d) < Suc n"
    proof
      assume "s + (x - d) = d"
      then have "d - s = x - d" by (metis add_diff_cancel_left')
      with "2.prems"(2) that upos show False by simp
    qed
    have "unat (x - d - 1) < n \<longleftrightarrow> unat (x - d) < Suc n"
      using u upos by linarith
    with IH False ne show ?thesis by simp
  qed
qed

lemma copy_back_apply:
  assumes "n \<le> 2 ^ 64" and "\<not> (0 < unat (s - d) \<and> unat (s - d) < n)"
  shows "copy_back m d s n x =
    (if unat (d - 1 - x) < n then m (s - (d - x)) else m x)"
  using assms
proof (induction m d s n arbitrary: x rule: copy_back.induct)
  case (1 m d s)
  then show ?case by simp
next
  case (2 m d s n)
  let ?m = "m(d - 1 := m (s - 1))"
  have "copy_back ?m (d - 1) (s - 1) n x =
    (if unat (d - 1 - 1 - x) < n then ?m (s - 1 - (d - 1 - x)) else ?m x)"
    using "2.prems" by (intro "2.IH") auto
  then have IH: "copy_back m d s (Suc n) x =
    (if unat (d - 1 - x - 1) < n then ?m (s - (d - x)) else ?m x)"
    by (simp add: algebra_simps)
  show ?case
  proof (cases "x = d - 1")
    case True
    have "\<not> unat (d - 1 - x - 1) < n"
      using True "2.prems"(1) by (simp add: unsigned_minus_1_eq_mask mask_eq_exp_minus_1)
    with IH True show ?thesis by simp
  next
    case False
    then have pos: "d - 1 - x \<noteq> 0" by (metis right_minus_eq)
    then have u: "unat (d - 1 - x - 1) = unat (d - 1 - x) - 1"
      by (rule unat_minus_one)
    have upos: "0 < unat (d - 1 - x)"
      using pos unat_gt_0 by blast
    have ne: "s - (d - x) \<noteq> d - 1" if "unat (d - 1 - x) < Suc n"
    proof
      assume "s - (d - x) = d - 1"
      then have "s = d - 1 + (d - x)" by (metis diff_add_cancel)
      then have "s - d = d - 1 - x" by simp
      with "2.prems"(2) that upos show False by simp
    qed
    have "unat (d - 1 - x - 1) < n \<longleftrightarrow> unat (d - 1 - x) < Suc n"
      using u upos by linarith
    with IH False ne show ?thesis by simp
  qed
qed

lemma mirror_offset_less:
  fixes y :: u64
  assumes "0 < n" and "n < 2 ^ 64"
  shows "unat (of_nat n - 1 - y) < n \<longleftrightarrow> unat y < n"
proof -
  have N: "unat (of_nat n - 1 :: u64) = n - 1"
    using assms by (simp add: unat_sub_if_size word_size unat_of_nat_u64)
  have "unat z < n \<longleftrightarrow> z \<le> of_nat n - 1" for z :: u64
    using assms(1) by (auto simp: word_le_nat_alt N)
  then show ?thesis
    by (simp add: word_sub_le_iff)
qed

lemma mwrite_mread_apply:
  "mwrite m dst (mread m src n) x = (if unat (x - dst) < n then m (src + (x - dst)) else m x)"
  by (simp add: mwrite_def)

lemma memmove_eq_mwrite:
  assumes src: "unat src + n < 2 ^ 64" and dst: "unat dst + n < 2 ^ 64"
  shows "memmove m dst src n = mwrite m dst (mread m src n)"
proof (cases "src < dst \<and> src + of_nat n > dst")
  case True
  have n: "n < 2 ^ 64" using src by simp
  have lt: "unat src < unat dst" using True by (simp add: word_less_nat_alt)
  then have sd: "n \<le> unat (src - dst)"
    using dst by (simp only: unat_diff_u64) simp
  have "copy_back m (dst + of_nat n) (src + of_nat n) n x =
    mwrite m dst (mread m src n) x" for x
  proof -
    let ?d = "dst + of_nat n" and ?s = "src + of_nat n :: u64"
    have e1: "?d - 1 - x = of_nat n - 1 - (x - dst)"
      and e2: "?s - (?d - x) = src + (x - dst)" by simp_all
    have "copy_back m ?d ?s n x = (if unat (?d - 1 - x) < n then m (?s - (?d - x)) else m x)"
      using n sd by (intro copy_back_apply) simp_all
    also have "\<dots> = (if unat (x - dst) < n then m (src + (x - dst)) else m x)"
      unfolding e1 e2 using mirror_offset_less [of n "x - dst"] n by (cases "n = 0") simp_all
    finally show ?thesis
      unfolding mwrite_mread_apply .
  qed
  then have "copy_back m (dst + of_nat n) (src + of_nat n) n = mwrite m dst (mread m src n)"
    by (rule ext)
  with True show ?thesis
    by (auto simp: memmove_def)
next
  case False
  have n: "n < 2 ^ 64" using src by simp
  have no: "\<not> (0 < unat (dst - src) \<and> unat (dst - src) < n)"
  proof
    assume "0 < unat (dst - src) \<and> unat (dst - src) < n"
    then have "unat src < unat dst \<and> unat dst - unat src < n"
      using src unfolding unat_diff_u64 by (simp split: if_splits)
    then have "src < dst" and "dst < src + of_nat n"
      unfolding word_less_nat_alt unat_add_nat_u64 [OF src] by linarith+
    with False show False by simp
  qed
  have "copy_fwd m dst src n x = mwrite m dst (mread m src n) x" for x
    unfolding mwrite_mread_apply by (rule copy_fwd_apply) (use n no in simp_all)
  then have eq: "copy_fwd m dst src n = mwrite m dst (mread m src n)"
    by (rule ext)
  show ?thesis
  proof (cases "n = 0")
    case True
    with eq show ?thesis by (simp add: memmove_def)
  next
    case nz: False
    with False eq show ?thesis unfolding memmove_def by (simp only: if_False)
  qed
qed

text \<open>
  C22: memmove copies \<open>n\<close> bytes from \<open>src\<close> to \<open>dst\<close> as they were before the call, also
  when the two ranges overlap, and changes no byte outside the destination.
\<close>

theorem memmove_copies:
  assumes "unat src + n < 2 ^ 64" "unat dst + n < 2 ^ 64"
  shows "mread (memmove m dst src n) dst n = mread m src n \<and>
    (\<forall>x. \<not> unat (x - dst) < n \<longrightarrow> memmove m dst src n x = m x)"
  using assms by (simp add: memmove_eq_mwrite) (simp add: mwrite_def)

theorem memmove_copies_witness:
  "mread (memmove (\<lambda>a. ucast a) 0x21 0x20 3) 0x21 3 = [0x20, 0x21, 0x22] \<and>
    memmove (\<lambda>a. ucast a) 0x21 0x20 3 0x20 = 0x20 \<and> memmove (\<lambda>a. ucast a) 0x21 0x20 3 0x24 = 0x24"
proof -
  have c: "mread (memmove (\<lambda>a. ucast a) 0x21 0x20 3) 0x21 3 = mread (\<lambda>a. ucast a) 0x20 3 \<and>
      (\<forall>x. \<not> unat (x - 0x21) < 3 \<longrightarrow> memmove (\<lambda>a. ucast a) 0x21 0x20 3 x = ucast x)"
    by (rule memmove_copies) simp_all
  have "mread (\<lambda>a. ucast a) 0x20 3 = [0x20, 0x21, 0x22]" by (simp add: mread_def upt_rec)
  moreover have "\<not> unat (0x20 - 0x21 :: u64) < 3" "\<not> unat (0x24 - 0x21 :: u64) < 3" by (simp_all add: unsigned_minus_1_eq_mask mask_eq_exp_minus_1)
  ultimately show ?thesis using c by simp
qed

section \<open>The string routines\<close>

lemma safestrcpy_length: "length (safestrcpy t n) \<le> n"
  by (induction t n rule: safestrcpy.induct) auto

lemma str_of_takeWhile: "str_of bs = takeWhile (\<lambda>b. b \<noteq> 0) bs"
  by (induction bs) auto

lemma map_cptr_Suc: "map t [0..<Suc n] = t 0 # map (\<lambda>i. t (Suc i)) [0..<n]"
  by (simp add: upt_conv_Cons map_Suc_upt [symmetric] o_def del: upt_Suc)

text \<open>
  C24: safestrcpy with room for \<open>n\<close> bytes stores at most \<open>n\<close> bytes, always a NUL among
  them, and the stored string is the source string cut to \<open>n - 1\<close> bytes.
\<close>

theorem safestrcpy_cuts:
  assumes "0 < n"
  shows "length (safestrcpy t n) \<le> n \<and> 0 \<in> set (safestrcpy t n) \<and>
    str_of (safestrcpy t n) = takeWhile (\<lambda>b. b \<noteq> 0) (map t [0..<n - 1])"
  using assms
proof (induction t n rule: safestrcpy.induct)
  case (3 t n)
  then show ?case using map_cptr_Suc [of t n] by (auto simp del: upt_Suc)
qed auto

theorem safestrcpy_cuts_witness:
  "length (safestrcpy (\<lambda>i. [105, 110, 105, 116, 0] ! i) 4) \<le> 4 \<and>
   str_of (safestrcpy (\<lambda>i. [105, 110, 105, 116, 0] ! i) 4) = [105, 110, 105]"
  using safestrcpy_cuts [of 4 "\<lambda>i. [105, 110, 105, 116, 0] ! i"] by (simp add: upt_rec)

lemma strncpy_length: "length (strncpy t n) = n"
  by (induction t n rule: strncpy.induct) auto

lemma strncpy_str: "str_of (strncpy t n) = takeWhile (\<lambda>b. b \<noteq> 0) (map t [0..<n])"
proof (induction t n rule: strncpy.induct)
  case (2 t n)
  then show ?case using map_cptr_Suc [of t n] by (auto simp: str_of_takeWhile simp del: upt_Suc)
qed simp

lemma uint_eq_u8: "uint (a :: u8) = uint b \<longleftrightarrow> a = b"
  by (simp add: word_uint_eq_iff)

lemma memcmp_eq_0: "memcmp s1 s2 n = 0 \<longleftrightarrow> (\<forall>i<n. s1 i = s2 i)"
  by (induction s1 s2 n rule: memcmp.induct) (auto simp: less_Suc_eq_0_disj uint_eq_u8)

lemma strncmp_eq_0:
  "strncmp p q n = 0 \<longleftrightarrow>
    takeWhile (\<lambda>b. b \<noteq> 0) (map p [0..<n]) = takeWhile (\<lambda>b. b \<noteq> 0) (map q [0..<n])"
proof (induction p q n rule: strncmp.induct)
  case (2 p q n)
  then show ?case using map_cptr_Suc [of p n] map_cptr_Suc [of q n]
    by (auto simp: uint_eq_u8 uint_0_iff simp del: upt_Suc)
qed simp

lemma strlen_from_Some:
  assumes "n \<le> k" "\<And>i. n \<le> i \<Longrightarrow> i < k \<Longrightarrow> s i \<noteq> 0" "s k = 0"
  shows "strlen_from s n = Some k"
  using assms
proof (induction "k - n" arbitrary: n)
  case 0
  then show ?case by (simp add: strlen_from.simps [of s n])
next
  case (Suc d)
  have "strlen_from s n = strlen_from s (Suc n)"
    using Suc.prems(2) [of n] Suc.hyps(2) by (simp add: strlen_from.simps [of s n])
  also have "\<dots> = Some k" using Suc by (intro Suc.hyps(1)) auto
  finally show ?case .
qed

lemma strlen_Some: "\<forall>i<k. s i \<noteq> 0 \<Longrightarrow> s k = 0 \<Longrightarrow> strlen s = Some k"
  unfolding strlen_def by (rule strlen_from_Some) auto

section \<open>Decimal formatting\<close>

lemma rev_loop_nth:
  assumes "j \<le> i div 2" "i \<le> length buf" "k < length buf"
  shows "rev_loop buf j i ! k = (if j \<le> k \<and> k < i - j then buf ! (i - 1 - k) else buf ! k)"
  using assms
proof (induction buf j i rule: rev_loop.induct)
  case (1 buf j i)
  show ?case
  proof (cases "j < i div 2")
    case False
    with 1(2) have "j = i div 2" by simp
    then have "i - 1 - k = k" if "j \<le> k" "k < i - j" using that by linarith
    with False show ?thesis by (simp add: rev_loop.simps [of buf j i])
  next
    case True
    let ?b = "buf[j := buf ! (i - j - 1), i - j - 1 := buf ! j]"
    have "rev_loop ?b (Suc j) i ! k =
        (if Suc j \<le> k \<and> k < i - Suc j then ?b ! (i - 1 - k) else ?b ! k)"
      using True 1(3,4) by (intro 1(1)) auto
    moreover have "rev_loop buf j i = rev_loop ?b (Suc j) i"
      using True by (simp add: rev_loop.simps [of buf j i])
    moreover have b: "?b ! l = (if l = i - j - 1 then buf ! j else if l = j then buf ! (i - j - 1) else buf ! l)"
      if "l < length buf" for l
      using True 1(3) that by (simp add: nth_list_update)
    consider "k = j" | "k = i - j - 1" | "Suc j \<le> k" "k < i - Suc j" | "k < j" | "i - j \<le> k"
      using True by linarith
    then have "(if Suc j \<le> k \<and> k < i - Suc j then ?b ! (i - 1 - k) else ?b ! k) =
        (if j \<le> k \<and> k < i - j then buf ! (i - 1 - k) else buf ! k)"
    proof cases
      case 3
      then have "i - 1 - k < length buf" "i - 1 - k \<noteq> i - j - 1" "i - 1 - k \<noteq> j" "k < i - j" using 1(3) by auto
      with 3 show ?thesis by (simp add: b)
    qed (use True 1(3,4) b [of k] in auto)
    ultimately show ?thesis by simp
  qed
qed

lemma length_rev_loop: "length (rev_loop buf j i) = length buf"
proof (induction buf j i rule: rev_loop.induct)
  case (1 buf j i)
  then show ?case by (cases "j < i div 2") (auto simp: rev_loop.simps [of buf j i])
qed

lemma rev_loop_rev: "rev_loop (xs @ ys) 0 (length xs) = rev xs @ ys"
proof (rule nth_equalityI)
  show "length (rev_loop (xs @ ys) 0 (length xs)) = length (rev xs @ ys)"
    by (simp add: length_rev_loop)
  then show "rev_loop (xs @ ys) 0 (length xs) ! k = (rev xs @ ys) ! k"
    if "k < length (rev_loop (xs @ ys) 0 (length xs))" for k
    using that rev_loop_nth [of 0 "length xs" "xs @ ys" k] by (auto simp: nth_append rev_nth)
qed

text \<open>The number a string of decimal digits denotes.\<close>

definition digit_val :: "u8 \<Rightarrow> nat" where
  "digit_val d = unat d - 48"

fun decimal_rev :: "u8 list \<Rightarrow> nat" where
  "decimal_rev [] = 0"
| "decimal_rev (d # ds) = digit_val d + 10 * decimal_rev ds"

definition decimal :: "u8 list \<Rightarrow> nat" where
  "decimal ds = decimal_rev (rev ds)"

definition is_digit :: "u8 \<Rightarrow> bool" where
  "is_digit d \<longleftrightarrow> 48 \<le> d \<and> d \<le> 57"

lemma digit_char: "k < 10 \<Longrightarrow> digit_val (of_nat (k + 48)) = k \<and> is_digit (of_nat (k + 48))"
proof -
  assume "k < 10"
  then have "unat (of_nat (k + 48) :: u8) = k + 48" by (simp add: unat_of_nat del: of_nat_add)
  with \<open>k < 10\<close> show ?thesis by (simp add: digit_val_def is_digit_def word_le_nat_alt del: of_nat_add)
qed

lemma decimal_rev_zeros: "decimal_rev (ds @ replicate k 48) = decimal_rev ds"
  by (induction ds) (induction k, auto simp: digit_val_def)

lemma itoa_digits_spec: "decimal_rev (itoa_digits n) = n \<and> (\<forall>d\<in>set (itoa_digits n). is_digit d)"
proof (induction n rule: itoa_digits.induct)
  case (1 n)
  then show ?case
    using digit_char [of "n mod 10"] by (auto simp: itoa_digits.simps [of n] simp del: of_nat_add)
qed

lemma itoa_rev_spec:
  "decimal_rev (itoa_rev n w) = nat n \<and> (\<forall>d\<in>set (itoa_rev n w). is_digit d) \<and> nat w \<le> length (itoa_rev n w)"
  using itoa_digits_spec [of "nat n"]
  by (auto simp: itoa_rev_def Let_def decimal_rev_zeros digit_val_def is_digit_def)

lemma is_digit_nonzero: "is_digit d \<Longrightarrow> d \<noteq> 0"
  by (auto simp: is_digit_def)

lemma itoa_eq: "itoa n w = rev (itoa_rev n w) @ [0]"
  by (simp add: itoa_def Let_def rev_loop_rev)


end
