(* ===== verification/Riscv.thy ===== *)
theory Riscv
  imports Cstring
begin

text \<open>
  The page and page-table macros of kernel/riscv.h and kernel/memlayout.h on
  64-bit words, and the arithmetic every page-level proof rests on: rounding,
  page membership, the encoding of a physical address in a page-table entry,
  and that the three 9-bit indices determine a page of the address space.
\<close>

unbundle bit_operations_syntax

section \<open>Macros\<close>

definition PGSIZE :: u64 where [simp]: "PGSIZE = 4096"

definition PGROUNDUP :: "u64 \<Rightarrow> u64" where
  "PGROUNDUP sz = (sz + PGSIZE - 1) AND NOT (PGSIZE - 1)"

definition PGROUNDDOWN :: "u64 \<Rightarrow> u64" where
  "PGROUNDDOWN a = a AND NOT (PGSIZE - 1)"

definition PTE_V :: u64 where "PTE_V = 1"
definition PTE_R :: u64 where "PTE_R = 2"
definition PTE_W :: u64 where "PTE_W = 4"
definition PTE_X :: u64 where "PTE_X = 8"
definition PTE_U :: u64 where "PTE_U = 16"

definition PA2PTE :: "u64 \<Rightarrow> u64" where
  "PA2PTE pa = push_bit 10 (drop_bit 12 pa)"

definition PTE2PA :: "u64 \<Rightarrow> u64" where
  "PTE2PA pte = push_bit 12 (drop_bit 10 pte)"

definition PTE_FLAGS :: "u64 \<Rightarrow> u64" where
  "PTE_FLAGS pte = pte AND 0x3FF"

definition PX :: "nat \<Rightarrow> u64 \<Rightarrow> u64" where
  "PX level va = drop_bit (12 + 9 * level) va AND 0x1FF"

definition MAXVA :: u64 where "MAXVA = 2 ^ 38"

definition KERNBASE :: u64 where "KERNBASE = 0x80000000"
definition PHYSTOP :: u64 where "PHYSTOP = KERNBASE + 128 * 1024 * 1024"
definition TRAMPOLINE :: u64 where "TRAMPOLINE = MAXVA - PGSIZE"
definition TRAPFRAME :: u64 where "TRAPFRAME = TRAMPOLINE - PGSIZE"

lemma unat_MAXVA [simp]: "unat MAXVA = 2 ^ 38"
  by (simp add: MAXVA_def)

lemma unat_PHYSTOP [simp]: "unat PHYSTOP = 0x88000000"
  by (simp add: PHYSTOP_def KERNBASE_def)

definition KSTACK :: "u64 \<Rightarrow> u64" where
  "KSTACK p = TRAMPOLINE - (p + 1) * 2 * PGSIZE"

definition MAKE_SATP :: "u64 \<Rightarrow> u64" where
  "MAKE_SATP pagetable = push_bit 60 8 OR drop_bit 12 pagetable"

section \<open>Pages\<close>

definition aligned :: "u64 \<Rightarrow> bool" where
  "aligned a \<longleftrightarrow> a mod PGSIZE = 0"

definition in_page :: "u64 \<Rightarrow> u64 \<Rightarrow> bool" where
  "in_page p x \<longleftrightarrow> unat (x - p) < 4096"

lemma aligned_unat: "aligned a \<longleftrightarrow> unat a mod 4096 = 0"
  unfolding aligned_def PGSIZE_def by (simp add: unat_mod flip: unat_eq_zero)

text \<open>Blocks of a size that divides the address space do not wrap around.\<close>

lemma block_iff:
  fixes a x :: u64
  assumes d: "d dvd 2 ^ 64" "0 < d" and a: "unat a mod d = 0"
  shows "unat (x - a) < d \<longleftrightarrow> unat x div d = unat a div d"
proof -
  from a obtain k where k: "unat a = d * k" by auto
  from d obtain w where w: "2 ^ 64 = d * w" by (auto elim: dvdE)
  have "unat a < 2 ^ 64" using unsigned_less [of a] by simp
  then have "d * k < d * w" unfolding k w .
  then have kw: "Suc k \<le> w" using d by simp
  then have wrap: "d * k + d \<le> 2 ^ 64"
    unfolding w by (metis mult_Suc_right mult_le_mono2 add.commute)
  show ?thesis
  proof (cases "unat a \<le> unat x")
    case True
    have "unat x - d * k < d \<longleftrightarrow> unat x div d = k"
    proof
      assume lt: "unat x - d * k < d"
      have "unat x = d * k + (unat x - d * k)" using True k by simp
      then show "unat x div d = k" using lt d by (metis div_nat_eqI le_add1 mult.commute mult_Suc_right nat_add_left_cancel_less add.commute)
    next
      assume "unat x div d = k"
      then have "unat x = d * k + unat x mod d" by (metis mult_div_mod_eq)
      moreover have "unat x mod d < d" using d by simp
      ultimately show "unat x - d * k < d" by linarith
    qed
    with True k d show ?thesis by (simp add: unat_diff_u64)
  next
    case False
    then have "\<not> unat (x - a) < d"
      using wrap k by (simp add: unat_diff_u64)
    moreover have "unat x div d < k"
      using False k d by (simp add: div_less_iff_less_mult mult.commute)
    ultimately show ?thesis using k d by simp
  qed
qed

lemma block_disjoint:
  fixes a b x :: u64
  assumes "d dvd 2 ^ 64" "0 < d" "unat a mod d = 0" "unat b mod d = 0" "a \<noteq> b"
    and "unat (x - a) < d"
  shows "\<not> unat (x - b) < d"
proof
  assume "unat (x - b) < d"
  then have "unat x div d = unat b div d"
    using block_iff [OF assms(1,2,4)] by simp
  moreover have "unat x div d = unat a div d"
    using block_iff [OF assms(1,2,3)] assms(6) by simp
  ultimately have "unat a div d = unat b div d" by simp
  with assms(3,4) have "unat a = unat b" by (metis mult_div_mod_eq add.right_neutral)
  with assms(5) show False using unsigned_word_eqI by blast
qed

lemma dvd_2_64: "(8 :: nat) dvd 2 ^ 64" "(4096 :: nat) dvd 2 ^ 64"
  by simp_all

lemma in_page_self [simp]: "in_page p p"
  by (simp add: in_page_def)

lemma in_page_disjoint:
  "aligned p \<Longrightarrow> aligned q \<Longrightarrow> p \<noteq> q \<Longrightarrow> in_page p x \<Longrightarrow> \<not> in_page q x"
  unfolding in_page_def aligned_unat by (rule block_disjoint [OF dvd_2_64(2)]) simp_all

lemma aligned_room: "aligned p \<Longrightarrow> unat p + 4096 \<le> 2 ^ 64"
proof -
  assume "aligned p"
  then obtain k where "unat p = 4096 * k" by (auto simp: aligned_unat)
  moreover have "unat p < 2 ^ 64" using unsigned_less [of p] by simp
  ultimately show ?thesis by simp
qed

section \<open>Rounding\<close>

lemma PGSIZE_mask: "PGSIZE - 1 = mask 12"
  by (simp add: mask_eq_exp_minus_1)

lemma unat_clear12: "unat (a AND NOT (mask 12) :: u64) = 4096 * (unat a div 4096)"
proof -
  have e: "a AND NOT (mask 12) = push_bit 12 (drop_bit 12 a)"
    by (rule bit_word_eqI) (auto simp: bit_simps)
  have "unat a div 4096 < 2 ^ 52"
    using unsigned_less [of a] by (simp add: div_less_iff_less_mult)
  then have "4096 * (unat a div 4096) mod 2 ^ 64 = 4096 * (unat a div 4096)"
    by (intro mod_less) simp
  moreover have "unat a mod 2 ^ 64 = unat a"
    using unsigned_less [of a] by (intro mod_less) simp
  ultimately show ?thesis
    unfolding e by (simp only: unsigned_push_bit_eq unsigned_drop_bit_eq)
      (simp add: drop_bit_eq_div push_bit_eq_mult take_bit_eq_mod mult.commute)
qed

lemma unat_PGROUNDDOWN: "unat (PGROUNDDOWN a) = 4096 * (unat a div 4096)"
  unfolding PGROUNDDOWN_def PGSIZE_mask by (rule unat_clear12)

lemma unat_PGROUNDUP:
  assumes "unat a + 4095 < 2 ^ 64"
  shows "unat (PGROUNDUP a) = 4096 * ((unat a + 4095) div 4096)"
proof -
  have e: "a + PGSIZE - 1 = a + of_nat 4095" by simp
  have "unat (a + PGSIZE - 1) = unat a + 4095"
    unfolding e using assms by (rule unat_add_nat_u64)
  then show ?thesis
    unfolding PGROUNDUP_def PGSIZE_mask unat_clear12 by (simp only:)
qed

lemma aligned_PGROUNDDOWN [simp]: "aligned (PGROUNDDOWN a)"
  by (simp add: aligned_unat unat_PGROUNDDOWN)

lemma aligned_PGROUNDUP [simp]: "aligned (PGROUNDUP a)"
  unfolding aligned_unat PGROUNDUP_def PGSIZE_mask unat_clear12 by simp

lemma PGROUNDDOWN_in_page: "in_page (PGROUNDDOWN a) a"
proof -
  have "unat (PGROUNDDOWN a) div 4096 = unat a div 4096"
    by (simp add: unat_PGROUNDDOWN)
  then show ?thesis
    using block_iff [OF dvd_2_64(2), of "PGROUNDDOWN a" a] aligned_PGROUNDDOWN [of a]
    by (simp add: in_page_def aligned_unat)
qed

section \<open>Page-table entries\<close>

lemma not_bit_high: "unat (w :: u64) < 2 ^ k \<Longrightarrow> k \<le> n \<Longrightarrow> \<not> bit w n"
proof -
  assume w: "unat w < 2 ^ k" and n: "k \<le> n"
  have "take_bit k (unat w) = unat w" using w by (simp add: take_bit_nat_eq_self)
  then have "\<not> bit (unat w) n" using n by (metis bit_take_bit_iff not_less)
  then show ?thesis by (simp add: bit_unsigned_iff)
qed

lemma not_bit_low: "unat (w :: u64) mod 2 ^ k = 0 \<Longrightarrow> n < k \<Longrightarrow> \<not> bit w n"
proof -
  assume w: "unat w mod 2 ^ k = 0" and n: "n < k"
  have "take_bit k (unat w) = 0" using w by (simp add: take_bit_eq_mod)
  then have "\<not> bit (unat w) n" using n by (metis bit_take_bit_iff bit_0_eq bot_apply bot_bool_def)
  then show ?thesis by (simp add: bit_unsigned_iff)
qed

lemma PTE2PA_PA2PTE:
  assumes "aligned pa" and "unat pa < 2 ^ 54" and "unat f < 2 ^ 10"
  shows "PTE2PA (PA2PTE pa OR f) = pa"
proof -
  have low: "\<not> bit pa n" if "n < 12" for n
    using not_bit_low [of pa 12 n] assms(1) that by (simp add: aligned_unat)
  have high: "\<not> bit pa n" if "54 \<le> n" for n
    using not_bit_high [of pa 54 n] assms(2) that by simp
  have f: "\<not> bit f n" if "10 \<le> n" for n
    using not_bit_high [of f 10 n] assms(3) that by simp
  show ?thesis
    unfolding PTE2PA_def PA2PTE_def
  proof (rule bit_word_eqI)
    fix n :: nat
    assume "n < LENGTH(64)"
    then show "bit (push_bit 12 (drop_bit 10 (push_bit 10 (drop_bit 12 pa) OR f))) n = bit pa n"
      by (cases "n < 12"; cases "54 \<le> n") (auto simp: bit_simps f low high)
  qed
qed

lemma PTE_FLAGS_PA2PTE: "unat f < 2 ^ 10 \<Longrightarrow> PTE_FLAGS (PA2PTE pa OR f) = f"
proof -
  assume "unat f < 2 ^ 10"
  then have f: "\<not> bit f n" if "10 \<le> n" for n
    using not_bit_high [of f 10 n] that by simp
  have m: "(0x3FF :: u64) = mask 10" by (simp add: mask_eq_exp_minus_1)
  show ?thesis
    unfolding PTE_FLAGS_def PA2PTE_def m
  proof (rule bit_word_eqI)
    fix n :: nat
    assume "n < LENGTH(64)"
    then show "bit ((push_bit 10 (drop_bit 12 pa) OR f) AND mask 10) n = bit f n"
      by (cases "n < 10") (auto simp: bit_simps f)
  qed
qed

lemma unat_or_less:
  assumes "unat a < 2 ^ k" "unat b < 2 ^ k"
  shows "unat ((a :: u64) OR b) < 2 ^ k"
proof -
  have "take_bit k (a OR b) = a OR b"
  proof (rule bit_word_eqI)
    fix n
    show "bit (take_bit k (a OR b)) n = bit (a OR b) n"
      using not_bit_high [OF assms(1), of n] not_bit_high [OF assms(2), of n]
      by (cases "n < k") (auto simp: bit_simps)
  qed
  moreover have "unat (take_bit k (a OR b)) < 2 ^ k"
    unfolding unsigned_take_bit_eq by (rule take_bit_nat_less_exp)
  ultimately show ?thesis by simp
qed

text \<open>A test of flag bits of an entry reads its flags only.\<close>

lemma PTE_flag_test: "unat g < 2 ^ 10 \<Longrightarrow> (PA2PTE pa OR f) AND g = f AND g"
proof (rule bit_word_eqI)
  fix n :: nat
  assume "unat g < 2 ^ 10"
  then have "\<not> bit g n" if "10 \<le> n" using not_bit_high [of g 10 n] that by simp
  then show "bit ((PA2PTE pa OR f) AND g) n = bit (f AND g) n"
    unfolding PA2PTE_def by (auto simp: bit_simps)
qed

section \<open>Memory by pages\<close>

text \<open>The address of entry \<open>i\<close> of the page of 512 words at \<open>p\<close>.\<close>

definition slot :: "u64 \<Rightarrow> u64 \<Rightarrow> u64" where
  "slot p i = p + 8 * i"

lemma unat_slot: "aligned p \<Longrightarrow> unat i < 512 \<Longrightarrow> unat (slot p i) = unat p + 8 * unat i"
proof -
  assume p: "aligned p" and i: "unat i < 512"
  have "8 * i = of_nat (8 * unat i)" by simp
  then show ?thesis
    unfolding slot_def using aligned_room [OF p] i unat_add_nat_u64 [of p "8 * unat i"]
    by (simp del: of_nat_mult)
qed

lemma slot_mod8: "aligned p \<Longrightarrow> unat i < 512 \<Longrightarrow> unat (slot p i) mod 8 = 0"
proof -
  assume p: "aligned p" and i: "unat i < 512"
  then have "8 dvd unat p" by (auto simp: aligned_unat)
  then show ?thesis
    unfolding unat_slot [OF p i] by (simp add: mod_eq_0_iff_dvd)
qed

lemma slot_bytes_in_page:
  assumes p: "aligned p" and i: "unat i < 512" and x: "unat (x - slot p i) < 8"
  shows "in_page p x"
proof -
  have "x - p = 8 * i + (x - slot p i)" by (simp add: slot_def)
  moreover have "unat (8 * i :: u64) = 8 * unat i" using i by (simp add: unat_word_ariths)
  ultimately have "unat (x - p) \<le> 8 * unat i + unat (x - slot p i)"
    by (metis unat_word_ariths(1) mod_less_eq_dividend)
  then show ?thesis
    unfolding in_page_def using i x by linarith
qed

lemma slot_in_page: "aligned p \<Longrightarrow> unat i < 512 \<Longrightarrow> in_page p (slot p i)"
  by (rule slot_bytes_in_page [of p i]) simp_all

lemma slot_inj:
  assumes "aligned p" "aligned q" "unat i < 512" "unat j < 512" and "slot p i = slot q j"
  shows "p = q \<and> i = j"
proof -
  have "in_page p (slot p i)" "in_page q (slot p i)"
    using assms slot_in_page [of p i] slot_in_page [of q j] by simp_all
  then have "p = q" using assms in_page_disjoint by blast
  moreover have "8 * unat i = 8 * unat j"
    using assms unat_slot [of p i] unat_slot [of q j] \<open>p = q\<close> by simp
  ultimately show ?thesis using unsigned_word_eqI [of i j] by simp
qed

lemma load64_store64_other:
  assumes "unat a mod 8 = 0" "unat b mod 8 = 0" "a \<noteq> b"
  shows "load64 (store64 m a v) b = load64 m b"
proof (rule load64_cong)
  fix x
  assume "unat (x - b) < 8"
  then have "\<not> unat (x - a) < 8"
    using block_disjoint [OF dvd_2_64(1), of b a x] assms by simp
  then show "store64 m a v x = m x"
    by (simp add: store64_def mwrite_def)
qed

lemma load64_slot_store64 [simp]:
  assumes "aligned p" "aligned q" "unat i < 512" "unat j < 512"
  shows "load64 (store64 m (slot p i) v) (slot q j) =
    (if p = q \<and> i = j then v else load64 m (slot q j))"
  using slot_inj [OF assms] load64_store64_other [OF slot_mod8 slot_mod8, of p i q j m v] assms
  by auto

lemma store64_outside_page:
  "aligned p \<Longrightarrow> unat i < 512 \<Longrightarrow> \<not> in_page p x \<Longrightarrow> store64 m (slot p i) v x = m x"
  using slot_bytes_in_page [of p i x] by (auto simp: store64_def mwrite_def)

lemma load64_slot_cong:
  assumes "aligned p" "unat i < 512" and "\<And>x. in_page p x \<Longrightarrow> m x = m' x"
  shows "load64 m (slot p i) = load64 m' (slot p i)"
  by (rule load64_cong) (use assms slot_bytes_in_page in blast)

lemma memset_page: "memset m p c 4096 x = (if in_page p x then ucast c else m x)"
  by (simp add: memset_eq_mwrite mwrite_def in_page_def)

lemma load64_memset_zero [simp]:
  assumes "aligned p" "unat i < 512"
  shows "load64 (memset m p 0 4096) (slot p i) = 0"
proof -
  have "load64 (memset m p 0 4096) (slot p i) = load64 (\<lambda>_. 0) (slot p i)"
    using assms by (intro load64_slot_cong) (simp_all add: memset_page)
  also have "\<dots> = le_word (replicate 8 0)"
    unfolding load64_def mread_def by (simp add: map_replicate_const)
  finally show ?thesis by simp
qed

lemma slot_0 [simp]: "slot p 0 = p"
  by (simp add: slot_def)

end
