(* ===== verification/Kalloc.thy ===== *)
theory Kalloc
  imports Riscv
begin

text \<open>
  kernel/kalloc.c: the allocator of 4096-byte physical pages. The free list is
  threaded through the free pages themselves, as in the source: the first word
  of a free page holds the address of the next one. \<open>kmem_inv s ps\<close> says that
  the list in memory is exactly \<open>ps\<close>: distinct, aligned pages between the end
  of the kernel and PHYSTOP. The locale \<open>page_pool\<close> is the contract the
  virtual-memory code relies on; kalloc and kfree are shown to meet it.
\<close>

section \<open>State and operations\<close>

text \<open>
  \<open>phys\<close> is the byte contents of physical memory, \<open>freelist\<close> is
  \<open>kmem.freelist\<close>, and \<open>kend\<close> the address of the linker symbol \<open>end\<close>.
\<close>

record mach =
  phys :: pmem
  freelist :: u64
  kend :: u64

definition kfree :: "u64 \<Rightarrow> 'a mach_scheme \<Rightarrow> (unit, 'a mach_scheme) outcome" where
  "kfree pa s =
     (if pa mod PGSIZE \<noteq> 0 \<or> pa < kend s \<or> pa \<ge> PHYSTOP then Panic ''kfree''
      else let s = s\<lparr>phys := memset (phys s) pa 1 4096\<rparr>;
               s = s\<lparr>phys := store64 (phys s) pa (freelist s)\<rparr>
           in Ret () (s\<lparr>freelist := pa\<rparr>))"

definition kalloc :: "'a mach_scheme \<Rightarrow> (u64, 'a mach_scheme) outcome" where
  "kalloc s =
     (let r = freelist s in
      if r \<noteq> 0
      then let s = s\<lparr>freelist := load64 (phys s) r\<rparr>
           in Ret r (s\<lparr>phys := memset (phys s) r 5 4096\<rparr>)
      else Ret 0 s)"

text \<open>The loop of \<open>freerange\<close>, from page \<open>p\<close> on: it stops at \<open>pa_end\<close>, or in kfree's panic.\<close>

function freerange_from :: "u64 \<Rightarrow> u64 \<Rightarrow> 'a mach_scheme \<Rightarrow> (unit, 'a mach_scheme) outcome" where
  "freerange_from p pa_end s =
     (if p + PGSIZE \<le> pa_end
      then bindo (kfree p s) (\<lambda>_ s. freerange_from (p + PGSIZE) pa_end s)
      else Ret () s)"
  by pat_completeness auto
termination
proof (relation "measure (\<lambda>(p, pa_end, s). unat PHYSTOP - unat p)", goal_cases)
  case 1
  show ?case by simp
next
  case (2 p pa_end s x t)
  then have "p < PHYSTOP"
    by (simp add: kfree_def Let_def not_le split: if_splits)
  then have lt: "unat p < unat PHYSTOP" by (simp only: word_less_nat_alt)
  have "unat p + 4096 < 2 ^ 64" using lt by simp
  then have "unat (p + PGSIZE) = unat p + 4096"
    using unat_add_nat_u64 [of p 4096] by simp
  with lt show ?case by simp
qed

declare freerange_from.simps [simp del]

definition freerange :: "u64 \<Rightarrow> u64 \<Rightarrow> 'a mach_scheme \<Rightarrow> (unit, 'a mach_scheme) outcome" where
  "freerange pa_start pa_end s = freerange_from (PGROUNDUP pa_start) pa_end s"

definition kinit :: "'a mach_scheme \<Rightarrow> (unit, 'a mach_scheme) outcome" where
  "kinit s = freerange (kend s) PHYSTOP s"

section \<open>The free list in memory\<close>

definition page_ok :: "'a mach_scheme \<Rightarrow> u64 \<Rightarrow> bool" where
  "page_ok s p \<longleftrightarrow> aligned p \<and> kend s \<le> p \<and> p < PHYSTOP"

fun free_list :: "pmem \<Rightarrow> u64 \<Rightarrow> u64 list \<Rightarrow> bool" where
  "free_list m h [] = (h = 0)"
| "free_list m h (p # ps) = (h = p \<and> free_list m (load64 m p) ps)"

definition kmem_inv :: "'a mach_scheme \<Rightarrow> u64 list \<Rightarrow> bool" where
  "kmem_inv s ps \<longleftrightarrow> 0 < kend s \<and> free_list (phys s) (freelist s) ps \<and> distinct ps \<and>
     (\<forall>p\<in>set ps. page_ok s p)"

text \<open>\<open>mach_ext s t\<close>: only memory contents and the free list differ.\<close>

definition mach_ext :: "'a mach_scheme \<Rightarrow> 'a mach_scheme \<Rightarrow> bool" where
  "mach_ext s t \<longleftrightarrow> (\<exists>m f. t = s\<lparr>phys := m, freelist := f\<rparr>)"

lemma mach_ext_refl [simp]: "mach_ext s s"
  unfolding mach_ext_def by (rule exI [of _ "phys s"], rule exI [of _ "freelist s"]) simp

lemma mach_ext_trans [trans]: "mach_ext s t \<Longrightarrow> mach_ext t u \<Longrightarrow> mach_ext s u"
proof -
  assume "mach_ext s t" and "mach_ext t u"
  then obtain m f m' f' where "t = s\<lparr>phys := m, freelist := f\<rparr>" "u = t\<lparr>phys := m', freelist := f'\<rparr>"
    unfolding mach_ext_def by blast
  then have "u = s\<lparr>phys := m', freelist := f'\<rparr>" by simp
  then show ?thesis unfolding mach_ext_def by blast
qed

lemma mach_ext_phys [simp]: "mach_ext s (s\<lparr>phys := m\<rparr>)"
  unfolding mach_ext_def by (rule exI [of _ m], rule exI [of _ "freelist s"]) simp

lemma mach_ext_kend: "mach_ext s t \<Longrightarrow> kend t = kend s"
  unfolding mach_ext_def by auto

lemma mach_ext_page_ok: "mach_ext s t \<Longrightarrow> page_ok t p = page_ok s p"
  unfolding page_ok_def by (simp add: mach_ext_kend)

lemma page_ok_aligned: "page_ok s p \<Longrightarrow> aligned p"
  by (simp add: page_ok_def)

lemma page_ok_nonzero: "page_ok s p \<Longrightarrow> 0 < kend s \<Longrightarrow> p \<noteq> 0"
  by (auto simp: page_ok_def)

lemma page_ok_small: "page_ok s p \<Longrightarrow> unat p < 2 ^ 54"
  unfolding page_ok_def by (simp add: word_less_nat_alt)

lemma free_list_cong:
  assumes "\<And>p x. p \<in> set ps \<Longrightarrow> in_page p x \<Longrightarrow> m x = m' x" and "\<And>p. p \<in> set ps \<Longrightarrow> aligned p"
  shows "free_list m h ps = free_list m' h ps"
  using assms
proof (induction ps arbitrary: h)
  case Nil
  then show ?case by simp
next
  case (Cons p ps)
  have "load64 m p = load64 m' p"
    using load64_slot_cong [of p 0 m m'] Cons.prems(1) [of p] Cons.prems(2) [of p] by simp
  moreover have "free_list m (load64 m p) ps = free_list m' (load64 m p) ps"
    using Cons.prems by (intro Cons.IH) auto
  ultimately show ?case by simp
qed

lemma kmem_inv_cong:
  assumes "kmem_inv s ps" and "mach_ext s t" and "freelist t = freelist s"
    and "\<And>p x. p \<in> set ps \<Longrightarrow> in_page p x \<Longrightarrow> phys t x = phys s x"
  shows "kmem_inv t ps"
proof -
  have "free_list (phys t) (freelist s) ps = free_list (phys s) (freelist s) ps"
    using assms(1,4) by (intro free_list_cong) (auto simp: kmem_inv_def page_ok_def)
  with assms show ?thesis
    by (simp add: kmem_inv_def mach_ext_page_ok mach_ext_kend)
qed

lemma kalloc_Nil: "kmem_inv s [] \<Longrightarrow> kalloc s = Ret 0 s"
  by (simp add: kmem_inv_def kalloc_def)

lemma kalloc_Cons:
  assumes inv: "kmem_inv s (p # ps)"
  shows "\<exists>t. kalloc s = Ret p t \<and> kmem_inv t ps \<and> mach_ext s t \<and>
    (\<forall>x. \<not> in_page p x \<longrightarrow> phys t x = phys s x)"
proof -
  have p: "freelist s = p" "p \<noteq> 0" "aligned p"
    using inv by (auto simp: kmem_inv_def page_ok_def)
  let ?t = "s\<lparr>freelist := load64 (phys s) p, phys := memset (phys s) p 5 4096\<rparr>"
  have "kalloc s = Ret p ?t" using p by (simp add: kalloc_def)
  moreover have "mach_ext s ?t"
    unfolding mach_ext_def
    by (rule exI [of _ "memset (phys s) p 5 4096"], rule exI [of _ "load64 (phys s) p"]) simp
  moreover have "kmem_inv ?t ps"
  proof -
    have "free_list (memset (phys s) p 5 4096) (load64 (phys s) p) ps =
        free_list (phys s) (load64 (phys s) p) ps"
    proof (rule free_list_cong)
      fix q x
      assume q: "q \<in> set ps" "in_page q x"
      then have "aligned q" "q \<noteq> p" using inv by (auto simp: kmem_inv_def page_ok_def)
      then have "\<not> in_page p x" using q p in_page_disjoint by blast
      then show "memset (phys s) p 5 4096 x = phys s x" by (simp add: memset_page)
    next
      fix q
      assume "q \<in> set ps"
      then show "aligned q" using inv by (auto simp: kmem_inv_def page_ok_def)
    qed
    then show ?thesis
      using inv by (simp add: kmem_inv_def page_ok_def)
  qed
  ultimately show ?thesis
    by (intro exI [of _ ?t]) (simp add: memset_page)
qed

lemma kfree_ok:
  assumes inv: "kmem_inv s ps" and ok: "page_ok s p" and new: "p \<notin> set ps"
  shows "\<exists>t. kfree p s = Ret () t \<and> kmem_inv t (p # ps) \<and> mach_ext s t \<and>
    (\<forall>x. \<not> in_page p x \<longrightarrow> phys t x = phys s x)"
proof -
  have p: "aligned p" using ok by (simp add: page_ok_def)
  let ?m = "store64 (memset (phys s) p 1 4096) p (freelist s)"
  let ?t = "s\<lparr>phys := ?m, freelist := p\<rparr>"
  have out: "?m x = phys s x" if "\<not> in_page p x" for x
    using store64_outside_page [of p 0 x "memset (phys s) p 1 4096"] p that
    by (simp add: memset_page)
  have "kfree p s = Ret () ?t"
    using ok by (simp add: kfree_def page_ok_def aligned_def Let_def not_less not_le)
  moreover have "mach_ext s ?t" unfolding mach_ext_def by blast
  moreover have "kmem_inv ?t (p # ps)"
  proof -
    have "free_list ?m (freelist s) ps = free_list (phys s) (freelist s) ps"
    proof (rule free_list_cong)
      fix q x
      assume q: "q \<in> set ps" "in_page q x"
      then have "aligned q" "q \<noteq> p" using inv new by (auto simp: kmem_inv_def page_ok_def)
      then show "?m x = phys s x" using q p in_page_disjoint out by blast
    next
      fix q
      assume "q \<in> set ps"
      then show "aligned q" using inv by (auto simp: kmem_inv_def page_ok_def)
    qed
    then show ?thesis
      using inv ok new by (simp add: kmem_inv_def page_ok_def)
  qed
  ultimately show ?thesis
    using out by (intro exI [of _ ?t]) simp
qed

lemma kfree_bad: "\<not> page_ok s p \<Longrightarrow> kfree p s = Panic ''kfree''"
  by (auto simp: kfree_def page_ok_def aligned_def not_less not_le)

section \<open>Initialisation\<close>

lemma aligned_next: "aligned p \<Longrightarrow> p < PHYSTOP \<Longrightarrow> aligned (p + PGSIZE) \<and> unat (p + PGSIZE) = unat p + 4096"
proof -
  assume p: "aligned p" "p < PHYSTOP"
  then have "unat p + 4096 < 2 ^ 64" by (simp add: word_less_nat_alt)
  then have "unat (p + PGSIZE) = unat p + 4096"
    using unat_add_nat_u64 [of p 4096] by simp
  with p show ?thesis by (simp add: aligned_unat del: PGSIZE_def)
qed

lemma aligned_less_next:
  assumes "aligned p" "aligned q" "p < PHYSTOP"
  shows "q < p + PGSIZE \<longleftrightarrow> q < p \<or> q = p"
proof -
  have n: "unat (p + PGSIZE) = unat p + 4096" using aligned_next assms by blast
  obtain k where "unat p = 4096 * k" using assms(1) by (auto simp: aligned_unat)
  moreover obtain j where "unat q = 4096 * j" using assms(2) by (auto simp: aligned_unat)
  ultimately have "unat q < unat p + 4096 \<longleftrightarrow> unat q < unat p \<or> unat q = unat p" by auto
  then show ?thesis
    unfolding word_less_nat_alt n using unsigned_word_eqI [of q p] by blast
qed

lemma freerange_from_spec:
  assumes "aligned p" "kend s \<le> p" "p \<le> PHYSTOP" "kmem_inv s ps" "set ps = {q. page_ok s q \<and> q < p}"
  shows "\<exists>t qs. freerange_from p PHYSTOP s = Ret () t \<and> mach_ext s t \<and> kmem_inv t qs \<and>
    set qs = {q. page_ok s q}"
  using assms
proof (induction p "PHYSTOP :: u64" s arbitrary: ps rule: freerange_from.induct)
  case (1 p s)
  show ?case
  proof (cases "p < PHYSTOP")
    case True
    with "1.prems" have ok: "page_ok s p" and new: "p \<notin> set ps" by (auto simp: page_ok_def)
    obtain t where t: "kfree p s = Ret () t" "kmem_inv t (p # ps)" "mach_ext s t"
      using kfree_ok [OF "1.prems"(4) ok new] by blast
    have n: "aligned (p + PGSIZE)" "unat (p + PGSIZE) = unat p + 4096"
      using aligned_next [OF "1.prems"(1) True] by simp_all
    obtain k where k: "unat p = 4096 * k" using "1.prems"(1) by (auto simp: aligned_unat)
    have bound: "unat p + 4096 \<le> unat PHYSTOP"
      using True k by (simp add: word_less_nat_alt)
    then have le: "p + PGSIZE \<le> PHYSTOP" unfolding word_le_nat_alt n(2) .
    have "kend t \<le> p + PGSIZE"
      using "1.prems"(2) n(2) mach_ext_kend [OF t(3)] by (simp add: word_le_nat_alt del: PGSIZE_def)
    moreover have "set (p # ps) = {q. page_ok t q \<and> q < p + PGSIZE}"
      using "1.prems"(1,5) ok aligned_less_next [OF "1.prems"(1) _ True]
      by (auto simp: mach_ext_page_ok [OF t(3)] dest: page_ok_aligned)
    ultimately obtain u qs where u: "freerange_from (p + PGSIZE) PHYSTOP t = Ret () u"
        "mach_ext t u" "kmem_inv u qs" "set qs = {q. page_ok t q}"
      using "1.hyps" [OF le t(1), of "p # ps"] n(1) le t(2) by blast
    have "freerange_from p PHYSTOP s = Ret () u"
      using le t(1) u(1) by (simp only: freerange_from.simps [of p] if_True bindo.simps)
    moreover have "set qs = {q. page_ok s q}"
      using u(4) mach_ext_page_ok [OF t(3)] by simp
    ultimately show ?thesis
      using mach_ext_trans [OF t(3) u(2)] u(3) by blast
  next
    case False
    with "1.prems"(3) have p: "p = PHYSTOP" by simp
    then have "freerange_from p PHYSTOP s = Ret () s"
      unfolding p by (subst freerange_from.simps) (simp add: PHYSTOP_def KERNBASE_def)
    moreover have "set ps = {q. page_ok s q}"
      using "1.prems"(5) p by (auto simp: page_ok_def)
    ultimately show ?thesis using "1.prems"(4) by (metis mach_ext_refl)
  qed
qed

text \<open>
  C18: after \<open>kinit\<close> the free list in memory holds every usable page exactly once: every
  aligned page from the end of the kernel up to PHYSTOP, and nothing else.
\<close>

theorem kinit_frees_every_page:
  assumes "0 < kend s" "kend s \<le> PHYSTOP" "freelist s = 0"
  shows "\<exists>t ps. kinit s = Ret () t \<and> mach_ext s t \<and> kmem_inv t ps \<and> set ps = {p. page_ok s p}"
proof -
  let ?p = "PGROUNDUP (kend s)"
  have small: "unat (kend s) + 4095 < 2 ^ 64"
    using assms(2) by (simp add: word_le_nat_alt)
  have up: "unat ?p = 4096 * ((unat (kend s) + 4095) div 4096)"
    by (rule unat_PGROUNDUP [OF small])
  have ge: "kend s \<le> ?p" unfolding word_le_nat_alt up by linarith
  have le: "?p \<le> PHYSTOP"
    using assms(2) unfolding word_le_nat_alt up by simp
  have none: "{q. page_ok s q \<and> q < ?p} = {}"
  proof (safe)
    fix q
    assume q: "page_ok s q" "q < ?p"
    then obtain k where "unat q = 4096 * k" by (auto simp: page_ok_def aligned_unat)
    with q have "4096 * k < 4096 * ((unat (kend s) + 4095) div 4096)" "unat (kend s) \<le> 4096 * k"
      unfolding page_ok_def word_less_nat_alt word_le_nat_alt up by simp_all
    moreover from this have "(unat (kend s) + 4095) div 4096 \<le> (4096 * k + 4095) div 4096"
      by (intro div_le_mono) simp
    ultimately have False by simp
    then show "q \<in> {}" ..
  qed
  have "kmem_inv s []" using assms by (simp add: kmem_inv_def)
  then show ?thesis
    unfolding kinit_def freerange_def
    using freerange_from_spec [of ?p s "[]"] ge le none by simp
qed

theorem kinit_frees_every_page_witness:
  "\<exists>t ps. kinit \<lparr>phys = (\<lambda>_. 0), freelist = 0, kend = 0x80021000\<rparr> = Ret () t \<and>
    mach_ext \<lparr>phys = (\<lambda>_. 0), freelist = 0, kend = 0x80021000\<rparr> t \<and> kmem_inv t ps \<and>
    set ps = {p. page_ok \<lparr>phys = (\<lambda>_. 0), freelist = 0, kend = 0x80021000\<rparr> p}"
  by (rule kinit_frees_every_page) (simp_all add: PHYSTOP_def KERNBASE_def)

section \<open>The contract of the allocator\<close>

locale page_pool =
  fixes alloc :: "'s \<Rightarrow> (u64, 's) outcome"
    and release :: "u64 \<Rightarrow> 's \<Rightarrow> (unit, 's) outcome"
    and mem :: "'s \<Rightarrow> pmem"
    and pool :: "'s \<Rightarrow> u64 list \<Rightarrow> bool"
    and ext :: "'s \<Rightarrow> 's \<Rightarrow> bool"
    and usable :: "'s \<Rightarrow> u64 \<Rightarrow> bool"
  assumes alloc_empty: "pool s [] \<Longrightarrow> alloc s = Ret 0 s"
    and alloc_page: "pool s (p # ps) \<Longrightarrow> \<exists>t. alloc s = Ret p t \<and> pool t ps \<and> ext s t \<and>
        (\<forall>x. \<not> in_page p x \<longrightarrow> mem t x = mem s x)"
    and release_page: "pool s ps \<Longrightarrow> usable s p \<Longrightarrow> p \<notin> set ps \<Longrightarrow>
        \<exists>t. release p s = Ret () t \<and> pool t (p # ps) \<and> ext s t \<and>
          (\<forall>x. \<not> in_page p x \<longrightarrow> mem t x = mem s x)"
    and pool_usable: "pool s ps \<Longrightarrow> p \<in> set ps \<Longrightarrow> usable s p \<and> aligned p \<and> p \<noteq> 0"
    and pool_distinct: "pool s ps \<Longrightarrow> distinct ps"
    and ext_refl: "ext s s"
    and ext_trans: "ext s t \<Longrightarrow> ext t u \<Longrightarrow> ext s u"
    and ext_usable: "ext s t \<Longrightarrow> usable t p = usable s p"
begin

text \<open>An allocation returns 0 exactly when the pool is empty, and then changes nothing.\<close>

lemma alloc_cases:
  assumes "pool s ps"
  obtains (empty) "ps = []" "alloc s = Ret 0 s"
  | (page) p qs t where "ps = p # qs" "alloc s = Ret p t" "pool t qs" "ext s t" "p \<noteq> 0"
      "aligned p" "usable s p" "p \<notin> set qs" "\<And>x. \<not> in_page p x \<Longrightarrow> mem t x = mem s x"
proof (cases ps)
  case Nil
  with assms show thesis using alloc_empty that(1) by blast
next
  case (Cons p qs)
  with assms obtain t where "alloc s = Ret p t" "pool t qs" "ext s t"
      "\<forall>x. \<not> in_page p x \<longrightarrow> mem t x = mem s x"
    using alloc_page by blast
  with Cons show thesis
    using that(2) pool_usable [OF assms, of p] pool_distinct [OF assms] by simp
qed

text \<open>Giving a freshly allocated page back restores the pool.\<close>

lemma alloc_release:
  assumes "pool s (p # ps)"
  shows "\<exists>t. bindo (alloc s) release = Ret () t \<and> pool t (p # ps) \<and> ext s t \<and>
    (\<forall>x. \<not> in_page p x \<longrightarrow> mem t x = mem s x)"
proof -
  obtain t where t: "alloc s = Ret p t" "pool t ps" "ext s t"
      "\<forall>x. \<not> in_page p x \<longrightarrow> mem t x = mem s x"
    using alloc_page [OF assms] by blast
  have "usable t p" "p \<notin> set ps"
    using pool_usable [OF assms, of p] pool_distinct [OF assms] ext_usable [OF t(3)] by simp_all
  then obtain u where u: "release p t = Ret () u" "pool u (p # ps)" "ext t u"
      "\<forall>x. \<not> in_page p x \<longrightarrow> mem u x = mem t x"
    using release_page [OF t(2)] by blast
  then show ?thesis
    using t ext_trans by auto
qed

end

interpretation kp: page_pool kalloc kfree phys kmem_inv mach_ext page_ok
proof (unfold_locales, goal_cases)
  case (1 s)
  then show ?case by (rule kalloc_Nil)
next
  case (2 s p ps)
  then show ?case by (rule kalloc_Cons)
next
  case (3 s ps p)
  then show ?case by (rule kfree_ok)
next
  case (4 s ps p)
  then show ?case by (auto simp: kmem_inv_def page_ok_def)
next
  case (5 s ps)
  then show ?case by (simp add: kmem_inv_def)
next
  case (6 s)
  show ?case by simp
next
  case (7 s t u)
  then show ?case by (rule mach_ext_trans)
next
  case (8 s t p)
  then show ?case by (rule mach_ext_page_ok)
qed

end
