(* ===== verification/Vm.thy ===== *)
theory Vm
  imports Kalloc
begin

text \<open>
  The page-table code of kernel/vm.c and the page-table parts of kernel/proc.c:
  Sv39 three-level tables kept in physical memory, walked, extended, copied and
  freed exactly as the source does, with page-table pages taken from kalloc.
\<close>

unbundle bit_operations_syntax

section \<open>Walking and mapping\<close>

definition put64 :: "u64 \<Rightarrow> u64 \<Rightarrow> 'a mach_scheme \<Rightarrow> 'a mach_scheme" where
  "put64 a v s = s\<lparr>phys := store64 (phys s) a v\<rparr>"

definition zero_page :: "u64 \<Rightarrow> 'a mach_scheme \<Rightarrow> 'a mach_scheme" where
  "zero_page p s = s\<lparr>phys := memset (phys s) p 0 4096\<rparr>"

text \<open>The loop of \<open>walk\<close> for the levels above 0, then the address of the leaf entry.\<close>

fun walk_level :: "nat \<Rightarrow> u64 \<Rightarrow> u64 \<Rightarrow> bool \<Rightarrow> 'a mach_scheme \<Rightarrow> (u64, 'a mach_scheme) outcome" where
  "walk_level 0 pagetable va alloc s = Ret (slot pagetable (PX 0 va)) s"
| "walk_level (Suc l) pagetable va alloc s =
     (let pte = slot pagetable (PX (Suc l) va); v = load64 (phys s) pte in
      if v AND PTE_V \<noteq> 0 then walk_level l (PTE2PA v) va alloc s
      else if \<not> alloc then Ret 0 s
      else bindo (kalloc s) (\<lambda>pagetable s.
        if pagetable = 0 then Ret 0 s
        else walk_level l pagetable va alloc
               (put64 pte (PA2PTE pagetable OR PTE_V) (zero_page pagetable s))))"

definition walk :: "u64 \<Rightarrow> u64 \<Rightarrow> bool \<Rightarrow> 'a mach_scheme \<Rightarrow> (u64, 'a mach_scheme) outcome" where
  "walk pagetable va alloc s =
     (if va \<ge> MAXVA then Panic ''walk'' else walk_level 2 pagetable va alloc s)"

definition walkaddr :: "u64 \<Rightarrow> u64 \<Rightarrow> 'a mach_scheme \<Rightarrow> (u64, 'a mach_scheme) outcome" where
  "walkaddr pagetable va s =
     (if va \<ge> MAXVA then Ret 0 s
      else bindo (walk pagetable va False s) (\<lambda>pte s.
        if pte = 0 then Ret 0 s
        else let v = load64 (phys s) pte in
          if v AND PTE_V = 0 then Ret 0 s
          else if v AND PTE_U = 0 then Ret 0 s
          else Ret (PTE2PA v) s))"

lemma walk_Ret_less: "walk pt va al s = Ret x t \<Longrightarrow> va < MAXVA"
  by (simp add: walk_def not_le split: if_splits)

lemma unat_next_page: "a < MAXVA \<Longrightarrow> unat (a + PGSIZE) = unat a + 4096"
proof -
  assume "a < MAXVA"
  then have "unat a + 4096 < 2 ^ 64" by (simp add: word_less_nat_alt)
  then show ?thesis using unat_add_nat_u64 [of a 4096] by simp
qed

lemma next_page_measure: "a < MAXVA \<Longrightarrow> unat MAXVA - unat (a + PGSIZE) < unat MAXVA - unat a"
  using unat_next_page [of a] by (simp add: word_less_nat_alt)

function mappages_from ::
  "u64 \<Rightarrow> u64 \<Rightarrow> u64 \<Rightarrow> u64 \<Rightarrow> u64 \<Rightarrow> 'a mach_scheme \<Rightarrow> (int, 'a mach_scheme) outcome" where
  "mappages_from pagetable a last_a pa perm s =
     bindo (walk pagetable a True s) (\<lambda>pte s.
       if pte = 0 then Ret (-1) s
       else if load64 (phys s) pte AND PTE_V \<noteq> 0 then Ret (-1) s
       else let s = put64 pte (PA2PTE pa OR perm OR PTE_V) s in
         if a = last_a then Ret 0 s
         else mappages_from pagetable (a + PGSIZE) last_a (pa + PGSIZE) perm s)"
  by pat_completeness auto
termination
  by (relation "measure (\<lambda>(pt, a, last_a, pa, perm, s). unat MAXVA - unat a)")
    (auto simp only: in_measure wf_measure split_conv intro: next_page_measure dest: walk_Ret_less)

declare mappages_from.simps [simp del]

definition mappages ::
  "u64 \<Rightarrow> u64 \<Rightarrow> u64 \<Rightarrow> u64 \<Rightarrow> u64 \<Rightarrow> 'a mach_scheme \<Rightarrow> (int, 'a mach_scheme) outcome" where
  "mappages pagetable va sz pa perm s =
     (if va mod PGSIZE \<noteq> 0 then Panic ''mappages: va not aligned''
      else if sz mod PGSIZE \<noteq> 0 then Panic ''mappages: size not aligned''
      else if sz = 0 then Panic ''mappages: size''
      else mappages_from pagetable va (va + sz - PGSIZE) pa perm s)"

definition uvmcreate :: "'a mach_scheme \<Rightarrow> (u64, 'a mach_scheme) outcome" where
  "uvmcreate s = bindo (kalloc s) (\<lambda>pagetable s.
     if pagetable = 0 then Ret 0 s else Ret pagetable (zero_page pagetable s))"

section \<open>Unmapping, growing and shrinking\<close>

definition uvmunmap_page :: "u64 \<Rightarrow> u64 \<Rightarrow> bool \<Rightarrow> 'a mach_scheme \<Rightarrow> (unit, 'a mach_scheme) outcome" where
  "uvmunmap_page pagetable a do_free s =
     bindo (walk pagetable a False s) (\<lambda>pte s.
       if pte = 0 then Ret () s
       else let v = load64 (phys s) pte in
         if v AND PTE_V = 0 then Ret () s
         else bindo (if do_free then kfree (PTE2PA v) s else Ret () s) (\<lambda>_ s.
           Ret () (put64 pte 0 s)))"

lemma uvmunmap_page_less: "uvmunmap_page pt a f s = Ret x t \<Longrightarrow> a < MAXVA"
  unfolding uvmunmap_page_def bindo_Ret_iff by (auto dest: walk_Ret_less)

function uvmunmap_from ::
  "u64 \<Rightarrow> u64 \<Rightarrow> u64 \<Rightarrow> bool \<Rightarrow> 'a mach_scheme \<Rightarrow> (unit, 'a mach_scheme) outcome" where
  "uvmunmap_from pagetable a lim do_free s =
     (if a < lim
      then bindo (uvmunmap_page pagetable a do_free s) (\<lambda>_ s.
        uvmunmap_from pagetable (a + PGSIZE) lim do_free s)
      else Ret () s)"
  by pat_completeness auto
termination
  by (relation "measure (\<lambda>(pt, a, lim, f, s). unat MAXVA - unat a)")
    (auto simp only: in_measure wf_measure split_conv intro: next_page_measure dest: uvmunmap_page_less)

declare uvmunmap_from.simps [simp del]

definition uvmunmap ::
  "u64 \<Rightarrow> u64 \<Rightarrow> u64 \<Rightarrow> bool \<Rightarrow> 'a mach_scheme \<Rightarrow> (unit, 'a mach_scheme) outcome" where
  "uvmunmap pagetable va npages do_free s =
     (if va mod PGSIZE \<noteq> 0 then Panic ''uvmunmap: not aligned''
      else uvmunmap_from pagetable va (va + npages * PGSIZE) do_free s)"

text \<open>\<open>npages\<close> is an \<open>int\<close> in the source: the page count is truncated to 32 bits and sign-extended.\<close>

definition uvmdealloc :: "u64 \<Rightarrow> u64 \<Rightarrow> u64 \<Rightarrow> 'a mach_scheme \<Rightarrow> (u64, 'a mach_scheme) outcome" where
  "uvmdealloc pagetable oldsz newsz s =
     (if newsz \<ge> oldsz then Ret oldsz s
      else if PGROUNDUP newsz < PGROUNDUP oldsz
      then let npages = (ucast ((PGROUNDUP oldsz - PGROUNDUP newsz) div PGSIZE) :: u32) in
        bindo (uvmunmap pagetable (PGROUNDUP newsz) (scast npages) True s) (\<lambda>_ s. Ret newsz s)
      else Ret newsz s)"

lemma mappages_less: "mappages pt a sz pa perm s = Ret x t \<Longrightarrow> a < MAXVA"
  unfolding mappages_def
  by (auto simp: mappages_from.simps [of pt a] bindo_Ret_iff dest!: walk_Ret_less split: if_splits)

function uvmalloc_from ::
  "u64 \<Rightarrow> u64 \<Rightarrow> u64 \<Rightarrow> u64 \<Rightarrow> u64 \<Rightarrow> 'a mach_scheme \<Rightarrow> (u64, 'a mach_scheme) outcome" where
  "uvmalloc_from pagetable a oldsz newsz xperm s =
     (if a < newsz
      then bindo (kalloc s) (\<lambda>mem s.
        if mem = 0
        then bindo (uvmdealloc pagetable a oldsz s) (\<lambda>_ s. Ret 0 s)
        else bindo (mappages pagetable a PGSIZE mem (PTE_R OR PTE_U OR xperm) (zero_page mem s)) (\<lambda>r s.
          if r \<noteq> 0
          then bindo (kfree mem s) (\<lambda>_ s.
                 bindo (uvmdealloc pagetable a oldsz s) (\<lambda>_ s. Ret 0 s))
          else uvmalloc_from pagetable (a + PGSIZE) oldsz newsz xperm s))
      else Ret newsz s)"
  by pat_completeness auto
termination
  by (relation "measure (\<lambda>(pt, a, oldsz, newsz, xperm, s). unat MAXVA - unat a)")
    (auto simp only: in_measure wf_measure split_conv intro: next_page_measure dest: mappages_less)

declare uvmalloc_from.simps [simp del]

definition uvmalloc ::
  "u64 \<Rightarrow> u64 \<Rightarrow> u64 \<Rightarrow> u64 \<Rightarrow> 'a mach_scheme \<Rightarrow> (u64, 'a mach_scheme) outcome" where
  "uvmalloc pagetable oldsz newsz xperm s =
     (if newsz < oldsz then Ret oldsz s
      else let oldsz = PGROUNDUP oldsz in uvmalloc_from pagetable oldsz oldsz newsz xperm s)"

section \<open>Freeing and copying address spaces\<close>

text \<open>
  The depth argument bounds the recursion; a table built by \<open>walk\<close> has three
  levels, so \<open>uvmfree\<close> uses depth 3.
\<close>

primrec freewalk :: "nat \<Rightarrow> u64 \<Rightarrow> 'a mach_scheme \<Rightarrow> (unit, 'a mach_scheme) outcome" where
  "freewalk 0 pagetable s = NoFuel"
| "freewalk (Suc d) pagetable s =
     bindo (forM [0..<512] (\<lambda>i s.
         let pte = load64 (phys s) (slot pagetable (of_nat i)) in
         if pte AND PTE_V \<noteq> 0 \<and> pte AND (PTE_R OR PTE_W OR PTE_X) = 0
         then bindo (freewalk d (PTE2PA pte) s) (\<lambda>_ s.
                Ret () (put64 (slot pagetable (of_nat i)) 0 s))
         else Ret () s) s)
       (\<lambda>_ s. kfree pagetable s)"

definition uvmfree :: "u64 \<Rightarrow> u64 \<Rightarrow> 'a mach_scheme \<Rightarrow> (unit, 'a mach_scheme) outcome" where
  "uvmfree pagetable sz s =
     bindo (if sz > 0 then uvmunmap pagetable 0 (PGROUNDUP sz div PGSIZE) True s else Ret () s)
       (\<lambda>_ s. freewalk 3 pagetable s)"

function uvmcopy_from :: "u64 \<Rightarrow> u64 \<Rightarrow> u64 \<Rightarrow> u64 \<Rightarrow> 'a mach_scheme \<Rightarrow> (int, 'a mach_scheme) outcome" where
  "uvmcopy_from old new i sz s =
     (if i < sz
      then bindo (walk old i False s) (\<lambda>pte s.
        if pte = 0 \<or> load64 (phys s) pte AND PTE_V = 0
        then uvmcopy_from old new (i + PGSIZE) sz s
        else let v = load64 (phys s) pte; pa = PTE2PA v; flags = PTE_FLAGS v in
          bindo (kalloc s) (\<lambda>mem s.
            if mem = 0
            then bindo (uvmunmap new 0 (i div PGSIZE) True s) (\<lambda>_ s. Ret (-1) s)
            else bindo (mappages new i PGSIZE mem flags
                          (s\<lparr>phys := memmove (phys s) mem pa 4096\<rparr>)) (\<lambda>r s.
              if r \<noteq> 0
              then bindo (kfree mem s) (\<lambda>_ s.
                     bindo (uvmunmap new 0 (i div PGSIZE) True s) (\<lambda>_ s. Ret (-1) s))
              else uvmcopy_from old new (i + PGSIZE) sz s)))
      else Ret 0 s)"
  by pat_completeness auto
termination
  by (relation "measure (\<lambda>(old, new, i, sz, s). unat MAXVA - unat i)")
    (auto simp only: in_measure wf_measure split_conv intro: next_page_measure dest: walk_Ret_less)

declare uvmcopy_from.simps [simp del]

definition uvmcopy :: "u64 \<Rightarrow> u64 \<Rightarrow> u64 \<Rightarrow> 'a mach_scheme \<Rightarrow> (int, 'a mach_scheme) outcome" where
  "uvmcopy old new sz s = uvmcopy_from old new 0 sz s"

definition uvmclear :: "u64 \<Rightarrow> u64 \<Rightarrow> 'a mach_scheme \<Rightarrow> (unit, 'a mach_scheme) outcome" where
  "uvmclear pagetable va s =
     bindo (walk pagetable va False s) (\<lambda>pte s.
       if pte = 0 then Panic ''uvmclear''
       else Ret () (put64 pte (load64 (phys s) pte AND NOT PTE_U) s))"

definition ismapped :: "u64 \<Rightarrow> u64 \<Rightarrow> 'a mach_scheme \<Rightarrow> (bool, 'a mach_scheme) outcome" where
  "ismapped pagetable va s =
     bindo (walk pagetable va False s) (\<lambda>pte s.
       if pte = 0 then Ret False s
       else if load64 (phys s) pte AND PTE_V \<noteq> 0 then Ret True s
       else Ret False s)"

end
