(* ===== verification/Vm_Table.thy ===== *)
theory Vm_Table
  imports Vm
begin

text \<open>
  The abstract view of a page table in memory. \<open>pt_inv s root T\<close> says that the
  table rooted at \<open>root\<close> is the tree of table pages \<open>T\<close>, a map from index paths
  to physical pages; \<open>leaf_val s T va\<close> is the leaf entry for \<open>va\<close> (0 where the
  path is missing). The lemmas show that \<open>walk\<close> finds and extends this tree
  without disturbing any other mapping, and that \<open>mappages\<close> and \<open>uvmunmap\<close>
  change exactly one leaf.
\<close>

unbundle bit_operations_syntax

section \<open>The tree of table pages\<close>

type_synonym pt_tree = "u64 list \<rightharpoonup> u64"

definition pt_inv :: "'a mach_scheme \<Rightarrow> u64 \<Rightarrow> pt_tree \<Rightarrow> bool" where
  "pt_inv s root T \<longleftrightarrow>
     T [] = Some root \<and>
     (\<forall>p q. T p = Some q \<longrightarrow> page_ok s q) \<and>
     inj_on T (dom T) \<and>
     (\<forall>p i. T (p @ [i]) \<noteq> None \<longrightarrow> T p \<noteq> None \<and> length p < 2 \<and> unat i < 512) \<and>
     (\<forall>p q i. T p = Some q \<longrightarrow> length p < 2 \<longrightarrow> unat i < 512 \<longrightarrow>
        T (p @ [i]) = (let v = load64 (phys s) (slot q i) in
                       if v AND PTE_V \<noteq> 0 then Some (PTE2PA v) else None)) \<and>
     (\<forall>p q i. T p = Some q \<longrightarrow> length p < 2 \<longrightarrow> unat i < 512 \<longrightarrow>
        load64 (phys s) (slot q i) AND PTE_V \<noteq> 0 \<longrightarrow>
        load64 (phys s) (slot q i) AND (PTE_R OR PTE_W OR PTE_X) = 0)"

definition leaf_path :: "u64 \<Rightarrow> u64 list" where
  "leaf_path va = [PX 2 va, PX 1 va]"

definition leaf_addr :: "pt_tree \<Rightarrow> u64 \<Rightarrow> u64" where
  "leaf_addr T va = (case T (leaf_path va) of None \<Rightarrow> 0 | Some q \<Rightarrow> slot q (PX 0 va))"

definition leaf_val :: "'a mach_scheme \<Rightarrow> pt_tree \<Rightarrow> u64 \<Rightarrow> u64" where
  "leaf_val s T va =
     (case T (leaf_path va) of None \<Rightarrow> 0 | Some q \<Rightarrow> load64 (phys s) (slot q (PX 0 va)))"

text \<open>The table pages and the free pages are disjoint.\<close>

definition vm_inv :: "'a mach_scheme \<Rightarrow> u64 \<Rightarrow> pt_tree \<Rightarrow> u64 list \<Rightarrow> bool" where
  "vm_inv s root T ps \<longleftrightarrow> pt_inv s root T \<and> kmem_inv s ps \<and> set ps \<inter> ran T = {}"

lemma PX_bound [simp]: "unat (PX l va) < 512"
proof -
  have m: "(0x1FF :: u64) = mask 9" by (simp add: mask_eq_exp_minus_1)
  have "unat (PX l va) = take_bit 9 (unat (drop_bit (12 + 9 * l) va))"
    unfolding PX_def m take_bit_eq_mask [symmetric] by (simp add: unsigned_take_bit_eq)
  then show ?thesis
    using take_bit_nat_less_exp [of 9] by simp
qed

text \<open>The three indices and the alignment determine an address below MAXVA.\<close>

lemma PX_inj:
  assumes "aligned a" "aligned b" "a < MAXVA" "b < MAXVA"
    and "leaf_path a = leaf_path b" "PX 0 a = PX 0 b"
  shows "a = b"
proof (rule bit_word_eqI)
  fix n :: nat
  assume "n < LENGTH(64)"
  have m: "(0x1FF :: u64) = mask 9" by (simp add: mask_eq_exp_minus_1)
  have px: "bit (PX l x) k = bit x (12 + 9 * l + k)" if "k < 9" for l x k
    unfolding PX_def m using that by (auto simp: bit_simps)
  have eqs: "PX l a = PX l b" if "l < 3" for l
    using assms(5,6) that unfolding leaf_path_def by (auto simp: less_Suc_eq numeral_3_eq_3 numeral_2_eq_2)
  consider "n < 12" | l k where "l < 3" "k < 9" "n = 12 + 9 * l + k" | "39 \<le> n"
  proof -
    have "n = 12 + 9 * ((n - 12) div 9) + (n - 12) mod 9" if "12 \<le> n" using that by simp
    moreover have "(n - 12) div 9 < 3" if "n < 39" using that by simp
    ultimately show thesis using that by (metis not_le mod_less_divisor zero_less_numeral)
  qed
  then show "bit a n = bit b n"
  proof cases
    case 1
    then show ?thesis
      using assms(1,2) not_bit_low [of a 12 n] not_bit_low [of b 12 n] by (simp add: aligned_unat)
  next
    case (2 l k)
    then show ?thesis using px eqs by metis
  next
    case 3
    then show ?thesis
      using assms(3,4) not_bit_high [of a 38 n] not_bit_high [of b 38 n]
      by (simp add: word_less_nat_alt)
  qed
qed

lemma vm_invD:
  assumes "vm_inv s root T ps"
  shows "pt_inv s root T" "kmem_inv s ps" "set ps \<inter> ran T = {}" "0 < kend s"
  using assms by (simp_all add: vm_inv_def kmem_inv_def)

lemma pt_root: "pt_inv s root T \<Longrightarrow> T [] = Some root"
  by (simp add: pt_inv_def)

lemma pt_page: "pt_inv s root T \<Longrightarrow> T p = Some q \<Longrightarrow> page_ok s q"
  by (auto simp: pt_inv_def)

lemma pt_inj: "pt_inv s root T \<Longrightarrow> T p = Some q \<Longrightarrow> T p' = Some q \<Longrightarrow> p = p'"
  unfolding pt_inv_def inj_on_def by (metis domI)

lemma pt_child:
  "pt_inv s root T \<Longrightarrow> T p = Some q \<Longrightarrow> length p < 2 \<Longrightarrow> unat i < 512 \<Longrightarrow>
   T (p @ [i]) = (if load64 (phys s) (slot q i) AND PTE_V \<noteq> 0
                  then Some (PTE2PA (load64 (phys s) (slot q i))) else None)"
  unfolding pt_inv_def Let_def by blast

lemma pt_interior:
  "pt_inv s root T \<Longrightarrow> T p = Some q \<Longrightarrow> length p < 2 \<Longrightarrow> unat i < 512 \<Longrightarrow>
   load64 (phys s) (slot q i) AND PTE_V \<noteq> 0 \<Longrightarrow>
   load64 (phys s) (slot q i) AND (PTE_R OR PTE_W OR PTE_X) = 0"
  unfolding pt_inv_def by blast

lemma pt_prefix: "pt_inv s root T \<Longrightarrow> T (p @ [i]) = Some q \<Longrightarrow> T p \<noteq> None \<and> length p < 2 \<and> unat i < 512"
  unfolding pt_inv_def by blast

lemma pt_length: "pt_inv s root T \<Longrightarrow> T p = Some q \<Longrightarrow> length p \<le> 2"
  by (cases p rule: rev_cases) (auto dest: pt_prefix)

text \<open>Without allocation, \<open>walk\<close> returns the address of the leaf entry and changes nothing.\<close>

lemma walk_lookup:
  assumes "pt_inv s root T" and "va < MAXVA"
  shows "walk root va False s = Ret (leaf_addr T va) s"
proof -
  have 0: "T [] = Some root" using assms(1) by (rule pt_root)
  have 1: "T [PX 2 va] = (if load64 (phys s) (slot root (PX 2 va)) AND PTE_V \<noteq> 0
      then Some (PTE2PA (load64 (phys s) (slot root (PX 2 va)))) else None)"
    using pt_child [OF assms(1) 0, of "PX 2 va"] by simp
  show ?thesis
  proof (cases "T [PX 2 va]")
    case None
    then have "T (leaf_path va) = None"
      using pt_prefix [OF assms(1), of "[PX 2 va]" "PX 1 va"] unfolding leaf_path_def
      by (cases "T [PX 2 va, PX 1 va]") auto
    with None 1 assms(2) show ?thesis
      by (simp add: walk_def leaf_addr_def numeral_2_eq_2 split: if_splits)
  next
    case (Some q)
    have 2: "T (leaf_path va) = (if load64 (phys s) (slot q (PX 1 va)) AND PTE_V \<noteq> 0
        then Some (PTE2PA (load64 (phys s) (slot q (PX 1 va)))) else None)"
      using pt_child [OF assms(1) Some, of "PX 1 va"] by (simp add: leaf_path_def)
    have "PTE2PA (load64 (phys s) (slot root (PX 2 va))) = q"
        "load64 (phys s) (slot root (PX 2 va)) AND PTE_V \<noteq> 0"
      using Some 1 by (auto split: if_splits)
    with 2 assms(2) show ?thesis
      by (simp add: walk_def leaf_addr_def numeral_2_eq_2 not_le [symmetric])
  qed
qed

lemma leaf_addr_nonzero:
  assumes "pt_inv s root T" "0 < kend s" "T (leaf_path va) = Some q"
  shows "slot q (PX 0 va) \<noteq> 0"
proof
  assume z: "slot q (PX 0 va) = 0"
  have ok: "page_ok s q" using pt_page [OF assms(1,3)] .
  then have "unat (slot q (PX 0 va)) = unat q + 8 * unat (PX 0 va)"
    by (intro unat_slot) (simp_all add: page_ok_aligned)
  with z have "unat q = 0" by simp
  then show False using page_ok_nonzero [OF ok assms(2)] by (simp add: unat_eq_zero)
qed

lemma leaf_addr_eq_0:
  "pt_inv s root T \<Longrightarrow> 0 < kend s \<Longrightarrow> leaf_addr T va = 0 \<longleftrightarrow> T (leaf_path va) = None"
  using leaf_addr_nonzero [of s root T va] by (auto simp: leaf_addr_def split: option.splits)

lemma load_leaf_addr: "leaf_addr T va \<noteq> 0 \<Longrightarrow> load64 (phys s) (leaf_addr T va) = leaf_val s T va"
  by (auto simp: leaf_addr_def leaf_val_def split: option.splits)

lemma leaf_val_absent: "pt_inv s root T \<Longrightarrow> 0 < kend s \<Longrightarrow> leaf_addr T va = 0 \<Longrightarrow> leaf_val s T va = 0"
  using leaf_addr_eq_0 [of s root T va] by (auto simp: leaf_val_def)

text \<open>\<open>walkaddr\<close> returns the mapped physical page of a valid user leaf, and 0 otherwise.\<close>

definition user_pa :: "u64 \<Rightarrow> u64" where
  "user_pa v = (if v AND PTE_V = 0 then 0 else if v AND PTE_U = 0 then 0 else PTE2PA v)"

lemma walkaddr_lookup:
  assumes "pt_inv s root T" "0 < kend s"
  shows "walkaddr root va s = Ret (if va < MAXVA then user_pa (leaf_val s T va) else 0) s"
proof (cases "va < MAXVA")
  case True
  then have w: "walk root va False s = Ret (leaf_addr T va) s"
    by (rule walk_lookup [OF assms(1)])
  show ?thesis
  proof (cases "leaf_addr T va = 0")
    case z: True
    with leaf_val_absent [OF assms z] True w show ?thesis
      by (simp add: walkaddr_def user_pa_def not_le)
  next
    case False
    with load_leaf_addr [OF False, of s] True w show ?thesis
      by (simp add: walkaddr_def user_pa_def Let_def not_le [symmetric])
  qed
next
  case False
  then show ?thesis by (simp add: walkaddr_def not_le [symmetric])
qed

section \<open>Extending the tree\<close>

lemma PTE_V_nonzero [simp]: "PTE_V \<noteq> 0"
  by (simp add: PTE_V_def)

lemma PTE_V_small: "unat PTE_V < 2 ^ 10"
  by (simp add: PTE_V_def)

lemma PTE_U_small: "unat PTE_U < 2 ^ 10"
  by (simp add: PTE_U_def)

lemma PTE_V_U: "PTE_V AND PTE_U = 0"
  by (simp add: PTE_V_def PTE_U_def)

lemma PTE2PA_node: "page_ok s n \<Longrightarrow> PTE2PA (PA2PTE n OR PTE_V) = n"
  by (rule PTE2PA_PA2PTE [OF page_ok_aligned page_ok_small PTE_V_small])

lemma node_not_leaf: "(PA2PTE n OR PTE_V) AND (PTE_R OR PTE_W OR PTE_X) = 0"
proof -
  have rwx: "PTE_R OR PTE_W OR PTE_X = (0xE :: u64)" by (simp add: PTE_R_def PTE_W_def PTE_X_def)
  show ?thesis unfolding rwx by (subst PTE_flag_test) (simp_all add: PTE_V_def)
qed

text \<open>The two stores that link a zeroed page \<open>n\<close> into entry \<open>i\<close> of table page \<open>q\<close>.\<close>

definition link_node :: "u64 \<Rightarrow> u64 \<Rightarrow> u64 \<Rightarrow> 'a mach_scheme \<Rightarrow> 'a mach_scheme" where
  "link_node q i n t = put64 (slot q i) (PA2PTE n OR PTE_V) (zero_page n t)"

lemma link_node_ext: "mach_ext s t \<Longrightarrow> mach_ext s (link_node q i n t)"
  unfolding link_node_def put64_def zero_page_def by (elim mach_ext_trans) (simp add: mach_ext_trans [OF mach_ext_phys mach_ext_phys])

lemma link_node_freelist [simp]: "freelist (link_node q i n t) = freelist t"
  by (simp add: link_node_def put64_def zero_page_def)

lemma link_node_outside:
  assumes "aligned q" "unat i < 512" "\<not> in_page q x" "\<not> in_page n x"
  shows "phys (link_node q i n t) x = phys t x"
  using assms by (simp add: link_node_def put64_def zero_page_def store64_outside_page memset_page)

lemma link_node_load_new:
  assumes "aligned q" "aligned n" "q \<noteq> n" "unat i < 512" "unat j < 512"
  shows "load64 (phys (link_node q i n t)) (slot n j) = 0"
  using assms by (simp add: link_node_def put64_def zero_page_def)

lemma link_node_load_old:
  assumes "aligned q" "aligned q'" "aligned n" "q' \<noteq> n" "unat i < 512" "unat j < 512"
    and "\<And>x. \<not> in_page n x \<Longrightarrow> phys t x = phys s x"
  shows "load64 (phys (link_node q i n t)) (slot q' j) =
    (if q' = q \<and> j = i then PA2PTE n OR PTE_V else load64 (phys s) (slot q' j))"
proof -
  have "load64 (memset (phys t) n 0 4096) (slot q' j) = load64 (phys s) (slot q' j)"
  proof (rule load64_slot_cong [OF assms(2,6)])
    fix x
    assume "in_page q' x"
    then have "\<not> in_page n x" using in_page_disjoint assms by blast
    then show "memset (phys t) n 0 4096 x = phys s x" using assms(7) by (simp add: memset_page)
  qed
  then show ?thesis
    using assms by (auto simp: link_node_def put64_def zero_page_def)
qed

lemma pt_extend:
  assumes inv: "pt_inv s root T" and q: "T p = Some q" "length p < 2" and i: "unat i < 512"
    and none: "T (p @ [i]) = None" and n: "page_ok s n" "n \<notin> ran T" and ext: "mach_ext s t"
    and mem: "\<And>x. \<not> in_page n x \<Longrightarrow> phys t x = phys s x"
  shows "pt_inv (link_node q i n t) root (T(p @ [i] \<mapsto> n))"
    and "leaf_val (link_node q i n t) (T(p @ [i] \<mapsto> n)) va = leaf_val s T va"
proof -
  let ?u = "link_node q i n t" and ?T = "T(p @ [i] \<mapsto> n)"
  have al: "aligned n" "aligned q"
    using n(1) pt_page [OF inv q(1)] by (simp_all add: page_ok_aligned)
  have ok: "page_ok ?u = page_ok s"
    using mach_ext_page_ok [OF link_node_ext [OF ext]] by (simp add: fun_eq_iff)
  have old: "load64 (phys ?u) (slot q' j) =
      (if q' = q \<and> j = i then PA2PTE n OR PTE_V else load64 (phys s) (slot q' j))"
    if "T p' = Some q'" "unat j < 512" for p' q' j
    using that pt_page [OF inv that(1)] n(2) i mem al
    by (intro link_node_load_old) (auto simp: page_ok_aligned ranI)
  have "q \<noteq> n" using n(2) q(1) by (auto simp: ranI)
  then have new: "load64 (phys ?u) (slot n j) = 0" if "unat j < 512" for j
    using link_node_load_new al i that by blast
  have below: "T (p @ [i] @ [j]) = None" for j
    using pt_prefix [OF inv, of "p @ [i]" j] none by (cases "T (p @ [i] @ [j])") auto
  show "pt_inv ?u root ?T"
    unfolding pt_inv_def
  proof (intro conjI allI impI)
    show "?T [] = Some root" using pt_root [OF inv] by simp
  next
    fix p' q'
    assume "?T p' = Some q'"
    then show "page_ok ?u q'"
      using n(1) pt_page [OF inv, of p' q'] by (auto simp: ok split: if_splits)
  next
    show "inj_on ?T (dom ?T)"
      using pt_inj [OF inv] n(2) by (intro inj_onI) (auto simp: ranI split: if_splits; metis ranI)
  next
    fix p' i'
    assume a: "?T (p' @ [i']) \<noteq> None"
    show "?T p' \<noteq> None" "length p' < 2" "unat i' < 512"
      using a q i pt_prefix [OF inv, of p' i'] by (auto split: if_splits)
  next
    fix p' q' and j :: u64
    assume p': "?T p' = Some q'" "length p' < 2" and j: "unat j < 512"
    show "?T (p' @ [j]) = (let v = load64 (phys ?u) (slot q' j) in
        if v AND PTE_V \<noteq> 0 then Some (PTE2PA v) else None)"
    proof (cases "p' = p @ [i]")
      case True
      with p' have "q' = n" by simp
      with True new [OF j] below [of j] show ?thesis by simp
    next
      case False
      with p' have Tp: "T p' = Some q'" by simp
      show ?thesis
      proof (cases "p' = p \<and> j = i")
        case True
        with Tp q(1) old [OF Tp j] PTE2PA_node [OF n(1)] show ?thesis by simp
      next
        case no: False
        then have "\<not> (q' = q \<and> j = i)" using pt_inj [OF inv Tp] q(1) by blast
        then have "load64 (phys ?u) (slot q' j) = load64 (phys s) (slot q' j)"
          using old [OF Tp j] by (simp only: if_False)
        moreover have "?T (p' @ [j]) = T (p' @ [j])" using no by auto
        ultimately show ?thesis using pt_child [OF inv Tp p'(2) j] by (simp only: Let_def)
      qed
    qed
  next
    fix p' q' and j :: u64
    assume p': "?T p' = Some q'" "length p' < 2" and j: "unat j < 512"
      and v: "load64 (phys ?u) (slot q' j) AND PTE_V \<noteq> 0"
    have "p' \<noteq> p @ [i]"
    proof
      assume "p' = p @ [i]"
      with p'(1) v new [OF j] show False by simp
    qed
    with p'(1) have Tp: "T p' = Some q'" by simp
    show "load64 (phys ?u) (slot q' j) AND (PTE_R OR PTE_W OR PTE_X) = 0"
    proof (cases "q' = q \<and> j = i")
      case True
      with old [OF Tp j] show ?thesis by (simp only: if_True node_not_leaf simp_thms)
    next
      case False
      with old [OF Tp j] have "load64 (phys ?u) (slot q' j) = load64 (phys s) (slot q' j)"
        by (simp only: if_False)
      with v pt_interior [OF inv Tp p'(2) j] show ?thesis by simp
    qed
  qed
  show "leaf_val ?u ?T va = leaf_val s T va"
  proof (cases "leaf_path va = p @ [i]")
    case True
    with none new [of "PX 0 va"] show ?thesis by (simp add: leaf_val_def)
  next
    case False
    have "q' \<noteq> q" if "T (leaf_path va) = Some q'" for q'
      using pt_inj [OF inv that, of p] q by (auto simp: leaf_path_def)
    with False old [of "leaf_path va"] show ?thesis
      by (auto simp: leaf_val_def split: option.splits)
  qed
qed

text \<open>
  \<open>pt_frame s T ps t T' qs\<close>: between \<open>s\<close> and \<open>t\<close> the tree only grew, by pages
  taken from the free pages \<open>ps\<close>, and no memory outside the table pages changed.
  \<open>pt_grow\<close>: moreover no leaf entry changed.
\<close>

definition pt_frame ::
  "'a mach_scheme \<Rightarrow> pt_tree \<Rightarrow> u64 list \<Rightarrow> 'a mach_scheme \<Rightarrow> pt_tree \<Rightarrow> u64 list \<Rightarrow> bool" where
  "pt_frame s T ps t T' qs \<longleftrightarrow>
     mach_ext s t \<and> T \<subseteq>\<^sub>m T' \<and> set qs \<subseteq> set ps \<and> set qs \<union> ran T' = set ps \<union> ran T \<and>
     (\<forall>x. (\<forall>p\<in>ran T'. \<not> in_page p x) \<longrightarrow> phys t x = phys s x)"

definition pt_grow ::
  "'a mach_scheme \<Rightarrow> pt_tree \<Rightarrow> u64 list \<Rightarrow> 'a mach_scheme \<Rightarrow> pt_tree \<Rightarrow> u64 list \<Rightarrow> bool" where
  "pt_grow s T ps t T' qs \<longleftrightarrow> pt_frame s T ps t T' qs \<and> leaf_val t T' = leaf_val s T"

lemma pt_frame_refl [simp]: "pt_frame s T ps s T ps"
  by (simp add: pt_frame_def)

lemma pt_grow_refl [simp]: "pt_grow s T ps s T ps"
  by (simp add: pt_grow_def)

lemma map_le_ran: "T \<subseteq>\<^sub>m T' \<Longrightarrow> ran T \<subseteq> ran T'"
  unfolding map_le_def ran_def by (auto simp: dom_def) metis

lemma pt_frame_trans:
  assumes "pt_frame s T ps t T' qs" "pt_frame t T' qs u T'' rs"
  shows "pt_frame s T ps u T'' rs"
  using assms map_le_ran [of T' T''] unfolding pt_frame_def
  by (auto intro: mach_ext_trans map_le_trans) (metis subsetD)

lemma pt_grow_trans:
  assumes "pt_grow s T ps t T' qs" "pt_grow t T' qs u T'' rs"
  shows "pt_grow s T ps u T'' rs"
  using assms unfolding pt_grow_def by (auto intro: pt_frame_trans)

lemma link_step:
  assumes inv: "vm_inv s root T ps" and q: "T p = Some q" "length p < 2" and i: "unat i < 512"
    and none: "T (p @ [i]) = None" and ps: "ps = n # rs"
    and t: "kmem_inv t rs" "mach_ext s t" "\<And>x. \<not> in_page n x \<Longrightarrow> phys t x = phys s x"
  shows "vm_inv (link_node q i n t) root (T(p @ [i] \<mapsto> n)) rs"
    and "pt_grow s T ps (link_node q i n t) (T(p @ [i] \<mapsto> n)) rs"
proof -
  let ?u = "link_node q i n t" and ?T = "T(p @ [i] \<mapsto> n)"
  note pt = vm_invD(1) [OF inv] and km = vm_invD(2) [OF inv]
  have n: "page_ok s n" "n \<notin> ran T" "n \<notin> set rs" "\<And>r. r \<in> set rs \<Longrightarrow> page_ok s r"
    using km vm_invD(3) [OF inv] by (auto simp: ps kmem_inv_def)
  have al: "aligned q" "aligned n" using pt_page [OF pt q(1)] n(1) by (simp_all add: page_ok_aligned)
  have ran: "ran ?T = insert n (ran T)" using none by (rule ran_map_upd)
  have out: "phys ?u x = phys s x" if "\<not> in_page q x" "\<not> in_page n x" for x
    using link_node_outside [OF al(1) i that, of t] t(3) [OF that(2)] by simp
  have "kmem_inv ?u rs"
  proof (rule kmem_inv_cong [OF t(1)])
    show "mach_ext t ?u" by (rule link_node_ext) simp
    fix r x
    assume r: "r \<in> set rs" "in_page r x"
    have "r \<noteq> q" "r \<noteq> n" "aligned r"
      using r(1) n(3,4) vm_invD(3) [OF inv] q(1) by (auto simp: ps ranI dest: page_ok_aligned)
    then have "\<not> in_page q x" "\<not> in_page n x" using in_page_disjoint r(2) al by blast+
    then show "phys ?u x = phys t x" using link_node_outside [OF al(1) i, of x n t] by simp
  qed simp
  moreover have "set rs \<inter> ran ?T = {}" using n(3) vm_invD(3) [OF inv] by (auto simp: ran ps)
  ultimately show "vm_inv ?u root ?T rs"
    using pt_extend(1) [OF pt q i none n(1,2) t(2,3)] by (simp add: vm_inv_def)
  have "T \<subseteq>\<^sub>m ?T" using none by (auto simp: map_le_def)
  moreover have "leaf_val ?u ?T = leaf_val s T"
    using pt_extend(2) [OF pt q i none n(1,2) t(2,3)] by (simp add: fun_eq_iff)
  ultimately show "pt_grow s T ps ?u ?T rs"
    using link_node_ext [OF t(2)] out q(1) by (auto simp: pt_grow_def pt_frame_def ran ps ranI)
qed

lemma walk_level_alloc:
  assumes "vm_inv s root T ps" "T p = Some q" "l \<le> 2" "p @ map (\<lambda>k. PX k va) (rev [1..<Suc l]) = leaf_path va"
  shows "\<exists>r t T' qs. walk_level l q va True s = Ret r t \<and> vm_inv t root T' qs \<and> pt_grow s T ps t T' qs \<and>
    r = leaf_addr T' va \<and> (r = 0 \<longrightarrow> qs = [])"
  using assms
proof (induction l arbitrary: s T ps p q)
  case 0
  then have "slot q (PX 0 va) = leaf_addr T va" "slot q (PX 0 va) \<noteq> 0"
    using leaf_addr_nonzero [OF vm_invD(1,4) [OF 0(1)]] by (simp_all add: leaf_addr_def)
  with 0 show ?case by (intro exI [of _ T] exI [of _ ps] exI) auto
next
  case (Suc l)
  let ?i = "PX (Suc l) va"
  note pt = vm_invD(1) [OF Suc.prems(1)]
  have len: "length p + Suc l = 2" using arg_cong [OF Suc.prems(4), of length] by (simp add: leaf_path_def del: upt_Suc)
  have path: "(p @ [?i]) @ map (\<lambda>k. PX k va) (rev [1..<Suc l]) = leaf_path va"
    using Suc.prems(4) by simp
  have child: "T (p @ [?i]) = (if load64 (phys s) (slot q ?i) AND PTE_V \<noteq> 0
      then Some (PTE2PA (load64 (phys s) (slot q ?i))) else None)"
    using pt_child [OF pt Suc.prems(2), of ?i] len by simp
  show ?case
  proof (cases "T (p @ [?i])")
    case (Some q')
    with child have "load64 (phys s) (slot q ?i) AND PTE_V \<noteq> 0" "PTE2PA (load64 (phys s) (slot q ?i)) = q'"
      by (auto split: if_splits)
    then have "walk_level (Suc l) q va True s = walk_level l q' va True s" by simp
    with Suc.IH [OF Suc.prems(1) Some _ path] Suc.prems(3) show ?thesis by simp
  next
    case None
    with child have nv: "load64 (phys s) (slot q ?i) AND PTE_V = 0" by (auto split: if_splits)
    from vm_invD(2) [OF Suc.prems(1)] show ?thesis
    proof (cases rule: kp.alloc_cases)
      case empty
      have "T (leaf_path va) = None"
        using None path Suc.prems(3) len pt_prefix [OF pt, of "p @ [?i]" "PX 1 va"]
        by (cases l; cases "T (leaf_path va)") (auto simp: leaf_path_def)
      with empty nv Suc.prems(1) show ?thesis
        by (intro exI [of _ 0] exI [of _ s] exI [of _ T] exI [of _ ps]) (simp add: leaf_addr_def)
    next
      case (page n rs t)
      let ?u = "link_node q ?i n t" and ?T = "T(p @ [?i] \<mapsto> n)"
      have u: "vm_inv ?u root ?T rs" "pt_grow s T ps ?u ?T rs"
        using link_step [OF Suc.prems(1,2) _ _ None page(1,3,4,9)] len by simp_all
      have "walk_level (Suc l) q va True s = walk_level l n va True ?u"
        using nv page by (simp add: link_node_def)
      moreover obtain r v T' qs where v: "walk_level l n va True ?u = Ret r v" "vm_inv v root T' qs"
          "pt_grow ?u ?T rs v T' qs" "r = leaf_addr T' va" "r = 0 \<longrightarrow> qs = []"
        using Suc.IH [OF u(1) fun_upd_same Suc_leD [OF Suc.prems(3)] path] by blast
      ultimately show ?thesis using pt_grow_trans [OF u(2) v(3)] by metis
    qed
  qed
qed

text \<open>
  With allocation, \<open>walk\<close> returns the address of the leaf entry in a tree that
  only grew by free pages, or 0 once no page is free. No mapping changes.
\<close>

lemma walk_alloc:
  assumes "vm_inv s root T ps" "va < MAXVA"
  shows "\<exists>r t T' qs. walk root va True s = Ret r t \<and> vm_inv t root T' qs \<and> pt_grow s T ps t T' qs \<and>
    r = leaf_addr T' va \<and> (r = 0 \<longrightarrow> qs = [])"
  using walk_level_alloc [OF assms(1) pt_root [OF vm_invD(1) [OF assms(1)]], of 2 va] assms(2)
  by (simp add: walk_def not_le [symmetric] leaf_path_def numeral_2_eq_2 upt_rec)

section \<open>Changing one leaf\<close>

definition valid :: "u64 \<Rightarrow> bool" where
  "valid v \<longleftrightarrow> v AND PTE_V \<noteq> 0"

lemma valid_0 [simp]: "\<not> valid 0"
  by (simp add: valid_def)

lemma valid_PTE [simp]: "valid (x OR PTE_V)" "valid (x OR y OR PTE_V)"
  by (simp_all add: valid_def bit.conj_disj_distrib2 or.assoc)

lemma put_leaf:
  fixes v :: u64
  assumes inv: "vm_inv s root T ps" and q: "T (leaf_path va) = Some q"
  defines "t \<equiv> put64 (leaf_addr T va) v s"
  shows "vm_inv t root T ps" "pt_frame s T ps t T ps"
    "leaf_val t T b = (if leaf_path b = leaf_path va \<and> PX 0 b = PX 0 va then v else leaf_val s T b)"
proof -
  note pt = vm_invD(1) [OF inv]
  have addr: "leaf_addr T va = slot q (PX 0 va)" using q by (simp add: leaf_addr_def)
  have al: "aligned q" using pt_page [OF pt q] by (rule page_ok_aligned)
  have ext: "mach_ext s t" by (simp add: t_def put64_def)
  have out: "phys t x = phys s x" if "\<not> in_page q x" for x
    using that al by (simp add: t_def put64_def addr store64_outside_page)
  have load: "load64 (phys t) (slot q' j) =
      (if q' = q \<and> j = PX 0 va then v else load64 (phys s) (slot q' j))"
    if "T p' = Some q'" "unat j < 512" for p' q' and j :: u64
    using that al page_ok_aligned [OF pt_page [OF pt that(1)]] by (simp add: t_def put64_def addr)
  have leafq: "p' = leaf_path va" if "T p' = Some q" for p' using pt_inj [OF pt that q] .
  have "pt_inv t root T"
    unfolding pt_inv_def
  proof (intro conjI allI impI)
    fix p' q' and j :: u64
    assume a: "T p' = Some q'" "length p' < 2" "unat j < 512"
    then have "q' \<noteq> q" using leafq [of p'] by (auto simp: leaf_path_def)
    then show "T (p' @ [j]) = (let v = load64 (phys t) (slot q' j) in
        if v AND PTE_V \<noteq> 0 then Some (PTE2PA v) else None)"
      using load [OF a(1,3)] pt_child [OF pt a] by simp
    show "load64 (phys t) (slot q' j) AND PTE_V \<noteq> 0 \<Longrightarrow> load64 (phys t) (slot q' j) AND (PTE_R OR PTE_W OR PTE_X) = 0"
      using \<open>q' \<noteq> q\<close> load [OF a(1,3)] pt_interior [OF pt a] by simp
  qed (use pt in \<open>auto simp: pt_inv_def mach_ext_page_ok [OF ext]\<close>)
  moreover have "kmem_inv t ps"
  proof (rule kmem_inv_cong [OF vm_invD(2) [OF inv] ext])
    fix r x
    assume r: "r \<in> set ps" "in_page r x"
    then have "r \<noteq> q" "aligned r"
      using q vm_invD(2,3) [OF inv] by (auto simp: ranI kmem_inv_def page_ok_def)
    then show "phys t x = phys s x" using in_page_disjoint r(2) al out by blast
  qed (simp add: t_def put64_def)
  ultimately show "vm_inv t root T ps" using inv by (simp add: vm_inv_def)
  show "pt_frame s T ps t T ps" using ext out q by (auto simp: pt_frame_def ranI)
  show "leaf_val t T b = (if leaf_path b = leaf_path va \<and> PX 0 b = PX 0 va then v else leaf_val s T b)"
  proof (cases "T (leaf_path b)")
    case None
    then show ?thesis using q by (auto simp: leaf_val_def)
  next
    case (Some q')
    have "q' = q \<longleftrightarrow> leaf_path b = leaf_path va" using Some q leafq [of "leaf_path b"] by auto
    then show ?thesis using Some load [OF Some, of "PX 0 b"] by (simp add: leaf_val_def)
  qed
qed

text \<open>The page-aligned user addresses, one per leaf entry.\<close>

definition va_ok :: "u64 \<Rightarrow> bool" where
  "va_ok a \<longleftrightarrow> aligned a \<and> a < MAXVA"

lemma va_ok_same: "va_ok a \<Longrightarrow> va_ok b \<Longrightarrow> leaf_path a = leaf_path b \<and> PX 0 a = PX 0 b \<longleftrightarrow> a = b"
  unfolding va_ok_def using PX_inj [of a b] by auto

lemma put_leaf_val:
  assumes "vm_inv s root T ps" "T (leaf_path a) = Some q" "va_ok a" "va_ok b"
  shows "leaf_val (put64 (leaf_addr T a) v s) T b = (if b = a then v else leaf_val s T b)"
  using put_leaf(3) [OF assms(1,2), of v b] va_ok_same [OF assms(4,3)] by simp

lemma va_ok_next: "va_ok a \<Longrightarrow> aligned (a + PGSIZE) \<and> unat (a + PGSIZE) = unat a + 4096"
  unfolding va_ok_def using unat_next_page [of a] by (simp add: aligned_unat del: PGSIZE_def)

lemma va_ok_le_next:
  assumes "va_ok a" "va_ok b"
  shows "a \<le> b \<longleftrightarrow> b = a \<or> a + PGSIZE \<le> b" "\<not> a + PGSIZE \<le> a"
proof -
  have n: "unat (a + PGSIZE) = unat a + 4096" using va_ok_next [OF assms(1)] by simp
  then show "\<not> a + PGSIZE \<le> a" unfolding word_le_nat_alt by simp
  obtain i j where ij: "unat a = 4096 * i" "unat b = 4096 * j"
    using assms by (auto simp: va_ok_def aligned_unat elim!: dvdE)
  have "b = a \<longleftrightarrow> i = j" using ij by (metis mult_cancel1 word_unat_eq_iff zero_neq_numeral)
  then show "a \<le> b \<longleftrightarrow> b = a \<or> a + PGSIZE \<le> b" unfolding word_le_nat_alt n using ij by auto
qed

text \<open>
  \<open>mapped_range a m pa perm b old\<close>: the leaf entry of \<open>b\<close> after the \<open>m\<close> pages from
  \<open>a\<close> have been mapped to the pages from \<open>pa\<close>, where it was \<open>old\<close> before.
\<close>

definition mapped_range :: "u64 \<Rightarrow> nat \<Rightarrow> u64 \<Rightarrow> u64 \<Rightarrow> u64 \<Rightarrow> u64 \<Rightarrow> u64" where
  "mapped_range a m pa perm b old =
     (if a \<le> b \<and> unat b < unat a + 4096 * m then PA2PTE (pa + (b - a)) OR perm OR PTE_V else old)"

lemma mapped_range_0 [simp]: "mapped_range a 0 pa perm b old = old"
  by (auto simp: mapped_range_def word_le_nat_alt)

lemma mapped_range_Suc:
  assumes "va_ok a" "va_ok b"
  shows "mapped_range (a + PGSIZE) m (pa + PGSIZE) perm b (if b = a then PA2PTE pa OR perm OR PTE_V else old) =
    mapped_range a (Suc m) pa perm b old"
proof -
  have n: "unat (a + PGSIZE) = unat a + 4096" using va_ok_next [OF assms(1)] by simp
  show ?thesis
    using va_ok_le_next [OF assms] n by (auto simp: mapped_range_def simp del: PGSIZE_def)
qed

lemma unat_neqI: "unat (b :: u64) = unat a + n \<Longrightarrow> 0 < n \<Longrightarrow> a \<noteq> b"
  by auto

lemma mappages_step:
  assumes inv: "vm_inv s root T ps" and a: "va_ok a"
  obtains (map) t T' qs where "vm_inv t root T' qs" "pt_frame s T ps t T' qs"
      "\<And>b. va_ok b \<Longrightarrow> leaf_val t T' b = (if b = a then PA2PTE pa OR perm OR PTE_V else leaf_val s T b)"
      "\<And>e. mappages_from root a e pa perm s =
        (if a = e then Ret 0 t else mappages_from root (a + PGSIZE) e (pa + PGSIZE) perm t)"
      "\<not> valid (leaf_val s T a)"
  | (fail) t T' qs where "vm_inv t root T' qs" "pt_grow s T ps t T' qs"
      "\<And>e. mappages_from root a e pa perm s = Ret (-1) t" "qs = [] \<or> valid (leaf_val s T a)"
proof -
  obtain r t T' qs where w: "walk root a True s = Ret r t" and t: "vm_inv t root T' qs"
      "pt_grow s T ps t T' qs" "r = leaf_addr T' a" "r = 0 \<longrightarrow> qs = []"
    using walk_alloc [OF inv] a unfolding va_ok_def by blast
  have step: "mappages_from root a e pa perm s =
    (if r = 0 \<or> load64 (phys t) r AND PTE_V \<noteq> 0 then Ret (-1) t
     else if a = e then Ret 0 (put64 r (PA2PTE pa OR perm OR PTE_V) t)
     else mappages_from root (a + PGSIZE) e (pa + PGSIZE) perm (put64 r (PA2PTE pa OR perm OR PTE_V) t))" for e
    by (simp add: mappages_from.simps [of root a] w Let_def)
  have lv: "leaf_val t T' = leaf_val s T" and fr: "pt_frame s T ps t T' qs"
    using t(2) by (simp_all add: pt_grow_def)
  show thesis
  proof (cases "r = 0 \<or> load64 (phys t) r AND PTE_V \<noteq> 0")
    case True
    then have "qs = [] \<or> valid (leaf_val s T a)"
      using t(3,4) load_leaf_addr [of T' a t] by (auto simp: lv valid_def)
    with True step fail [OF t(1,2)] show thesis by simp
  next
    case False
    then obtain q where q: "T' (leaf_path a) = Some q"
      using t(3) by (auto simp: leaf_addr_def split: option.splits)
    note p = put_leaf [OF t(1) q, of "PA2PTE pa OR perm OR PTE_V", folded t(3)]
    show thesis
    proof (rule map [OF p(1) pt_frame_trans [OF fr p(2)]])
      show "leaf_val (put64 r (PA2PTE pa OR perm OR PTE_V) t) T' b =
          (if b = a then PA2PTE pa OR perm OR PTE_V else leaf_val s T b)" if "va_ok b" for b
        using put_leaf_val [OF t(1) q a that] by (simp add: t(3) lv)
      show "\<not> valid (leaf_val s T a)"
        using False load_leaf_addr [of T' a t] by (simp add: t(3) lv valid_def)
    qed (use step False in simp)
  qed
qed

lemma mappages_from_spec:
  assumes "vm_inv s root T ps" "aligned a" "unat a + 4096 * Suc k \<le> unat MAXVA"
  shows "\<exists>r t T' qs m. mappages_from root a (a + of_nat k * PGSIZE) pa perm s = Ret r t \<and>
    vm_inv t root T' qs \<and> pt_frame s T ps t T' qs \<and>
    (\<forall>b. va_ok b \<longrightarrow> leaf_val t T' b = mapped_range a m pa perm b (leaf_val s T b)) \<and>
    (r = 0 \<and> m = Suc k \<or>
     r = -1 \<and> m \<le> k \<and> (qs = [] \<or> valid (leaf_val s T (a + of_nat m * PGSIZE))))"
  using assms
proof (induction k arbitrary: a pa s T ps)
  case 0
  have a: "va_ok a" using 0(2,3) by (simp add: va_ok_def word_less_nat_alt)
  from 0(1) a show ?case
  proof (cases rule: mappages_step [where pa = pa and perm = perm])
    case (map t T' qs)
    have "leaf_val t T' b = mapped_range a 1 pa perm b (leaf_val s T b)" if "va_ok b" for b
      using mapped_range_Suc [OF a that, of 0 pa perm "leaf_val s T b"] map(3) [OF that] by simp
    with map show ?thesis by (intro exI [of _ 0] exI [of _ t] exI [of _ T'] exI [of _ qs] exI [of _ 1]) simp
  next
    case (fail t T' qs)
    then show ?thesis
      by (intro exI [of _ "-1"] exI [of _ t] exI [of _ T'] exI [of _ qs] exI [of _ 0]) (simp add: pt_grow_def)
  qed
next
  case (Suc k)
  have a: "va_ok a" using Suc.prems(2,3) by (simp add: va_ok_def word_less_nat_alt)
  note n = va_ok_next [OF a]
  let ?e = "a + of_nat (Suc k) * PGSIZE"
  have e: "?e = a + PGSIZE + of_nat k * PGSIZE" by (simp add: algebra_simps)
  from Suc.prems(1) a show ?case
  proof (cases rule: mappages_step [where pa = pa and perm = perm])
    case (map t T' qs)
    have "unat ?e = unat a + 4096 * Suc k"
      using Suc.prems(3) unat_add_nat_u64 [of a "4096 * Suc k"] by (simp add: algebra_simps)
    then have "a \<noteq> ?e" by (rule unat_neqI) simp
    then have eq: "mappages_from root a ?e pa perm s = mappages_from root (a + PGSIZE) ?e (pa + PGSIZE) perm t"
      using map(4) [of ?e] by (simp only: if_False)
    have bd: "unat (a + PGSIZE) + 4096 * Suc k \<le> unat MAXVA"
      using Suc.prems(3) by (simp only: conjunct2 [OF n] mult_Suc_right add.assoc)
    obtain r u T'' rs m where u: "mappages_from root a ?e pa perm s = Ret r u" "vm_inv u root T'' rs"
        "pt_frame t T' qs u T'' rs"
        "\<forall>b. va_ok b \<longrightarrow> leaf_val u T'' b = mapped_range (a + PGSIZE) m (pa + PGSIZE) perm b (leaf_val t T' b)"
        "r = 0 \<and> m = Suc k \<or>
         r = -1 \<and> m \<le> k \<and> (rs = [] \<or> valid (leaf_val t T' (a + PGSIZE + of_nat m * PGSIZE)))"
      using Suc.IH [OF map(1) conjunct1 [OF n] bd, of "pa + PGSIZE"]
      unfolding e [symmetric] eq [symmetric] by (elim exE conjE) (rule that)
    have "leaf_val u T'' b = mapped_range a (Suc m) pa perm b (leaf_val s T b)" if "va_ok b" for b
      unfolding u(4) [rule_format, OF that] map(3) [OF that] by (rule mapped_range_Suc [OF a that])
    moreover have "leaf_val t T' (a + PGSIZE + of_nat m * PGSIZE) = leaf_val s T (a + of_nat (Suc m) * PGSIZE)"
      if "m \<le> k"
    proof -
      have eqm: "a + PGSIZE + of_nat m * PGSIZE = a + of_nat (Suc m) * PGSIZE" by (simp add: algebra_simps)
      have un: "unat (a + of_nat (Suc m) * PGSIZE) = unat a + 4096 * Suc m"
        using Suc.prems(3) that unat_add_nat_u64 [of a "4096 * Suc m"] by (simp add: algebra_simps)
      have "unat (a + of_nat (Suc m) * PGSIZE) mod 4096 = unat a mod 4096"
        unfolding un by (rule mod_mult_self2)
      then have "va_ok (a + of_nat (Suc m) * PGSIZE)"
        using a that Suc.prems(3) un by (simp add: va_ok_def aligned_unat word_less_nat_alt del: of_nat_Suc PGSIZE_def)
      moreover have "a + of_nat (Suc m) * PGSIZE \<noteq> a" by (rule unat_neqI [OF un, THEN not_sym]) simp
      ultimately show ?thesis unfolding eqm using map(3) by (simp only: if_False)
    qed
    with u(5) have "r = 0 \<and> Suc m = Suc (Suc k) \<or> r = -1 \<and> Suc m \<le> Suc k \<and>
        (rs = [] \<or> valid (leaf_val s T (a + of_nat (Suc m) * PGSIZE)))"
      by (metis Suc_le_mono)
    ultimately show ?thesis
      using u(1,2) pt_frame_trans [OF map(2) u(3)]
      by (intro exI [of _ r] exI [of _ u] exI [of _ T''] exI [of _ rs] exI [of _ "Suc m"] conjI allI impI)
  next
    case (fail t T' qs)
    then show ?thesis
      by (intro exI [of _ "-1"] exI [of _ t] exI [of _ T'] exI [of _ qs] exI [of _ 0]) (simp add: pt_grow_def)
  qed
qed

section \<open>Fresh tables\<close>

lemma load64_zero [simp]: "load64 (\<lambda>_. 0) a = 0"
  by (simp add: load64_def mread_def map_replicate_const le_word_zeros)

lemma empty_table:
  assumes "kmem_inv s ps" "page_ok s p" "p \<notin> set ps" "\<And>j. unat j < 512 \<Longrightarrow> load64 (phys s) (slot p j) = 0"
  shows "vm_inv s p [[] \<mapsto> p] ps"
  using assms unfolding vm_inv_def pt_inv_def by (simp add: ran_def)

lemma uvmcreate_spec:
  assumes inv: "kmem_inv s (p # ps)"
  shows "\<exists>t. uvmcreate s = Ret p t \<and> vm_inv t p [[] \<mapsto> p] ps \<and> mach_ext s t \<and>
    (\<forall>x. \<not> in_page p x \<longrightarrow> phys t x = phys s x)"
proof -
  obtain t where t: "kalloc s = Ret p t" "kmem_inv t ps" "mach_ext s t"
      "\<And>x. \<not> in_page p x \<Longrightarrow> phys t x = phys s x"
    using kalloc_Cons [OF inv] by blast
  have p: "p \<noteq> 0" "page_ok s p" "p \<notin> set ps" "\<And>r. r \<in> set ps \<Longrightarrow> page_ok s r"
    using inv by (auto simp: kmem_inv_def page_ok_def)
  let ?u = "zero_page p t"
  have ext: "mach_ext t ?u" by (simp add: zero_page_def)
  have al: "aligned p" using p(2) by (rule page_ok_aligned)
  have out: "phys ?u x = phys t x" if "\<not> in_page p x" for x
    using that al by (simp add: zero_page_def memset_page)
  have "kmem_inv ?u ps"
  proof (rule kmem_inv_cong [OF t(2) ext])
    fix r x
    assume r: "r \<in> set ps" "in_page r x"
    then have "r \<noteq> p" "aligned r" using p(3) page_ok_aligned [OF p(4)] by auto
    then show "phys ?u x = phys t x" using in_page_disjoint r(2) al out by blast
  qed (simp add: zero_page_def)
  moreover have "page_ok ?u p"
    using p(2) mach_ext_page_ok [OF mach_ext_trans [OF t(3) ext]] by simp
  moreover have "load64 (phys ?u) (slot p j) = 0" if "unat j < 512" for j
    using al that by (simp add: zero_page_def)
  ultimately have "vm_inv ?u p [[] \<mapsto> p] ps" using p(3) by (intro empty_table)
  then show ?thesis
    using t p(1) out mach_ext_trans [OF t(3) ext] by (intro exI [of _ ?u]) (simp add: uvmcreate_def)
qed

section \<open>Translation after mapping\<close>

lemma leaf_PTE2PA:
  assumes "aligned p" "unat p < 2 ^ 54" "unat perm < 2 ^ 10"
  shows "PTE2PA (PA2PTE p OR perm OR PTE_V) = p"
  using PTE2PA_PA2PTE [OF assms(1,2) unat_or_less [OF assms(3) PTE_V_small]] by (simp add: or.assoc)

lemma user_pa_leaf:
  assumes "aligned p" "unat p < 2 ^ 54" "unat perm < 2 ^ 10" "perm AND PTE_U \<noteq> 0"
  shows "user_pa (PA2PTE p OR perm OR PTE_V) = p"
proof -
  have "(PA2PTE p OR perm OR PTE_V) AND PTE_U = perm AND PTE_U"
    using PTE_flag_test [OF PTE_U_small, of p "perm OR PTE_V"] PTE_V_U
    by (simp add: or.assoc bit.conj_disj_distrib2)
  moreover have "(PA2PTE p OR perm OR PTE_V) AND PTE_V \<noteq> 0"
    using valid_PTE(2) by (simp add: valid_def)
  ultimately show ?thesis using assms(4) leaf_PTE2PA [OF assms(1-3)] by (simp add: user_pa_def)
qed

lemma aligned_offset:
  assumes "aligned pa" "aligned va" "aligned b" "va \<le> b" "unat b < unat va + 4096 * n" "unat pa + 4096 * n \<le> 2 ^ 54"
  shows "aligned (pa + (b - va))" "unat (pa + (b - va)) < 2 ^ 54"
proof -
  have d: "unat (b - va) = unat b - unat va"
    using assms(4) by (simp add: unat_diff_u64 word_le_nat_alt)
  have "b - va = of_nat (unat b - unat va)" unfolding d [symmetric] by simp
  moreover have "unat pa + (unat b - unat va) < 2 ^ 64" using assms(5,6) by simp
  ultimately have u: "unat (pa + (b - va)) = unat pa + (unat b - unat va)"
    using unat_add_nat_u64 by metis
  then show "unat (pa + (b - va)) < 2 ^ 54" using assms(4-6) by (simp add: word_le_nat_alt)
  have "(unat b - unat va) mod 4096 = 0"
    using assms(2,3) by (simp add: aligned_unat mod_eq_0_iff_dvd dvd_diff_nat)
  then show "aligned (pa + (b - va))" using assms(1) unfolding aligned_unat u by (metis mod_add_eq add_0 mod_0)
qed

text \<open>
  C2: mapping \<open>n\<close> pages returns 0 or -1, never panics, and when it returns 0 every
  page of the range translates to its physical page and no other user translation
  has changed.
\<close>

theorem mappages_translates:
  assumes inv: "vm_inv s root T ps" and va: "aligned va" "unat va + 4096 * n \<le> unat MAXVA" "0 < n"
    and pa: "aligned pa" "unat pa + 4096 * n \<le> 2 ^ 54" and perm: "unat perm < 2 ^ 10" "perm AND PTE_U \<noteq> 0"
  shows "\<exists>r t. mappages root va (of_nat n * PGSIZE) pa perm s = Ret r t \<and> (r = 0 \<or> r = -1) \<and>
    (r = 0 \<longrightarrow> (\<forall>b x. va_ok b \<longrightarrow> walkaddr root b s = Ret x s \<longrightarrow>
       walkaddr root b t = Ret (if va \<le> b \<and> unat b < unat va + 4096 * n then pa + (b - va) else x) t))"
proof -
  obtain k where k: "n = Suc k" using va(3) by (cases n) auto
  have small: "4096 * n < 2 ^ 64" using pa(2) by simp
  then have un: "unat (of_nat n * PGSIZE :: u64) = 4096 * n"
    using unat_of_nat_u64 [of "4096 * n"] by (simp add: mult.commute)
  have "(of_nat n * PGSIZE :: u64) mod PGSIZE = 0"
    unfolding aligned_def [symmetric] aligned_unat un by simp
  moreover have "of_nat n * PGSIZE \<noteq> (0 :: u64)" using un va(3) by (metis mult_is_0 less_not_refl2 unat_0 zero_neq_numeral)
  moreover have e: "va + of_nat n * PGSIZE - PGSIZE = va + of_nat k * PGSIZE" by (simp add: k algebra_simps)
  ultimately have eq: "mappages root va (of_nat n * PGSIZE) pa perm s =
      mappages_from root va (va + of_nat k * PGSIZE) pa perm s"
    using va(1) unfolding mappages_def e aligned_def by (simp del: PGSIZE_def)
  obtain r t T' qs m where t: "mappages_from root va (va + of_nat k * PGSIZE) pa perm s = Ret r t"
      "vm_inv t root T' qs" "\<forall>b. va_ok b \<longrightarrow> leaf_val t T' b = mapped_range va m pa perm b (leaf_val s T b)"
      "r = 0 \<and> m = Suc k \<or> r = -1 \<and> m \<le> k \<and> (qs = [] \<or> valid (leaf_val s T (va + of_nat m * PGSIZE)))"
    using mappages_from_spec [OF inv va(1) va(2) [unfolded k], of pa perm] by (elim exE conjE) (rule that)
  have "walkaddr root b t = Ret (if va \<le> b \<and> unat b < unat va + 4096 * n then pa + (b - va) else x) t"
    if b: "r = 0" "va_ok b" "walkaddr root b s = Ret x s" for b x
  proof -
    have m: "m = n" using t(4) b(1) k by auto
    have "x = user_pa (leaf_val s T b)" "walkaddr root b t = Ret (user_pa (leaf_val t T' b)) t"
      using walkaddr_lookup [OF vm_invD(1,4) [OF inv]] walkaddr_lookup [OF vm_invD(1,4) [OF t(2)]] b(2,3)
      by (auto simp: va_ok_def)
    then show ?thesis
      using t(3) b(2) aligned_offset [OF pa(1) va(1) _ _ _ pa(2), of b] user_pa_leaf [OF _ _ perm]
      by (auto simp: mapped_range_def m va_ok_def)
  qed
  with t(1,4) show ?thesis unfolding eq by auto
qed

text \<open>A machine with an empty table at 0x80200000 and three free pages.\<close>

definition sample_mach :: mach where
  "sample_mach = \<lparr>phys = store64 (store64 (\<lambda>_. 0) (slot 0x80201000 0) 0x80202000) (slot 0x80202000 0) 0x80203000,
     freelist = 0x80201000, kend = 0x80100000\<rparr>"

lemma sample_vm_inv:
  "vm_inv sample_mach 0x80200000 [[] \<mapsto> 0x80200000] [0x80201000, 0x80202000, 0x80203000]"
proof (rule empty_table)
  have l: "load64 (phys sample_mach) p = (if p = 0x80202000 then 0x80203000 else if p = 0x80201000 then 0x80202000 else 0)"
    if "aligned p" for p
  proof -
    have "load64 (phys sample_mach) (slot p 0) =
        (if p = 0x80202000 then 0x80203000 else if p = 0x80201000 then 0x80202000 else 0)"
      unfolding sample_mach_def using that by (simp add: aligned_def del: slot_0)
    then show ?thesis by (simp only: slot_0)
  qed
  show "kmem_inv sample_mach [0x80201000, 0x80202000, 0x80203000]"
    using l [of "0x80201000"] l [of "0x80202000"] l [of "0x80203000"]
    by (simp add: kmem_inv_def page_ok_def aligned_def sample_mach_def PHYSTOP_def KERNBASE_def)
  show "page_ok sample_mach 0x80200000"
    by (simp add: page_ok_def aligned_def sample_mach_def PHYSTOP_def KERNBASE_def)
  show "unat j < 512 \<Longrightarrow> load64 (phys sample_mach) (slot 0x80200000 j) = 0" for j
    by (simp add: sample_mach_def aligned_def del: slot_0)
qed simp

theorem mappages_translates_witness:
  "\<exists>r t. mappages 0x80200000 0x1000 (of_nat 2 * PGSIZE) 0x80300000 (PTE_U OR PTE_R) sample_mach = Ret r t \<and>
    (r = 0 \<or> r = -1) \<and>
    (r = 0 \<longrightarrow> (\<forall>b x. va_ok b \<longrightarrow> walkaddr 0x80200000 b sample_mach = Ret x sample_mach \<longrightarrow>
       walkaddr 0x80200000 b t =
         Ret (if 0x1000 \<le> b \<and> unat b < unat (0x1000 :: u64) + 4096 * 2 then 0x80300000 + (b - 0x1000) else x) t))"
  by (rule mappages_translates [OF sample_vm_inv])
    (simp_all add: aligned_def PTE_U_def PTE_R_def)

end
