(* ===== verification/Vm_Space.thy ===== *)
theory Vm_Space
  imports Vm_Table
begin

text \<open>
  User address spaces: a page table whose user part owns its frames. The lemmas
  show that unmapping, growing and shrinking a process and copying it for fork
  keep this ownership, move pages between the address space and the allocator
  without losing or sharing any, and leave every other mapping and every other
  byte of memory alone.
\<close>

unbundle bit_operations_syntax

section \<open>Address spaces\<close>

text \<open>A table is untouched by writes outside its pages.\<close>

lemma pt_inv_frame:
  assumes inv: "pt_inv s root T" and ext: "mach_ext s t"
    and same: "\<And>p x. p \<in> ran T \<Longrightarrow> in_page p x \<Longrightarrow> phys t x = phys s x"
  shows "pt_inv t root T" "leaf_val t T = leaf_val s T"
proof -
  have load: "load64 (phys t) (slot q j) = load64 (phys s) (slot q j)"
    if "T p = Some q" "unat j < 512" for p q j
  proof (rule load64_slot_cong)
    show "aligned q" using pt_page [OF inv that(1)] by (rule page_ok_aligned)
    have "q \<in> ran T" using that(1) by (rule ranI)
    then show "in_page q x \<Longrightarrow> phys t x = phys s x" for x by (rule same)
  qed (rule that(2))
  have ok: "page_ok t = page_ok s" using mach_ext_page_ok [OF ext] by (simp add: fun_eq_iff)
  show "pt_inv t root T"
    using inv unfolding pt_inv_def ok by (simp add: load)
  show "leaf_val t T = leaf_val s T"
    using load by (auto simp: leaf_val_def fun_eq_iff split: option.splits)
qed

text \<open>The mapped page addresses below \<open>lim\<close>, and the frame of each.\<close>

definition mapped :: "'a mach_scheme \<Rightarrow> pt_tree \<Rightarrow> u64 \<Rightarrow> u64 set" where
  "mapped s T lim = {a. va_ok a \<and> a < lim \<and> valid (leaf_val s T a)}"

definition frame :: "'a mach_scheme \<Rightarrow> pt_tree \<Rightarrow> u64 \<Rightarrow> u64" where
  "frame s T a = PTE2PA (leaf_val s T a)"

text \<open>
  \<open>as_inv s root T ps lim\<close>: below \<open>lim\<close>, the table maps every page to an allocated
  frame of its own: no two addresses share a frame, and no frame is free or a
  table page.
\<close>

definition as_inv :: "'a mach_scheme \<Rightarrow> u64 \<Rightarrow> pt_tree \<Rightarrow> u64 list \<Rightarrow> u64 \<Rightarrow> bool" where
  "as_inv s root T ps lim \<longleftrightarrow> vm_inv s root T ps \<and> inj_on (frame s T) (mapped s T lim) \<and>
     (\<forall>a\<in>mapped s T lim. page_ok s (frame s T a) \<and> frame s T a \<notin> ran T \<and> frame s T a \<notin> set ps)"

lemma as_invD:
  assumes "as_inv s root T ps lim"
  shows "vm_inv s root T ps" "a \<in> mapped s T lim \<Longrightarrow> page_ok s (frame s T a)"
    "a \<in> mapped s T lim \<Longrightarrow> frame s T a \<notin> ran T" "a \<in> mapped s T lim \<Longrightarrow> frame s T a \<notin> set ps"
    "a \<in> mapped s T lim \<Longrightarrow> b \<in> mapped s T lim \<Longrightarrow> frame s T a = frame s T b \<Longrightarrow> a = b"
  using assms by (auto simp: as_inv_def inj_on_def)

text \<open>Removing the leaf of \<open>a\<close> and freeing its frame.\<close>

lemma uvmunmap_page_spec:
  assumes inv: "as_inv s root T ps lim" and a: "va_ok a" "a < lim"
  shows "\<exists>t. uvmunmap_page root a True s = Ret () t \<and> mach_ext s t \<and>
    as_inv t root T (if valid (leaf_val s T a) then frame s T a # ps else ps) lim \<and>
    (\<forall>b. va_ok b \<longrightarrow> leaf_val t T b = (if b = a \<and> valid (leaf_val s T a) then 0 else leaf_val s T b)) \<and>
    (\<forall>x. (\<forall>p\<in>ran T. \<not> in_page p x) \<longrightarrow> (valid (leaf_val s T a) \<longrightarrow> \<not> in_page (frame s T a) x) \<longrightarrow>
       phys t x = phys s x)"
proof -
  note vm = as_invD(1) [OF inv]
  have w: "walk root a False s = Ret (leaf_addr T a) s"
    using walk_lookup [OF vm_invD(1) [OF vm]] a(1) by (simp add: va_ok_def)
  show ?thesis
  proof (cases "valid (leaf_val s T a)")
    case False
    have "uvmunmap_page root a True s = Ret () s"
      using w False load_leaf_addr [of T a s] by (auto simp: uvmunmap_page_def valid_def Let_def)
    with False inv show ?thesis by auto
  next
    case True
    let ?f = "frame s T a"
    have am: "a \<in> mapped s T lim" using a True by (simp add: mapped_def)
    note f = as_invD(2-4) [OF inv am]
    obtain q where q: "T (leaf_path a) = Some q"
      using True by (cases "T (leaf_path a)") (auto simp: leaf_val_def)
    have nz: "leaf_addr T a \<noteq> 0"
      using leaf_addr_eq_0 [OF vm_invD(1,4) [OF vm]] q by simp
    obtain t where t: "kfree ?f s = Ret () t" "kmem_inv t (?f # ps)" "mach_ext s t"
        "\<forall>x. \<not> in_page ?f x \<longrightarrow> phys t x = phys s x"
      using kfree_ok [OF vm_invD(2) [OF vm] f(1,3)] by blast
    have keep: "phys t x = phys s x" if "p \<in> ran T" "in_page p x" for p x
    proof -
      have "aligned p" "p \<noteq> ?f"
        using that(1) f(2) page_ok_aligned [OF pt_page [OF vm_invD(1) [OF vm]]] by (auto simp: ran_def)
      then have "\<not> in_page ?f x" using in_page_disjoint that(2) page_ok_aligned [OF f(1)] by blast
      with t(4) show ?thesis by blast
    qed
    note pt = pt_inv_frame [OF vm_invD(1) [OF vm] t(3) keep]
    have vmt: "vm_inv t root T (?f # ps)"
      using pt(1) t(2) f(2) vm_invD(3) [OF vm] by (auto simp: vm_inv_def)
    let ?u = "put64 (leaf_addr T a) 0 t"
    note p = put_leaf [OF vmt q, of 0]
    have lv: "leaf_val ?u T b = (if b = a then 0 else leaf_val s T b)" if "va_ok b" for b
      using put_leaf_val [OF vmt q a(1) that] pt(2) by simp
    have ext: "mach_ext s ?u" using t(3) by (rule mach_ext_trans) (simp add: put64_def)
    have "mapped ?u T lim = mapped s T lim - {a}" using lv by (auto simp: mapped_def split: if_splits)
    moreover have "frame ?u T b = frame s T b" if "b \<in> mapped s T lim - {a}" for b
      using lv that by (auto simp: frame_def mapped_def)
    ultimately have as: "as_inv ?u root T (?f # ps) lim"
      unfolding as_inv_def using p(1) as_invD [OF inv] am
      by (auto simp: inj_on_def mach_ext_page_ok [OF ext])
    have "uvmunmap_page root a True s = Ret () ?u"
      using w nz t(1) True load_leaf_addr [OF nz, of s]
      by (simp add: uvmunmap_page_def valid_def frame_def Let_def)
    moreover have "phys ?u x = phys s x" if "\<forall>p\<in>ran T. \<not> in_page p x" "\<not> in_page ?f x" for x
      using p(2) t(4) that by (simp add: pt_frame_def)
    ultimately show ?thesis using ext as lv True by (intro exI [of _ ?u]) simp
  qed
qed

definition mapped_in :: "'a mach_scheme \<Rightarrow> pt_tree \<Rightarrow> u64 \<Rightarrow> u64 \<Rightarrow> u64 set" where
  "mapped_in s T a e = {b. va_ok b \<and> a \<le> b \<and> b < e \<and> valid (leaf_val s T b)}"

lemma mapped_in_elem:
  assumes a: "va_ok a" "a < e"
    and lv: "\<forall>b. va_ok b \<longrightarrow> leaf_val t T b = (if b = a \<and> valid (leaf_val s T a) then 0 else leaf_val s T b)"
    and b: "va_ok b"
  shows "b \<in> mapped_in s T a e \<longleftrightarrow> b = a \<and> valid (leaf_val s T a) \<or> b \<in> mapped_in t T (a + PGSIZE) e"
  using a b lv va_ok_le_next [OF a(1) b]
  by (cases "b = a") (auto simp: mapped_in_def simp del: PGSIZE_def)

lemma mapped_in_step:
  assumes a: "va_ok a" "a < e"
    and lv: "\<forall>b. va_ok b \<longrightarrow> leaf_val t T b = (if b = a \<and> valid (leaf_val s T a) then 0 else leaf_val s T b)"
  shows "frame s T ` mapped_in s T a e =
    (if valid (leaf_val s T a) then {frame s T a} else {}) \<union> frame t T ` mapped_in t T (a + PGSIZE) e"
proof -
  have "b \<in> mapped_in s T a e \<longleftrightarrow> b \<in> (if valid (leaf_val s T a) then {a} else {}) \<union> mapped_in t T (a + PGSIZE) e" for b
    using mapped_in_elem [OF assms, of b] a(1) by (cases "va_ok b") (auto simp: mapped_in_def)
  then have "mapped_in s T a e = (if valid (leaf_val s T a) then {a} else {}) \<union> mapped_in t T (a + PGSIZE) e"
    by blast
  moreover have "frame t T b = frame s T b" if "b \<in> mapped_in t T (a + PGSIZE) e" for b
    using that lv va_ok_le_next(2) [OF a(1,1)] by (auto simp: mapped_in_def frame_def simp del: PGSIZE_def)
  then have "frame t T ` mapped_in t T (a + PGSIZE) e = frame s T ` mapped_in t T (a + PGSIZE) e"
    by (rule image_cong [OF refl])
  ultimately show ?thesis by (simp add: image_Un)
qed

text \<open>
  \<open>unmaps s T ps t qs a e\<close>: every page mapped in \<open>[a, e)\<close> has been unmapped and its frame
  added to the free pages; every other leaf and every byte outside the table and the
  freed frames is as before.
\<close>

definition unmaps ::
  "'a mach_scheme \<Rightarrow> pt_tree \<Rightarrow> u64 list \<Rightarrow> 'a mach_scheme \<Rightarrow> u64 list \<Rightarrow> u64 \<Rightarrow> u64 \<Rightarrow> bool" where
  "unmaps s T ps t qs a e \<longleftrightarrow> mach_ext s t \<and> set qs = set ps \<union> frame s T ` mapped_in s T a e \<and>
     (\<forall>b. va_ok b \<longrightarrow> leaf_val t T b = (if b \<in> mapped_in s T a e then 0 else leaf_val s T b)) \<and>
     (\<forall>x. (\<forall>p\<in>ran T \<union> frame s T ` mapped_in s T a e. \<not> in_page p x) \<longrightarrow> phys t x = phys s x)"

lemma unmaps_empty: "\<not> a < e \<Longrightarrow> unmaps s T ps s ps a e"
  by (auto simp: unmaps_def mapped_in_def)

lemma uvmunmap_from_spec:
  assumes "as_inv s root T ps lim" "aligned a" "e \<le> lim" "lim \<le> MAXVA"
  shows "\<exists>t qs. uvmunmap_from root a e True s = Ret () t \<and> as_inv t root T qs lim \<and> unmaps s T ps t qs a e"
  using assms
proof (induction root a e True s arbitrary: ps rule: uvmunmap_from.induct)
  case (1 root a e s)
  show ?case
  proof (cases "a < e")
    case False
    with unmaps_empty [OF False] 1(2) show ?thesis by (auto simp: uvmunmap_from.simps)
  next
    case True
    have a: "va_ok a" "a < lim"
      using True 1(3,4,5) by (auto simp: va_ok_def)
    let ?ps = "if valid (leaf_val s T a) then frame s T a # ps else ps"
    obtain t where t: "uvmunmap_page root a True s = Ret () t" "mach_ext s t" "as_inv t root T ?ps lim"
        "\<forall>b. va_ok b \<longrightarrow> leaf_val t T b = (if b = a \<and> valid (leaf_val s T a) then 0 else leaf_val s T b)"
        "\<forall>x. (\<forall>p\<in>ran T. \<not> in_page p x) \<longrightarrow> (valid (leaf_val s T a) \<longrightarrow> \<not> in_page (frame s T a) x) \<longrightarrow>
           phys t x = phys s x"
      using uvmunmap_page_spec [OF 1(2) a] by (elim exE conjE) (rule that)
    note step = mapped_in_step [OF a(1) True t(4)]
    obtain u qs where u: "uvmunmap_from root (a + PGSIZE) e True t = Ret () u" "as_inv u root T qs lim"
        "mach_ext t u" "set qs = set ?ps \<union> frame t T ` mapped_in t T (a + PGSIZE) e"
        "\<forall>b. va_ok b \<longrightarrow> leaf_val u T b = (if b \<in> mapped_in t T (a + PGSIZE) e then 0 else leaf_val t T b)"
        "\<forall>x. (\<forall>p\<in>ran T \<union> frame t T ` mapped_in t T (a + PGSIZE) e. \<not> in_page p x) \<longrightarrow> phys u x = phys t x"
      using 1(1) [OF True t(1,3) conjunct1 [OF va_ok_next [OF a(1)]] 1(4,5)]
      unfolding unmaps_def by (elim exE conjE) (rule that)
    have run: "uvmunmap_from root a e True s = Ret () u"
      using True t(1) u(1) by (simp add: uvmunmap_from.simps [of root a] del: PGSIZE_def)
    have "set qs = set ps \<union> frame s T ` mapped_in s T a e" unfolding u(4) step by auto
    moreover have "leaf_val u T b = (if b \<in> mapped_in s T a e then 0 else leaf_val s T b)" if "va_ok b" for b
    proof -
      have "b \<in> mapped_in s T a e \<longleftrightarrow> b = a \<and> valid (leaf_val s T a) \<or> b \<in> mapped_in t T (a + PGSIZE) e"
        using mapped_in_elem [OF a(1) True t(4) that] .
      then show ?thesis using u(5) t(4) that by auto
    qed
    moreover have "phys u x = phys s x"
      if "\<forall>p\<in>ran T \<union> frame s T ` mapped_in s T a e. \<not> in_page p x" for x
      using that t(5) u(6) unfolding step by (simp split: if_splits)
    ultimately have "unmaps s T ps u qs a e"
      using mach_ext_trans [OF t(2) u(3)] unfolding unmaps_def by blast
    with run u(2) show ?thesis by blast
  qed
qed

lemma aligned_PGROUNDUP_id: "aligned a \<Longrightarrow> unat a + 4095 < 2 ^ 64 \<Longrightarrow> PGROUNDUP a = a"
proof -
  assume a: "aligned a" "unat a + 4095 < 2 ^ 64"
  obtain k where "unat a = 4096 * k" using a(1) by (auto simp: aligned_unat elim!: dvdE)
  then have "unat (PGROUNDUP a) = unat a" using unat_PGROUNDUP [OF a(2)] by simp
  then show ?thesis by (rule unsigned_word_eqI)
qed

lemma PGROUNDUP_le:
  assumes "a \<le> MAXVA"
  shows "a \<le> PGROUNDUP a" "PGROUNDUP a \<le> MAXVA" "aligned (PGROUNDUP a)" "va_ok b \<Longrightarrow> a \<le> b \<longleftrightarrow> PGROUNDUP a \<le> b"
proof -
  have small: "unat a + 4095 < 2 ^ 64" using assms by (simp add: word_le_nat_alt)
  note u = unat_PGROUNDUP [OF small]
  show "a \<le> PGROUNDUP a" unfolding word_le_nat_alt u by linarith
  show "PGROUNDUP a \<le> MAXVA" using assms unfolding word_le_nat_alt u by simp
  show "aligned (PGROUNDUP a)" unfolding aligned_unat u by simp
  assume "va_ok b"
  then obtain k where "unat b = 4096 * k" by (auto simp: va_ok_def aligned_unat elim!: dvdE)
  then show "a \<le> b \<longleftrightarrow> PGROUNDUP a \<le> b" unfolding word_le_nat_alt u by auto
qed

lemma scast_ucast_u32: "unat (x :: u64) < 2 ^ 31 \<Longrightarrow> (scast (ucast x :: u32) :: u64) = x"
proof (rule bit_word_eqI)
  fix n :: nat
  assume x: "unat x < 2 ^ 31" and "n < LENGTH(64)"
  then show "bit (scast (ucast x :: u32) :: u64) n = bit x n"
    using not_bit_high [OF x, of n] not_bit_high [OF x, of 31] by (auto simp: bit_simps min_def)
qed

lemma page_count:
  assumes "aligned (d :: u64)" "d \<le> MAXVA"
  shows "scast (ucast (d div PGSIZE) :: u32) * PGSIZE = d"
proof -
  have "unat (d div PGSIZE) = unat d div 4096" by (simp add: unat_div)
  then have "unat (d div PGSIZE) < 2 ^ 31" using assms(2) by (simp add: word_le_nat_alt)
  then have "scast (ucast (d div PGSIZE) :: u32) = d div PGSIZE" by (rule scast_ucast_u32)
  moreover have "d div PGSIZE * PGSIZE = d"
    using assms(1) unfolding aligned_def by (metis add.right_neutral div_mult_mod_eq)
  ultimately show ?thesis by simp
qed

lemma uvmdealloc_spec:
  assumes inv: "as_inv s root T ps lim" and lim: "lim \<le> MAXVA" "PGROUNDUP oldsz \<le> lim"
    and sz: "oldsz \<le> MAXVA" "newsz \<le> MAXVA"
  shows "\<exists>t qs. uvmdealloc root oldsz newsz s = Ret (min oldsz newsz) t \<and> as_inv t root T qs lim \<and>
    unmaps s T ps t qs (PGROUNDUP newsz) (PGROUNDUP oldsz)"
proof (cases "PGROUNDUP newsz < PGROUNDUP oldsz")
  case False
  have "min oldsz newsz = (if newsz \<ge> oldsz then oldsz else newsz)" by (simp add: min_def)
  with False inv unmaps_empty [OF False] show ?thesis
    by (intro exI [of _ s] exI [of _ ps]) (simp add: uvmdealloc_def)
next
  case True
  have lt: "newsz < oldsz"
  proof (rule ccontr)
    assume "\<not> newsz < oldsz"
    then have "unat (PGROUNDUP oldsz) \<le> unat (PGROUNDUP newsz)"
      using sz unat_PGROUNDUP [of oldsz] unat_PGROUNDUP [of newsz]
      by (simp add: word_le_nat_alt word_less_nat_alt div_le_mono)
    with True show False by (simp add: word_less_nat_alt)
  qed
  let ?d = "PGROUNDUP oldsz - PGROUNDUP newsz"
  have u: "unat ?d = unat (PGROUNDUP oldsz) - unat (PGROUNDUP newsz)"
    using True by (simp add: unat_diff_u64 word_less_nat_alt)
  have "aligned ?d"
    using PGROUNDUP_le(3) [OF sz(1)] PGROUNDUP_le(3) [OF sz(2)]
    unfolding aligned_unat u by (simp add: mod_eq_0_iff_dvd dvd_diff_nat)
  moreover have "?d \<le> MAXVA"
    using PGROUNDUP_le(2) [OF sz(1)] unfolding word_le_nat_alt u by simp
  ultimately have "PGROUNDUP newsz + scast (ucast (?d div PGSIZE) :: u32) * PGSIZE = PGROUNDUP oldsz"
    using page_count by simp
  moreover obtain t qs where t: "uvmunmap_from root (PGROUNDUP newsz) (PGROUNDUP oldsz) True s = Ret () t"
      "as_inv t root T qs lim" "unmaps s T ps t qs (PGROUNDUP newsz) (PGROUNDUP oldsz)"
    using uvmunmap_from_spec [OF inv PGROUNDUP_le(3) [OF sz(2)] lim(2,1)] by blast
  ultimately have "uvmdealloc root oldsz newsz s = Ret newsz t"
    using True lt [unfolded not_le [symmetric]] PGROUNDUP_le(3) [OF sz(2)]
    by (auto simp: uvmdealloc_def uvmunmap_def aligned_def Let_def simp del: PGSIZE_def)
  moreover have "min oldsz newsz = newsz" using lt by (auto simp: min_def dest: leD)
  ultimately show ?thesis using t by auto
qed

section \<open>Giving a process a fresh page\<close>

text \<open>\<open>unowned\<close>: an allocated page that no table entry, table page or free list refers to.\<close>

definition unowned :: "'a mach_scheme \<Rightarrow> pt_tree \<Rightarrow> u64 list \<Rightarrow> u64 \<Rightarrow> u64 \<Rightarrow> bool" where
  "unowned s T ps lim f \<longleftrightarrow> page_ok s f \<and> f \<notin> ran T \<and> f \<notin> set ps \<and> f \<notin> frame s T ` mapped s T lim"

lemma mapped_cong: "leaf_val t T' = leaf_val s T \<Longrightarrow> mapped t T' lim = mapped s T lim \<and> frame t T' = frame s T"
  by (simp add: mapped_def frame_def fun_eq_iff)

lemma as_inv_cong:
  assumes inv: "as_inv s root T ps lim" and vm: "vm_inv t root T' qs" and ext: "mach_ext s t"
    and lv: "leaf_val t T' = leaf_val s T"
    and own: "\<And>a. a \<in> mapped s T lim \<Longrightarrow> frame s T a \<notin> ran T' \<and> frame s T a \<notin> set qs"
  shows "as_inv t root T' qs lim"
  using inv vm own mapped_cong [OF lv] mach_ext_page_ok [OF ext] unfolding as_inv_def by simp

lemma vm_inv_fill:
  assumes vm: "vm_inv s root T ps" and f: "aligned f" "f \<notin> ran T" "f \<notin> set ps"
    and ext: "mach_ext s t" "freelist t = freelist s" and mem: "\<And>x. \<not> in_page f x \<Longrightarrow> phys t x = phys s x"
  shows "vm_inv t root T ps" "leaf_val t T = leaf_val s T"
proof -
  have keep: "phys t x = phys s x" if "p \<in> ran T \<union> set ps" "in_page p x" for p x
  proof -
    have "aligned p" "p \<noteq> f"
      using that(1) f(2,3) pt_page [OF vm_invD(1) [OF vm]] vm_invD(2) [OF vm]
      by (auto simp: ran_def kmem_inv_def page_ok_def)
    then show ?thesis using in_page_disjoint that(2) f(1) mem by blast
  qed
  note pt = pt_inv_frame [OF vm_invD(1) [OF vm] ext(1)]
  show "leaf_val t T = leaf_val s T" using keep by (intro pt(2)) auto
  have "kmem_inv t ps" using keep by (intro kmem_inv_cong [OF vm_invD(2) [OF vm] ext]) auto
  moreover have "pt_inv t root T" using keep by (intro pt(1)) auto
  ultimately show "vm_inv t root T ps" using vm_invD(3) [OF vm] by (simp add: vm_inv_def)
qed

lemma fresh_page:
  assumes inv: "as_inv s root T (f # ps) lim"
  shows "\<exists>t. kalloc s = Ret f t \<and> f \<noteq> 0 \<and> mach_ext s t \<and> as_inv t root T ps lim \<and> unowned t T ps lim f \<and>
    leaf_val t T = leaf_val s T \<and> (\<forall>x. \<not> in_page f x \<longrightarrow> phys t x = phys s x)"
proof -
  note vm = as_invD(1) [OF inv]
  have f: "page_ok s f" "f \<notin> set ps" "f \<notin> ran T" "f \<noteq> 0"
    using vm_invD(2-4) [OF vm] by (auto simp: kmem_inv_def page_ok_def)
  obtain t where t: "kalloc s = Ret f t" "kmem_inv t ps" "mach_ext s t" "\<forall>x. \<not> in_page f x \<longrightarrow> phys t x = phys s x"
    using kalloc_Cons [OF vm_invD(2) [OF vm]] by blast
  have keep: "phys t x = phys s x" if "p \<in> ran T" "in_page p x" for p x
  proof -
    have "aligned p" "p \<noteq> f"
      using that(1) f(3) page_ok_aligned [OF pt_page [OF vm_invD(1) [OF vm]]] by (auto simp: ran_def)
    then show ?thesis using in_page_disjoint that(2) page_ok_aligned [OF f(1)] t(4) by blast
  qed
  have pt: "pt_inv t root T" "leaf_val t T = leaf_val s T"
    using pt_inv_frame [OF vm_invD(1) [OF vm] t(3)] keep by blast+
  have vmt: "vm_inv t root T ps" using pt(1) t(2) vm_invD(3) [OF vm] by (auto simp: vm_inv_def)
  have "as_inv t root T ps lim"
    using as_invD(3,4) [OF inv] by (intro as_inv_cong [OF inv vmt t(3) pt(2)]) auto
  moreover have "unowned t T ps lim f"
    using f as_invD(4) [OF inv] mach_ext_page_ok [OF t(3)] mapped_cong [OF pt(2)] by (auto simp: unowned_def)
  ultimately show ?thesis using t f(4) pt(2) by blast
qed

lemma fill_page:
  assumes inv: "as_inv s root T ps lim" and f: "unowned s T ps lim f"
    and mem: "\<And>x. \<not> in_page f x \<Longrightarrow> m x = phys s x"
  defines "t \<equiv> s\<lparr>phys := m\<rparr>"
  shows "as_inv t root T ps lim" "unowned t T ps lim f" "leaf_val t T = leaf_val s T" "mach_ext s t"
proof -
  show ext: "mach_ext s t" by (simp add: t_def)
  have f': "aligned f" "f \<notin> ran T" "f \<notin> set ps" using f by (auto simp: unowned_def page_ok_def)
  note vm = vm_inv_fill [OF as_invD(1) [OF inv] f' ext]
  show lv: "leaf_val t T = leaf_val s T" using mem by (intro vm(2)) (simp_all add: t_def)
  show "as_inv t root T ps lim"
    using mem as_invD(3,4) [OF inv] by (intro as_inv_cong [OF inv vm(1) ext lv]) (simp_all add: t_def)
  show "unowned t T ps lim f"
    using f mapped_cong [OF lv] mach_ext_page_ok [OF ext] by (simp add: unowned_def)
qed

lemma release_page:
  assumes inv: "as_inv s root T ps lim" and f: "unowned s T ps lim f"
  shows "\<exists>t. kfree f s = Ret () t \<and> mach_ext s t \<and> as_inv t root T (f # ps) lim \<and> leaf_val t T = leaf_val s T \<and>
    (\<forall>x. \<not> in_page f x \<longrightarrow> phys t x = phys s x)"
proof -
  note vm = as_invD(1) [OF inv]
  have f': "page_ok s f" "f \<notin> set ps" "f \<notin> ran T" using f by (auto simp: unowned_def)
  obtain t where t: "kfree f s = Ret () t" "kmem_inv t (f # ps)" "mach_ext s t" "\<forall>x. \<not> in_page f x \<longrightarrow> phys t x = phys s x"
    using kfree_ok [OF vm_invD(2) [OF vm] f'(1,2)] by blast
  have keep: "phys t x = phys s x" if "p \<in> ran T" "in_page p x" for p x
  proof -
    have "aligned p" "p \<noteq> f"
      using that(1) f'(3) page_ok_aligned [OF pt_page [OF vm_invD(1) [OF vm]]] by (auto simp: ran_def)
    then show ?thesis using in_page_disjoint that(2) page_ok_aligned [OF f'(1)] t(4) by blast
  qed
  have pt: "pt_inv t root T" "leaf_val t T = leaf_val s T"
    using pt_inv_frame [OF vm_invD(1) [OF vm] t(3)] keep by blast+
  have vmt: "vm_inv t root T (f # ps)" using pt(1) t(2) vm_invD(3) [OF vm] f'(3) by (auto simp: vm_inv_def)
  have "as_inv t root T (f # ps) lim"
    using as_invD(3,4) [OF inv] f by (intro as_inv_cong [OF inv vmt t(3) pt(2)]) (auto simp: unowned_def)
  then show ?thesis using t pt(2) by blast
qed

lemma map_fresh:
  assumes inv: "as_inv s root T ps lim" and f: "unowned s T ps lim f" and a: "va_ok a"
    and perm: "unat perm < 2 ^ 10"
  obtains (ok) t T' qs where "mappages root a PGSIZE f perm s = Ret 0 t" "as_inv t root T' qs lim"
      "pt_frame s T ps t T' qs" "\<not> valid (leaf_val s T a)"
      "\<And>b. va_ok b \<Longrightarrow> leaf_val t T' b = (if b = a then PA2PTE f OR perm OR PTE_V else leaf_val s T b)"
  | (fail) t T' qs where "mappages root a PGSIZE f perm s = Ret (-1) t" "as_inv t root T' qs lim"
      "pt_grow s T ps t T' qs" "unowned t T' qs lim f" "qs = [] \<or> valid (leaf_val s T a)"
proof -
  note vm = as_invD(1) [OF inv]
  have eq: "mappages root a PGSIZE f perm s = mappages_from root a a f perm s"
    using a by (simp add: mappages_def va_ok_def aligned_def)
  have own: "frame s T b \<notin> ran T' \<and> frame s T b \<notin> set qs"
    if "pt_frame s T ps t T' qs" "b \<in> mapped s T lim" for t T' qs b
    using that as_invD(3,4) [OF inv that(2)] by (auto simp: pt_frame_def)
  have own': "f \<notin> ran T'" "f \<notin> set qs" if "pt_frame s T ps t T' qs" for t T' qs
    using that f by (auto simp: pt_frame_def unowned_def)
  have p54: "aligned f" "unat f < 2 ^ 54" 
    using f page_ok_aligned [of s f] page_ok_small [of s f] by (auto simp: unowned_def)
  from vm a show thesis
  proof (cases rule: mappages_step [where pa = f and perm = perm])
    case (map t T' qs)
    have ext: "mach_ext s t" using map(2) by (simp add: pt_frame_def)
    have lf: "frame t T' b = (if b = a then f else frame s T b)" if "va_ok b" for b
      using map(3) [OF that] leaf_PTE2PA [OF p54 perm] by (simp add: frame_def)
    have mp: "mapped t T' lim = (if a < lim then insert a (mapped s T lim) else mapped s T lim)"
      using map(3,5) a by (auto simp: mapped_def split: if_splits)
    have "as_inv t root T' qs lim"
      unfolding as_inv_def
    proof (intro conjI inj_onI ballI)
      show "vm_inv t root T' qs" by (rule map(1))
    next
      fix b c
      assume bc: "b \<in> mapped t T' lim" "c \<in> mapped t T' lim" "frame t T' b = frame t T' c"
      have "va_ok b" "va_ok c" using bc by (auto simp: mapped_def)
      then show "b = c"
        using bc lf mp as_invD(5) [OF inv, of b c] f a by (auto simp: unowned_def split: if_splits)
    next
      fix b
      assume b: "b \<in> mapped t T' lim"
      then have "b = a \<or> b \<in> mapped s T lim" "va_ok b" using mp by (auto simp: mapped_def split: if_splits)
      then show "page_ok t (frame t T' b)" "frame t T' b \<notin> ran T'" "frame t T' b \<notin> set qs"
        using lf own [OF map(2)] own' [OF map(2)] f as_invD(2) [OF inv] mach_ext_page_ok [OF ext]
        by (auto simp: unowned_def)
    qed
    with map eq show thesis by (intro ok) auto
  next
    case fl: (fail t T' qs)
    have ext: "mach_ext s t" and lv: "leaf_val t T' = leaf_val s T" and fr: "pt_frame s T ps t T' qs"
      using fl(2) by (auto simp: pt_grow_def pt_frame_def)
    have "as_inv t root T' qs lim" using own [OF fr] by (intro as_inv_cong [OF inv fl(1) ext lv])
    moreover have "unowned t T' qs lim f"
      using f own' [OF fr] mapped_cong [OF lv] mach_ext_page_ok [OF ext] by (simp add: unowned_def)
    ultimately show thesis using fl eq by (intro fail) auto
  qed
qed

section \<open>Growing a process\<close>

definition pages_in :: "u64 \<Rightarrow> u64 \<Rightarrow> u64 set" where
  "pages_in a e = {b. va_ok b \<and> a \<le> b \<and> b < e}"

text \<open>
  \<open>allocs s T ps t T' qs B perm cont\<close>: every page \<open>b\<close> of \<open>B\<close> has been mapped, with
  permissions \<open>perm b\<close>, to a page that was free and now holds \<open>cont b\<close>; no other leaf
  changed, no page was lost, and no byte outside the free and table pages changed.
\<close>

definition allocs ::
  "'a mach_scheme \<Rightarrow> pt_tree \<Rightarrow> u64 list \<Rightarrow> 'a mach_scheme \<Rightarrow> pt_tree \<Rightarrow> u64 list \<Rightarrow> u64 set \<Rightarrow>
    (u64 \<Rightarrow> u64) \<Rightarrow> (u64 \<Rightarrow> u64 \<Rightarrow> u8) \<Rightarrow> bool" where
  "allocs s T ps t T' qs B perm cont \<longleftrightarrow> mach_ext s t \<and> T \<subseteq>\<^sub>m T' \<and>
     set ps \<union> ran T = set qs \<union> ran T' \<union> frame t T' ` B \<and>
     (\<forall>b\<in>B. leaf_val t T' b = PA2PTE (frame t T' b) OR perm b OR PTE_V) \<and>
     (\<forall>b\<in>B. \<forall>x. in_page (frame t T' b) x \<longrightarrow> phys t x = cont b (x - frame t T' b)) \<and>
     (\<forall>b. va_ok b \<longrightarrow> b \<notin> B \<longrightarrow> leaf_val t T' b = leaf_val s T b) \<and>
     (\<forall>x. (\<forall>p\<in>set ps \<union> ran T. \<not> in_page p x) \<longrightarrow> phys t x = phys s x)"

text \<open>\<open>undone\<close>: the pages of \<open>B\<close> are unmapped, everything else is as before.\<close>

definition undone ::
  "'a mach_scheme \<Rightarrow> pt_tree \<Rightarrow> u64 list \<Rightarrow> 'a mach_scheme \<Rightarrow> pt_tree \<Rightarrow> u64 list \<Rightarrow> u64 set \<Rightarrow> bool" where
  "undone s T ps t T' qs B \<longleftrightarrow> mach_ext s t \<and> T \<subseteq>\<^sub>m T' \<and> set ps \<union> ran T = set qs \<union> ran T' \<and>
     (\<forall>b\<in>B. \<not> valid (leaf_val t T' b)) \<and> (\<forall>b. va_ok b \<longrightarrow> b \<notin> B \<longrightarrow> leaf_val t T' b = leaf_val s T b) \<and>
     (\<forall>x. (\<forall>p\<in>set ps \<union> ran T. \<not> in_page p x) \<longrightarrow> phys t x = phys s x)"

lemma allocs_empty [simp]: "allocs s T ps s T ps {} perm cont"
  by (simp add: allocs_def)

lemma in_pages_iff: "(\<forall>p\<in>A \<union> B. \<not> in_page p x) \<longleftrightarrow> (\<forall>p\<in>A. \<not> in_page p x) \<and> (\<forall>p\<in>B. \<not> in_page p x)"
  by blast

text \<open>The frames an address space owns are disjoint, byte by byte, from free and table pages.\<close>

lemma owned_outside:
  assumes inv: "as_inv s root T ps lim" and b: "b \<in> mapped s T lim" and x: "in_page (frame s T b) x"
  shows "\<forall>p\<in>set ps \<union> ran T. \<not> in_page p x"
proof
  fix p
  assume p: "p \<in> set ps \<union> ran T"
  note vm = as_invD(1) [OF inv]
  have "aligned p"
    using p pt_page [OF vm_invD(1) [OF vm]] vm_invD(2) [OF vm] by (auto simp: ran_def kmem_inv_def page_ok_def)
  moreover have "p \<noteq> frame s T b" using p as_invD(3,4) [OF inv b] by auto
  ultimately show "\<not> in_page p x"
    using in_page_disjoint x page_ok_aligned [OF as_invD(2) [OF inv b]] by blast
qed

lemma allocs_grow:
  assumes al: "allocs s0 T0 ps0 s T ps B perm cont" and inv: "as_inv s root T ps lim" and B: "B \<subseteq> mapped s T lim"
    and ext: "mach_ext s t" and le: "T \<subseteq>\<^sub>m T'" and pages: "set qs \<union> ran T' = set ps \<union> ran T"
    and lv: "leaf_val t T' = leaf_val s T"
    and mem: "\<And>x. (\<forall>p\<in>set ps \<union> ran T. \<not> in_page p x) \<Longrightarrow> phys t x = phys s x"
  shows "allocs s0 T0 ps0 t T' qs B perm cont"
proof -
  have fr: "frame t T' = frame s T" using mapped_cong [OF lv] by simp
  have "phys t x = cont b (x - frame s T b)" if "b \<in> B" "in_page (frame s T b) x" for b x
    using that al mem [OF owned_outside [OF inv _ that(2)]] B by (auto simp: allocs_def)
  moreover have "phys t x = phys s0 x" if x: "\<forall>p\<in>set ps0 \<union> ran T0. \<not> in_page p x" for x
  proof -
    have "\<forall>p\<in>set ps \<union> ran T. \<not> in_page p x" using x al by (auto simp: allocs_def)
    with mem x al show ?thesis by (simp add: allocs_def)
  qed
  ultimately show ?thesis
    using al ext le pages unfolding allocs_def fr lv by (auto intro: mach_ext_trans map_le_trans)
qed

lemma allocs_step:
  assumes al: "allocs s0 T0 ps0 s T (f # ps) B perm cont" and inv: "as_inv s root T (f # ps) lim"
    and B: "B \<subseteq> mapped s T lim" and a: "va_ok a" "a < lim" "a \<notin> B" and perm: "unat (perm a) < 2 ^ 10"
    and t: "mach_ext s t" "leaf_val t T = leaf_val s T" "\<And>x. \<not> in_page f x \<Longrightarrow> phys t x = phys s x"
      "\<And>x. in_page f x \<Longrightarrow> phys t x = cont a (x - f)"
    and u: "as_inv u root T' qs lim" "pt_frame t T ps u T' qs"
      "\<And>b. va_ok b \<Longrightarrow> leaf_val u T' b = (if b = a then PA2PTE f OR perm a OR PTE_V else leaf_val t T b)"
  shows "allocs s0 T0 ps0 u T' qs (insert a B) perm cont \<and> insert a B \<subseteq> mapped u T' lim"
proof -
  have ok: "page_ok s f" using vm_invD(2) [OF as_invD(1) [OF inv]] by (simp add: kmem_inv_def)
  have fa: "frame u T' a = f"
    using u(3) [OF a(1)] leaf_PTE2PA [OF page_ok_aligned [OF ok] page_ok_small [OF ok] perm] by (simp add: frame_def)
  have vB: "va_ok b \<and> b \<noteq> a" if "b \<in> B" for b using that B a(3) by (auto simp: mapped_def)
  have fb: "frame u T' b = frame s T b" and lb: "leaf_val u T' b = leaf_val s T b" if "b \<in> B" for b
    using u(3) vB [OF that] t(2) by (simp_all add: frame_def)
  have sub: "insert a B \<subseteq> mapped u T' lim"
    using B a lb u(3) [OF a(1)] by (auto simp: mapped_def)
  have pages: "set qs \<union> ran T' = set ps \<union> ran T" using u(2) by (auto simp: pt_frame_def)
  have same: "phys u x = phys t x" if "\<forall>p\<in>set ps \<union> ran T. \<not> in_page p x" for x
  proof -
    have "\<forall>p\<in>ran T'. \<not> in_page p x" using that u(2) unfolding pt_frame_def by blast
    then show ?thesis using u(2) by (simp add: pt_frame_def)
  qed
  have fill: "phys u x = cont b (x - frame u T' b)" if "b \<in> insert a B" "in_page (frame u T' b) x" for b x
  proof (cases "b = a")
    case True
    then have "in_page f x" using that(2) fa by simp
    moreover have "phys u x = phys t x"
      using owned_outside [OF u(1) _ that(2)] sub that(1) unfolding pages by (intro same) blast
    ultimately show ?thesis using t(4) True fa by simp
  next
    case False
    with that have b: "b \<in> B" "in_page (frame s T b) x" using fb by auto
    then have out: "\<forall>p\<in>set (f # ps) \<union> ran T. \<not> in_page p x" using owned_outside [OF inv] B by blast
    then have "phys u x = phys s x" using same t(3) by simp
    then show ?thesis using al b fb by (simp add: allocs_def)
  qed
  have img: "frame u T' ` insert a B = insert f (frame s T ` B)" using fa fb by auto
  have outside: "phys u x = phys s0 x" if x: "\<forall>p\<in>set ps0 \<union> ran T0. \<not> in_page p x" for x
  proof -
    have "\<forall>p\<in>set (f # ps) \<union> ran T. \<not> in_page p x" using x al by (auto simp: allocs_def)
    then have "phys u x = phys s x" using same t(3) by simp
    with x al show ?thesis by (simp add: allocs_def)
  qed
  have "allocs s0 T0 ps0 u T' qs (insert a B) perm cont"
    unfolding allocs_def
  proof (intro conjI)
    show "mach_ext s0 u" using al t(1) u(2) by (auto simp: allocs_def pt_frame_def intro: mach_ext_trans)
    show "T0 \<subseteq>\<^sub>m T'" using al u(2) by (auto simp: allocs_def pt_frame_def intro: map_le_trans)
    show "set ps0 \<union> ran T0 = set qs \<union> ran T' \<union> frame u T' ` insert a B"
      using al unfolding img pages by (auto simp: allocs_def)
    show "\<forall>b\<in>insert a B. leaf_val u T' b = PA2PTE (frame u T' b) OR perm b OR PTE_V"
      using al fa fb lb u(3) [OF a(1)] by (auto simp: allocs_def)
    show "\<forall>b. va_ok b \<longrightarrow> b \<notin> insert a B \<longrightarrow> leaf_val u T' b = leaf_val s0 T0 b"
      using al u(3) t(2) by (simp add: allocs_def)
  qed (use fill outside in blast)+
  with sub show ?thesis by blast
qed

text \<open>Undoing a partial allocation.\<close>

lemma allocs_undo:
  assumes al: "allocs s0 T0 ps0 s T ps B perm cont" and un: "unmaps s T ps t qs a e" and m: "mapped_in s T a e = B"
    and C: "B \<subseteq> C" "\<And>b. b \<in> C \<Longrightarrow> va_ok b \<and> \<not> valid (leaf_val s0 T0 b)"
  shows "undone s0 T0 ps0 t T qs C"
  unfolding undone_def
proof (intro conjI)
  show "mach_ext s0 t" using al un by (auto simp: allocs_def unmaps_def intro: mach_ext_trans)
  show "T0 \<subseteq>\<^sub>m T" using al by (simp add: allocs_def)
  show "set ps0 \<union> ran T0 = set qs \<union> ran T" using al un by (auto simp: allocs_def unmaps_def m)
  show "\<forall>b\<in>C. \<not> valid (leaf_val t T b)" using al un C(2) by (auto simp: allocs_def unmaps_def m)
  show "\<forall>b. va_ok b \<longrightarrow> b \<notin> C \<longrightarrow> leaf_val t T b = leaf_val s0 T0 b"
    using al un C(1) by (auto simp: allocs_def unmaps_def m)
  show "\<forall>x. (\<forall>p\<in>set ps0 \<union> ran T0. \<not> in_page p x) \<longrightarrow> phys t x = phys s0 x"
  proof (intro allI impI)
    fix x
    assume x: "\<forall>p\<in>set ps0 \<union> ran T0. \<not> in_page p x"
    have "set ps0 \<union> ran T0 = set ps \<union> ran T \<union> frame s T ` B" using al by (simp add: allocs_def)
    with x have "\<forall>p\<in>ran T \<union> frame s T ` mapped_in s T a e. \<not> in_page p x" unfolding m by blast
    then have "phys t x = phys s x" using un by (simp add: unmaps_def)
    with x al show "phys t x = phys s0 x" by (simp add: allocs_def)
  qed
qed

lemma mapped_in_pages: "pages_in a e \<subseteq> mapped s T lim \<Longrightarrow> mapped_in s T a e = pages_in a e"
  by (auto simp: mapped_in_def pages_in_def mapped_def)

lemma uvmdealloc_undo:
  assumes al: "allocs s0 T0 ps0 s T ps (pages_in a0 a) perm cont" and inv: "as_inv s root T ps lim"
    and sub: "pages_in a0 a \<subseteq> mapped s T lim" and lim: "lim \<le> MAXVA" "a \<le> lim" and al0: "aligned a0" "aligned a" "a0 \<le> a"
    and C: "pages_in a0 a \<subseteq> C" "\<And>b. b \<in> C \<Longrightarrow> va_ok b \<and> \<not> valid (leaf_val s0 T0 b)"
  shows "\<exists>r t qs. uvmdealloc root a a0 s = Ret r t \<and> as_inv t root T qs lim \<and> undone s0 T0 ps0 t T qs C"
proof -
  have small: "unat b + 4095 < 2 ^ 64" "b \<le> MAXVA" if "b \<le> a" for b
    using that lim by (auto simp: word_le_nat_alt)
  have up: "PGROUNDUP a0 = a0" "PGROUNDUP a = a"
    using aligned_PGROUNDUP_id small al0 by auto
  obtain t qs where t: "uvmdealloc root a a0 s = Ret (min a a0) t" "as_inv t root T qs lim" "unmaps s T ps t qs a0 a"
    using uvmdealloc_spec [OF inv lim(1), of a a0] up small al0(3) lim(2) by auto
  then show ?thesis using allocs_undo [OF al t(3) mapped_in_pages [OF sub] C] by blast
qed

lemma pages_in_step:
  assumes "va_ok a" "a0 \<le> a"
  shows "pages_in a0 (a + PGSIZE) = insert a (pages_in a0 a)" "a \<notin> pages_in a0 a"
proof -
  have "b < a + PGSIZE \<longleftrightarrow> b = a \<or> b < a" if "va_ok b" for b
    using va_ok_le_next [OF assms(1) that] by (auto simp: not_le [symmetric] simp del: PGSIZE_def)
  then show "pages_in a0 (a + PGSIZE) = insert a (pages_in a0 a)"
    using assms by (auto simp: pages_in_def simp del: PGSIZE_def)
  show "a \<notin> pages_in a0 a" by (simp add: pages_in_def)
qed

lemma aligned_next_le:
  assumes "aligned a" "aligned b" "a < b" "a < MAXVA"
  shows "a + PGSIZE \<le> b"
proof -
  obtain i j where ij: "unat a = 4096 * i" "unat b = 4096 * j"
    using assms by (auto simp: aligned_unat elim!: dvdE)
  then have "i < j" using assms(3) by (simp add: word_less_nat_alt)
  then show ?thesis unfolding word_le_nat_alt using unat_next_page [OF assms(4)] ij by simp
qed

lemma pages_in_done:
  assumes "newsz \<le> MAXVA" "\<not> a < newsz" "a0 = a \<or> a \<le> PGROUNDUP newsz"
  shows "pages_in a0 a = pages_in a0 newsz"
proof -
  have "b < a \<longleftrightarrow> b < newsz" if "va_ok b" "a0 \<le> b" for b
    using assms(2,3) PGROUNDUP_le(4) [OF assms(1) that(1)] that(2)
    unfolding word_le_nat_alt word_less_nat_alt by (cases "a0 = a"; cases "unat newsz \<le> unat b"; simp)
  then show ?thesis by (auto simp: pages_in_def)
qed

text \<open>
  The common step of \<open>uvmalloc\<close> and \<open>uvmcopy\<close>: a fresh page \<open>f\<close>, filled with \<open>cont a\<close>,
  is mapped at \<open>a\<close>, or given back when no table page is left.
\<close>

lemma add_page:
  assumes al: "allocs s0 T0 ps0 s T (f # rs) B perm cont" and inv: "as_inv s root T (f # rs) lim"
    and sub: "B \<subseteq> mapped s T lim" and a: "va_ok a" "a < lim" "a \<notin> B" and perm: "unat (perm a) < 2 ^ 10"
    and t: "kalloc s = Ret f t" and m: "\<forall>x. \<not> in_page f x \<longrightarrow> m x = phys t x" "\<forall>x. in_page f x \<longrightarrow> m x = cont a (x - f)"
  obtains (ok) u T' qs where "mappages root a PGSIZE f (perm a) (t\<lparr>phys := m\<rparr>) = Ret 0 u" "as_inv u root T' qs lim"
      "allocs s0 T0 ps0 u T' qs (insert a B) perm cont" "insert a B \<subseteq> mapped u T' lim"
  | (fail) u v T' qs where "mappages root a PGSIZE f (perm a) (t\<lparr>phys := m\<rparr>) = Ret (-1) u" "kfree f u = Ret () v"
      "as_inv v root T' qs lim" "allocs s0 T0 ps0 v T' qs B perm cont" "B \<subseteq> mapped v T' lim"
proof -
  have t': "mach_ext s t" "as_inv t root T rs lim" "unowned t T rs lim f"
      "leaf_val t T = leaf_val s T" "\<forall>x. \<not> in_page f x \<longrightarrow> phys t x = phys s x"
    using fresh_page [OF inv] t by auto
  let ?z = "t\<lparr>phys := m\<rparr>"
  have z: "as_inv ?z root T rs lim" "unowned ?z T rs lim f" "leaf_val ?z T = leaf_val t T" "mach_ext t ?z"
    using fill_page [OF t'(2,3), of m] m(1) by simp_all
  have lz: "leaf_val ?z T = leaf_val s T" using z(3) t'(4) by simp
  have mz: "phys ?z x = phys s x" if "\<not> in_page f x" for x using that m(1) t'(5) by simp
  have ez: "mach_ext s ?z" using t'(1) z(4) by (rule mach_ext_trans)
  show thesis
  proof (rule map_fresh [OF z(1,2) a(1) perm], goal_cases)
    case ok: (1 u T' qs)
    have "allocs s0 T0 ps0 u T' qs (insert a B) perm cont \<and> insert a B \<subseteq> mapped u T' lim"
      using m(2) by (intro allocs_step [OF al inv sub a perm ez lz mz _ ok(2,3,5)]) simp_all
    then show thesis using that(1) [OF ok(1,2)] by blast
  next
    case fl: (2 u T' qs)
    obtain v where v: "kfree f u = Ret () v" "mach_ext u v" "as_inv v root T' (f # qs) lim" "leaf_val v T' = leaf_val u T'"
        "\<forall>x. \<not> in_page f x \<longrightarrow> phys v x = phys u x"
      using release_page [OF fl(2,4)] by blast
    have g: "mach_ext ?z u" "T \<subseteq>\<^sub>m T'" "set qs \<union> ran T' = set rs \<union> ran T" "leaf_val u T' = leaf_val ?z T"
        "\<And>x. (\<forall>p\<in>ran T'. \<not> in_page p x) \<Longrightarrow> phys u x = phys ?z x"
      using fl(3) by (auto simp: pt_grow_def pt_frame_def)
    have lv: "leaf_val v T' = leaf_val s T" using v(4) g(4) lz by simp
    have "allocs s0 T0 ps0 v T' (f # qs) B perm cont"
    proof (rule allocs_grow [OF al inv sub _ g(2) _ lv])
      show "mach_ext s v" using ez g(1) v(2) by (blast intro: mach_ext_trans)
      show "set (f # qs) \<union> ran T' = set (f # rs) \<union> ran T" using g(3) by auto
      fix x
      assume x: "\<forall>p\<in>set (f # rs) \<union> ran T. \<not> in_page p x"
      then have "\<forall>p\<in>ran T'. \<not> in_page p x" using g(3) by auto
      then show "phys v x = phys s x" using x v(5) g(5) mz by simp
    qed
    moreover have "B \<subseteq> mapped v T' lim" using sub mapped_cong [OF lv] by simp
    ultimately show thesis using that(2) [OF fl(1) v(1,3)] by blast
  qed
qed

text \<open>One round of the loop of \<open>uvmalloc\<close>: a page is added, or a page or a table page is missing.\<close>

lemma uvmalloc_round:
  assumes al: "allocs s0 T0 ps0 s T ps (pages_in a0 a) (\<lambda>_. PTE_R OR PTE_U OR xperm) (\<lambda>_ _. 0)"
    and inv: "as_inv s root T ps lim" and sub: "pages_in a0 a \<subseteq> mapped s T lim"
    and a: "va_ok a" "a < lim" "a0 \<le> a" "a < newsz" and perm: "unat (PTE_R OR PTE_U OR xperm) < 2 ^ 10"
  obtains (ok) t T' qs where "as_inv t root T' qs lim" "pages_in a0 (a + PGSIZE) \<subseteq> mapped t T' lim"
      "allocs s0 T0 ps0 t T' qs (pages_in a0 (a + PGSIZE)) (\<lambda>_. PTE_R OR PTE_U OR xperm) (\<lambda>_ _. 0)"
      "uvmalloc_from root a a0 newsz xperm s = uvmalloc_from root (a + PGSIZE) a0 newsz xperm t"
  | (fail) t T' qs where "as_inv t root T' qs lim" "pages_in a0 a \<subseteq> mapped t T' lim"
      "allocs s0 T0 ps0 t T' qs (pages_in a0 a) (\<lambda>_. PTE_R OR PTE_U OR xperm) (\<lambda>_ _. 0)"
      "uvmalloc_from root a a0 newsz xperm s = bindo (uvmdealloc root a a0 t) (\<lambda>_ s. Ret 0 s)"
proof (cases ps)
  case Nil
  then have "kalloc s = Ret 0 s" using kalloc_Nil vm_invD(2) [OF as_invD(1) [OF inv]] by blast
  then have "uvmalloc_from root a a0 newsz xperm s = bindo (uvmdealloc root a a0 s) (\<lambda>_ s. Ret 0 s)"
    using a(4) by (simp add: uvmalloc_from.simps [of root a])
  with fail [OF inv sub al] show thesis .
next
  case (Cons f rs)
  let ?perm = "PTE_R OR PTE_U OR xperm"
  obtain t where t: "kalloc s = Ret f t" "f \<noteq> 0" "unowned t T rs lim f"
    using fresh_page [OF inv [unfolded Cons]] by blast
  have alf: "aligned f" using t(3) by (auto simp: unowned_def page_ok_aligned)
  have run: "uvmalloc_from root a a0 newsz xperm s = bindo (mappages root a PGSIZE f ?perm (zero_page f t)) (\<lambda>r s.
      if r \<noteq> 0 then bindo (kfree f s) (\<lambda>_ s. bindo (uvmdealloc root a a0 s) (\<lambda>_ s. Ret 0 s))
      else uvmalloc_from root (a + PGSIZE) a0 newsz xperm s)"
    using a(4) t(1,2) by (simp add: uvmalloc_from.simps [of root a] del: PGSIZE_def)
  have m: "\<forall>x. \<not> in_page f x \<longrightarrow> memset (phys t) f 0 4096 x = phys t x"
      "\<forall>x. in_page f x \<longrightarrow> memset (phys t) f 0 4096 x = 0"
    using alf by (simp_all add: memset_page)
  show thesis
  proof (rule add_page [OF al [unfolded Cons] inv [unfolded Cons] sub a(1,2) pages_in_step(2) [OF a(1,3)] perm t(1) m],
      goal_cases)
    case (1 u T' qs)
    then show thesis
      using that(1) [OF 1(2)] run by (simp add: pages_in_step(1) [OF a(1,3)] zero_page_def del: PGSIZE_def)
  next
    case (2 u v T' qs)
    then show thesis using that(2) [OF 2(3,5,4)] run by (simp add: zero_page_def)
  qed
qed

lemma uvmalloc_from_spec:
  assumes "allocs s0 T0 ps0 s T ps (pages_in a0 a) (\<lambda>_. PTE_R OR PTE_U OR xperm) (\<lambda>_ _. 0)"
    and "as_inv s root T ps lim" and "pages_in a0 a \<subseteq> mapped s T lim"
    and "aligned a" "a0 \<le> a" "a0 = a \<or> a \<le> PGROUNDUP newsz"
    and "aligned a0" "lim \<le> MAXVA" "PGROUNDUP newsz \<le> lim" "newsz \<le> MAXVA" "a0 \<le> lim"
    and "\<And>b. b \<in> pages_in a0 newsz \<Longrightarrow> \<not> valid (leaf_val s0 T0 b)"
    and "unat (PTE_R OR PTE_U OR xperm) < 2 ^ 10"
  shows "\<exists>t T' qs. as_inv t root T' qs lim \<and>
    (uvmalloc_from root a a0 newsz xperm s = Ret newsz t \<and>
       allocs s0 T0 ps0 t T' qs (pages_in a0 newsz) (\<lambda>_. PTE_R OR PTE_U OR xperm) (\<lambda>_ _. 0) \<or>
     uvmalloc_from root a a0 newsz xperm s = Ret 0 t \<and> undone s0 T0 ps0 t T' qs (pages_in a0 newsz))"
  using assms
proof (induction "unat MAXVA - unat a" arbitrary: a s T ps rule: less_induct)
  case less
  note al = less.prems(1) and inv = less.prems(2) and sub = less.prems(3)
  note a = less.prems(4-6) and lim = less.prems(7-11) and free = less.prems(12) and perm = less.prems(13)
  show ?case
  proof (cases "a < newsz")
    case False
    then have "uvmalloc_from root a a0 newsz xperm s = Ret newsz s" by (simp add: uvmalloc_from.simps)
    with al inv pages_in_done [OF lim(4) False a(3)] show ?thesis by auto
  next
    case True
    have va: "va_ok a" "a < lim"
      using True a(1) lim PGROUNDUP_le(1) [OF lim(4)]
      by (auto simp: va_ok_def word_le_nat_alt word_less_nat_alt)
    show ?thesis
    proof (rule uvmalloc_round [OF al inv sub va a(2) True perm], goal_cases)
      case ok: (1 t T' qs)
      have "unat MAXVA - unat (a + PGSIZE) < unat MAXVA - unat a"
        using va(1) by (intro next_page_measure) (simp add: va_ok_def)
      moreover have "a + PGSIZE \<le> PGROUNDUP newsz"
        using True a(1) va(1) PGROUNDUP_le(1,3) [OF lim(4)]
        by (intro aligned_next_le) (auto simp: va_ok_def word_le_nat_alt word_less_nat_alt)
      moreover have "aligned (a + PGSIZE)" "a0 \<le> a + PGSIZE"
        using va_ok_next [OF va(1)] a(2) by (auto simp: word_le_nat_alt)
      ultimately show ?thesis
        unfolding ok(4) by (intro less.hyps [OF _ ok(3,1,2)]) (use lim free perm in auto)
    next
      case fl: (2 t T' qs)
      have "pages_in a0 a \<subseteq> pages_in a0 newsz" using True by (auto simp: pages_in_def)
      moreover have "\<And>b. b \<in> pages_in a0 newsz \<Longrightarrow> va_ok b \<and> \<not> valid (leaf_val s0 T0 b)"
        using free by (auto simp: pages_in_def)
      ultimately obtain r u rs where "uvmdealloc root a a0 t = Ret r u" "as_inv u root T' rs lim"
          "undone s0 T0 ps0 u T' rs (pages_in a0 newsz)"
        using uvmdealloc_undo [OF fl(3,1,2) lim(2) less_imp_le [OF va(2)] lim(1) a(1,2)] by blast
      then show ?thesis unfolding fl(4) by auto
    qed
  qed
qed

lemma PTE_perm_small: "unat xperm < 2 ^ 10 \<Longrightarrow> unat (PTE_R OR PTE_U OR xperm) < 2 ^ 10"
  by (intro unat_or_less) (simp_all add: PTE_R_def PTE_U_def)

text \<open>
  C11: growing a process from \<open>oldsz\<close> to \<open>newsz\<close> either maps every page of the range to a zeroed
  page of its own and returns \<open>newsz\<close>, or returns 0 with every page it took given back; either
  way no frame is shared, no page is lost, and no other mapping or memory changes.
\<close>

theorem uvmalloc_grows_or_undoes:
  assumes inv: "as_inv s root T ps lim" and lim: "lim \<le> MAXVA" "PGROUNDUP newsz \<le> lim" "newsz \<le> MAXVA"
    and sz: "oldsz \<le> newsz" and free: "\<And>b. b \<in> pages_in (PGROUNDUP oldsz) newsz \<Longrightarrow> \<not> valid (leaf_val s T b)"
    and perm: "unat xperm < 2 ^ 10"
  shows "\<exists>t T' qs. as_inv t root T' qs lim \<and>
    (uvmalloc root oldsz newsz xperm s = Ret newsz t \<and>
       allocs s T ps t T' qs (pages_in (PGROUNDUP oldsz) newsz) (\<lambda>_. PTE_R OR PTE_U OR xperm) (\<lambda>_ _. 0) \<or>
     uvmalloc root oldsz newsz xperm s = Ret 0 t \<and> undone s T ps t T' qs (pages_in (PGROUNDUP oldsz) newsz))"
proof -
  have old: "oldsz \<le> MAXVA" using sz lim(3) by (rule order.trans)
  have small: "unat b + 4095 < 2 ^ 64" if "b \<le> MAXVA" for b using that by (simp add: word_le_nat_alt)
  have "PGROUNDUP oldsz \<le> PGROUNDUP newsz"
    using sz unat_PGROUNDUP [OF small [OF old]] unat_PGROUNDUP [OF small [OF lim(3)]]
    by (simp add: word_le_nat_alt div_le_mono)
  then have a0: "PGROUNDUP oldsz \<le> lim" using lim(2) by (rule order.trans)
  have e: "pages_in (PGROUNDUP oldsz) (PGROUNDUP oldsz) = {}" by (auto simp: pages_in_def)
  have "uvmalloc root oldsz newsz xperm s = uvmalloc_from root (PGROUNDUP oldsz) (PGROUNDUP oldsz) newsz xperm s"
    using sz by (simp add: uvmalloc_def Let_def not_le [symmetric])
  then show ?thesis
    using uvmalloc_from_spec [OF _ inv _ PGROUNDUP_le(3) [OF old] order.refl disjI1 [OF refl] PGROUNDUP_le(3) [OF old]
        lim a0 free PTE_perm_small [OF perm]] by (simp add: e)
qed

lemma sample_as_inv:
  "as_inv sample_mach 0x80200000 [[] \<mapsto> 0x80200000] [0x80201000, 0x80202000, 0x80203000] 0x10000"
proof -
  have "leaf_val sample_mach [[] \<mapsto> 0x80200000] a = 0" for a by (simp add: leaf_val_def leaf_path_def)
  then show ?thesis using sample_vm_inv by (simp add: as_inv_def mapped_def)
qed

theorem uvmalloc_grows_or_undoes_witness:
  "\<exists>t T' qs. as_inv t 0x80200000 T' qs 0x10000 \<and>
    (uvmalloc 0x80200000 0 0x1800 PTE_W sample_mach = Ret 0x1800 t \<and>
       allocs sample_mach [[] \<mapsto> 0x80200000] [0x80201000, 0x80202000, 0x80203000] t T' qs
         (pages_in (PGROUNDUP 0) 0x1800) (\<lambda>_. PTE_R OR PTE_U OR PTE_W) (\<lambda>_ _. 0) \<or>
     uvmalloc 0x80200000 0 0x1800 PTE_W sample_mach = Ret 0 t \<and>
       undone sample_mach [[] \<mapsto> 0x80200000] [0x80201000, 0x80202000, 0x80203000] t T' qs
         (pages_in (PGROUNDUP 0) 0x1800))"
  by (rule uvmalloc_grows_or_undoes [OF sample_as_inv])
    (simp_all add: MAXVA_def PGROUNDUP_def leaf_val_def leaf_path_def PTE_W_def)

end
