(* ===== verification/Vm_Copy.thy ===== *)
theory Vm_Copy
  imports Vm_Space
begin

text \<open>
  The address-space copy of fork, kernel/vm.c \<open>uvmcopy\<close>: the child gets its own
  frame, with the same bytes and permissions, for every page the parent has
  mapped, and the parent's table and memory are not touched. Pages that the
  parent has not touched yet, or that are swapped out, are not copied.
\<close>

unbundle bit_operations_syntax

text \<open>
  \<open>parent_ok\<close>: the parent's table and frames are disjoint from the free pages
  \<open>ps\<close> and from the pages of the child's table.
\<close>

definition parent_ok :: "'a mach_scheme \<Rightarrow> u64 \<Rightarrow> pt_tree \<Rightarrow> u64 set \<Rightarrow> u64 \<Rightarrow> bool" where
  "parent_ok s old To A sz \<longleftrightarrow> pt_inv s old To \<and> ran To \<inter> A = {} \<and>
     (\<forall>b\<in>mapped_in s To 0 sz. page_ok s (frame s To b) \<and> frame s To b \<notin> A)"

text \<open>The permissions and contents each copied page must have.\<close>

definition copy_perm :: "'a mach_scheme \<Rightarrow> pt_tree \<Rightarrow> u64 \<Rightarrow> u64" where
  "copy_perm s To b = PTE_FLAGS (leaf_val s To b)"

definition copy_cont :: "'a mach_scheme \<Rightarrow> pt_tree \<Rightarrow> u64 \<Rightarrow> u64 \<Rightarrow> u8" where
  "copy_cont s To b k = phys s (frame s To b + k)"

lemma PTE_FLAGS_small: "unat (PTE_FLAGS v) < 2 ^ 10"
proof -
  have m: "(0x3FF :: u64) = mask 10" by (simp add: mask_eq_exp_minus_1)
  show ?thesis
    unfolding PTE_FLAGS_def m take_bit_eq_mask [symmetric] unsigned_take_bit_eq by (rule take_bit_nat_less_exp)
qed

lemma pages_aligned:
  assumes "vm_inv s root T ps" "p \<in> set ps \<union> ran T"
  shows "aligned p"
  using assms pt_page [OF vm_invD(1) [OF assms(1)]] vm_invD(2) [OF assms(1)]
  by (auto simp: ran_def kmem_inv_def page_ok_def)

text \<open>Work on the child's side leaves the parent's table and pages alone.\<close>

lemma parent_stable:
  assumes par: "parent_ok s old To A sz" and al: "\<And>p. p \<in> A \<Longrightarrow> aligned p" and ext: "mach_ext s t"
    and mem: "\<And>x. (\<forall>p\<in>A. \<not> in_page p x) \<Longrightarrow> phys t x = phys s x"
  shows "pt_inv t old To" "leaf_val t To = leaf_val s To"
    "b \<in> mapped_in s To 0 sz \<Longrightarrow> in_page (frame s To b) x \<Longrightarrow> phys t x = phys s x"
proof -
  have pt: "pt_inv s old To" using par by (simp add: parent_ok_def)
  have keep: "phys t x = phys s x" if "aligned p" "p \<notin> A" "in_page p x" for p x
    using that al in_page_disjoint by (intro mem) blast
  have "phys t x = phys s x" if "p \<in> ran To" "in_page p x" for p x
    using that par page_ok_aligned [OF pt_page [OF pt]] by (intro keep [of p]) (auto simp: parent_ok_def ran_def)
  then show "pt_inv t old To" "leaf_val t To = leaf_val s To" using pt_inv_frame [OF pt ext] by blast+
  show "b \<in> mapped_in s To 0 sz \<Longrightarrow> in_page (frame s To b) x \<Longrightarrow> phys t x = phys s x"
    using par by (intro keep [of "frame s To b"]) (auto simp: parent_ok_def page_ok_aligned)
qed

lemma memmove_page:
  assumes "aligned p" "aligned q" "unat p < 2 ^ 54" "unat q < 2 ^ 54"
  shows "memmove m q p 4096 x = (if in_page q x then m (p + (x - q)) else m x)"
proof -
  have "memmove m q p 4096 = mwrite m q (mread m p 4096)"
    using assms by (intro memmove_eq_mwrite) simp_all
  then show ?thesis by (simp add: mwrite_mread_apply in_page_def)
qed

lemma mapped_in_next:
  assumes i: "va_ok i"
  shows "mapped_in s To 0 (i + PGSIZE) = (if valid (leaf_val s To i) then insert i (mapped_in s To 0 i) else mapped_in s To 0 i)"
    "i \<notin> mapped_in s To 0 i"
proof -
  have "b < i + PGSIZE \<longleftrightarrow> b = i \<or> b < i" if "va_ok b" for b
    using va_ok_le_next [OF i that] by (auto simp: not_le [symmetric] simp del: PGSIZE_def)
  then show "mapped_in s To 0 (i + PGSIZE) = (if valid (leaf_val s To i) then insert i (mapped_in s To 0 i) else mapped_in s To 0 i)"
    using i by (auto simp: mapped_in_def simp del: PGSIZE_def)
  show "i \<notin> mapped_in s To 0 i" by (simp add: mapped_in_def)
qed

text \<open>One round of the loop: the page is absent, copied, or memory is exhausted.\<close>

lemma uvmcopy_round:
  assumes par: "parent_ok s0 old To (set ps0 \<union> ran T0) sz" and inv0: "as_inv s0 new T0 ps0 lim"
    and al: "allocs s0 T0 ps0 s T ps (mapped_in s0 To 0 i) (copy_perm s0 To) (copy_cont s0 To)"
    and inv: "as_inv s new T ps lim" and sub: "mapped_in s0 To 0 i \<subseteq> mapped s T lim"
    and i: "va_ok i" "i < lim" "i < sz"
  obtains (go) t T' qs where "as_inv t new T' qs lim" "mapped_in s0 To 0 (i + PGSIZE) \<subseteq> mapped t T' lim"
      "allocs s0 T0 ps0 t T' qs (mapped_in s0 To 0 (i + PGSIZE)) (copy_perm s0 To) (copy_cont s0 To)"
      "uvmcopy_from old new i sz s = uvmcopy_from old new (i + PGSIZE) sz t"
  | (fail) t T' qs where "as_inv t new T' qs lim" "mapped_in s0 To 0 i \<subseteq> mapped t T' lim"
      "allocs s0 T0 ps0 t T' qs (mapped_in s0 To 0 i) (copy_perm s0 To) (copy_cont s0 To)"
      "uvmcopy_from old new i sz s = bindo (uvmunmap new 0 (i div PGSIZE) True t) (\<lambda>_ s. Ret (-1) s)"
proof -
  let ?A = "set ps0 \<union> ran T0"
  have ext: "mach_ext s0 s" and mem: "\<And>x. (\<forall>p\<in>?A. \<not> in_page p x) \<Longrightarrow> phys s x = phys s0 x"
    and pages: "?A = set ps \<union> ran T \<union> frame s T ` mapped_in s0 To 0 i"
    using al by (simp_all add: allocs_def)
  have st: "pt_inv s old To" "leaf_val s To = leaf_val s0 To"
      "\<And>b x. b \<in> mapped_in s0 To 0 sz \<Longrightarrow> in_page (frame s0 To b) x \<Longrightarrow> phys s x = phys s0 x"
    using parent_stable [OF par pages_aligned [OF as_invD(1) [OF inv0]] ext] mem by blast+
  let ?v = "leaf_val s0 To i"
  have w: "walk old i False s = Ret (leaf_addr To i) s"
    using walk_lookup [OF st(1)] i(1) by (simp add: va_ok_def)
  have kend: "0 < kend s" using vm_invD(4) [OF as_invD(1) [OF inv]] .
  show thesis
  proof (cases "valid ?v")
    case False
    have "leaf_addr To i = 0 \<or> load64 (phys s) (leaf_addr To i) AND PTE_V = 0"
      using False load_leaf_addr [of To i s] st(2) by (cases "leaf_addr To i = 0") (auto simp: valid_def)
    then have "uvmcopy_from old new i sz s = uvmcopy_from old new (i + PGSIZE) sz s"
      using w i(3) by (auto simp: uvmcopy_from.simps [of old new i] simp del: PGSIZE_def)
    with go [OF inv] sub al False show thesis by (simp add: mapped_in_next [OF i(1)] del: PGSIZE_def)
  next
    case True
    have nz: "leaf_addr To i \<noteq> 0"
      using leaf_val_absent [OF st(1) kend] True st(2) by auto
    have ld: "load64 (phys s) (leaf_addr To i) = ?v" using load_leaf_addr [OF nz, of s] st(2) by simp
    let ?pa = "frame s0 To i" and ?fl = "copy_perm s0 To i"
    have im: "i \<in> mapped_in s0 To 0 sz" using i True by (simp add: mapped_in_def)
    have pa: "page_ok s0 ?pa" "?pa \<notin> ?A" using par im by (auto simp: parent_ok_def)
    have run: "uvmcopy_from old new i sz s = bindo (kalloc s) (\<lambda>mem s.
        if mem = 0 then bindo (uvmunmap new 0 (i div PGSIZE) True s) (\<lambda>_ s. Ret (-1) s)
        else bindo (mappages new i PGSIZE mem ?fl (s\<lparr>phys := memmove (phys s) mem ?pa 4096\<rparr>)) (\<lambda>r s.
          if r \<noteq> 0 then bindo (kfree mem s) (\<lambda>_ s. bindo (uvmunmap new 0 (i div PGSIZE) True s) (\<lambda>_ s. Ret (-1) s))
          else uvmcopy_from old new (i + PGSIZE) sz s))"
      unfolding copy_perm_def frame_def using w i(3) nz ld True
      by (simp add: uvmcopy_from.simps [of old new i] valid_def Let_def del: PGSIZE_def)
    show thesis
    proof (cases ps)
      case Nil
      then have "kalloc s = Ret 0 s" using kalloc_Nil vm_invD(2) [OF as_invD(1) [OF inv]] by blast
      with run fail [OF inv sub al] show thesis by simp
    next
      case (Cons f rs)
      obtain t where t: "kalloc s = Ret f t" "f \<noteq> 0" "unowned t T rs lim f" "mach_ext s t"
          "\<forall>x. \<not> in_page f x \<longrightarrow> phys t x = phys s x"
        using fresh_page [OF inv [unfolded Cons]] by blast
      have f: "aligned f" "unat f < 2 ^ 54"
        using t(3) page_ok_aligned [of t f] page_ok_small [of t f] by (auto simp: unowned_def)
      have pf: "aligned ?pa" "unat ?pa < 2 ^ 54" "?pa \<noteq> f"
        using page_ok_aligned [OF pa(1)] page_ok_small [OF pa(1)] pa(2) pages Cons by auto
      note mv = memmove_page [OF pf(1) f(1) pf(2) f(2)]
      have m: "\<forall>x. \<not> in_page f x \<longrightarrow> memmove (phys t) f ?pa 4096 x = phys t x"
          "\<forall>x. in_page f x \<longrightarrow> memmove (phys t) f ?pa 4096 x = copy_cont s0 To i (x - f)"
      proof -
        show "\<forall>x. \<not> in_page f x \<longrightarrow> memmove (phys t) f ?pa 4096 x = phys t x" by (simp add: mv)
        have "phys t (?pa + (x - f)) = phys s0 (?pa + (x - f))" if "in_page f x" for x
        proof -
          have inpa: "in_page ?pa (?pa + (x - f))" using that by (simp add: in_page_def)
          then have "\<not> in_page f (?pa + (x - f))" using in_page_disjoint pf f(1) by blast
          then show ?thesis using t(5) st(3) [OF im inpa] by simp
        qed
        then show "\<forall>x. in_page f x \<longrightarrow> memmove (phys t) f ?pa 4096 x = copy_cont s0 To i (x - f)"
          by (simp add: mv copy_cont_def)
      qed
      have perm: "unat ?fl < 2 ^ 10" unfolding copy_perm_def by (rule PTE_FLAGS_small)
      show thesis
      proof (rule add_page [OF al [unfolded Cons] inv [unfolded Cons] sub i(1,2) mapped_in_next(2) [OF i(1)] perm t(1) m],
          goal_cases)
        case (1 u T' qs)
        then show thesis using go [OF 1(2)] run t(1,2) True by (simp add: mapped_in_next(1) [OF i(1)] del: PGSIZE_def)
      next
        case (2 u v T' qs)
        then show thesis using fail [OF 2(3,5,4)] run t(1,2) by simp
      qed
    qed
  qed
qed

lemma uvmunmap_undo:
  assumes al: "allocs s0 T0 ps0 s T ps B perm cont" and inv: "as_inv s root T ps lim"
    and B: "B \<subseteq> mapped s T lim" "B = {b \<in> pages_in 0 i. valid (leaf_val s T b)}"
    and lim: "lim \<le> MAXVA" "i \<le> lim" and i: "aligned i"
    and C: "B \<subseteq> C" "\<And>b. b \<in> C \<Longrightarrow> va_ok b \<and> \<not> valid (leaf_val s0 T0 b)"
  shows "\<exists>t qs. uvmunmap root 0 (i div PGSIZE) True s = Ret () t \<and> as_inv t root T qs lim \<and> undone s0 T0 ps0 t T qs C"
proof -
  have "i div PGSIZE * PGSIZE = i" using i unfolding aligned_def by (metis add.right_neutral div_mult_mod_eq)
  then have "uvmunmap root 0 (i div PGSIZE) True s = uvmunmap_from root 0 i True s"
    by (simp add: uvmunmap_def)
  moreover have "aligned 0" by (simp add: aligned_def)
  then obtain t qs where t: "uvmunmap_from root 0 i True s = Ret () t" "as_inv t root T qs lim" "unmaps s T ps t qs 0 i"
    using uvmunmap_from_spec [OF inv _ lim(2,1)] by blast
  moreover have "mapped_in s T 0 i = B" by (auto simp: B(2) mapped_in_def pages_in_def)
  ultimately show ?thesis using allocs_undo [OF al t(3) _ C] by auto
qed

lemma uvmcopy_from_spec:
  assumes "parent_ok s0 old To (set ps0 \<union> ran T0) sz" "as_inv s0 new T0 ps0 lim"
    and "lim \<le> MAXVA" "sz \<le> lim" "\<And>b. b \<in> pages_in 0 sz \<Longrightarrow> \<not> valid (leaf_val s0 T0 b)"
    and "allocs s0 T0 ps0 s T ps (mapped_in s0 To 0 i) (copy_perm s0 To) (copy_cont s0 To)"
    and "as_inv s new T ps lim" "mapped_in s0 To 0 i \<subseteq> mapped s T lim" "aligned i"
    and "mapped_in s0 To 0 i \<subseteq> mapped_in s0 To 0 sz"
  shows "\<exists>t T' qs. as_inv t new T' qs lim \<and>
    (uvmcopy_from old new i sz s = Ret 0 t \<and>
       allocs s0 T0 ps0 t T' qs (mapped_in s0 To 0 sz) (copy_perm s0 To) (copy_cont s0 To) \<or>
     uvmcopy_from old new i sz s = Ret (-1) t \<and> undone s0 T0 ps0 t T' qs (pages_in 0 sz))"
  using assms(6-10)
proof (induction "unat MAXVA - unat i" arbitrary: i s T ps rule: less_induct)
  case less
  note al = less.prems(1) and inv = less.prems(2) and sub = less.prems(3) and i = less.prems(4,5)
  show ?case
  proof (cases "i < sz")
    case False
    then have "mapped_in s0 To 0 i = mapped_in s0 To 0 sz" using i(2) by (force simp: mapped_in_def)
    moreover have "uvmcopy_from old new i sz s = Ret 0 s" using False by (simp add: uvmcopy_from.simps)
    ultimately show ?thesis using al inv by auto
  next
    case True
    have va: "va_ok i" "i < lim"
      using True assms(3,4) i(1) by (auto simp: va_ok_def)
    show ?thesis
    proof (rule uvmcopy_round [OF assms(1,2) al inv sub va True], goal_cases)
      case (1 t T' qs)
      have "unat MAXVA - unat (i + PGSIZE) < unat MAXVA - unat i"
        using va(1) by (intro next_page_measure) (simp add: va_ok_def)
      moreover have "mapped_in s0 To 0 (i + PGSIZE) \<subseteq> mapped_in s0 To 0 sz"
        using i(2) True va(1) by (auto simp: mapped_in_next(1) [OF va(1)] simp del: PGSIZE_def) (simp add: mapped_in_def)
      moreover have "aligned (i + PGSIZE)" using va_ok_next [OF va(1)] by simp
      ultimately show ?thesis unfolding 1(4) by (intro less.hyps [OF _ 1(3,1,2)])
    next
      case (2 t T' qs)
      let ?B = "mapped_in s0 To 0 i"
      have "valid (leaf_val t T' b) \<longleftrightarrow> b \<in> ?B" if "b \<in> pages_in 0 i" for b
      proof (cases "b \<in> ?B")
        case True
        then show ?thesis using 2(2) by (auto simp: mapped_def)
      next
        case False
        have "b \<in> pages_in 0 sz" using that \<open>i < sz\<close> by (auto simp: pages_in_def)
        then show ?thesis using False 2(3) assms(5) that by (auto simp: allocs_def pages_in_def)
      qed
      then have B: "?B = {b \<in> pages_in 0 i. valid (leaf_val t T' b)}" by (auto simp: mapped_in_def pages_in_def)
      have "?B \<subseteq> pages_in 0 sz" using True by (auto simp: mapped_in_def pages_in_def)
      moreover have "\<And>b. b \<in> pages_in 0 sz \<Longrightarrow> va_ok b \<and> \<not> valid (leaf_val s0 T0 b)"
        using assms(5) by (auto simp: pages_in_def)
      ultimately obtain u rs where "uvmunmap new 0 (i div PGSIZE) True t = Ret () u" "as_inv u new T' rs lim"
          "undone s0 T0 ps0 u T' rs (pages_in 0 sz)"
        using uvmunmap_undo [OF 2(3,1,2) B assms(3) less_imp_le [OF va(2)] i(1)] by blast
      then show ?thesis unfolding 2(4) by auto
    qed
  qed
qed

text \<open>
  C3: copying an address space for fork returns 0 with every page the parent has mapped
  below \<open>sz\<close> mapped in the child to a page of its own with the same bytes and permissions, or
  returns -1 with everything undone; the parent's table and pages are unchanged.
\<close>

theorem uvmcopy_copies_or_undoes:
  assumes par: "parent_ok s old To (set ps \<union> ran T) sz" and inv: "as_inv s new T ps lim"
    and lim: "lim \<le> MAXVA" "sz \<le> lim" and free: "\<And>b. b \<in> pages_in 0 sz \<Longrightarrow> \<not> valid (leaf_val s T b)"
  shows "\<exists>r t T' qs. uvmcopy old new sz s = Ret r t \<and> as_inv t new T' qs lim \<and>
    (r = 0 \<and> allocs s T ps t T' qs (mapped_in s To 0 sz) (copy_perm s To) (copy_cont s To) \<or>
     r = -1 \<and> undone s T ps t T' qs (pages_in 0 sz)) \<and>
    pt_inv t old To \<and> leaf_val t To = leaf_val s To \<and>
    (\<forall>b x. b \<in> mapped_in s To 0 sz \<longrightarrow> in_page (frame s To b) x \<longrightarrow> phys t x = phys s x)"
proof -
  have e: "mapped_in s To 0 0 = {}" by (auto simp: mapped_in_def)
  have al0: "aligned 0" by (simp add: aligned_def)
  obtain t T' qs where t: "as_inv t new T' qs lim"
      "uvmcopy_from old new 0 sz s = Ret 0 t \<and>
         allocs s T ps t T' qs (mapped_in s To 0 sz) (copy_perm s To) (copy_cont s To) \<or>
       uvmcopy_from old new 0 sz s = Ret (-1) t \<and> undone s T ps t T' qs (pages_in 0 sz)"
    using uvmcopy_from_spec [OF par inv lim free, where i = 0 and s = s and T = T and ps = ps] inv al0 by (auto simp: e)
  have ext: "mach_ext s t" and mem: "\<And>x. (\<forall>p\<in>set ps \<union> ran T. \<not> in_page p x) \<Longrightarrow> phys t x = phys s x"
    using t(2) by (auto simp: allocs_def undone_def)
  have st: "pt_inv t old To" "leaf_val t To = leaf_val s To"
      "\<And>b x. b \<in> mapped_in s To 0 sz \<Longrightarrow> in_page (frame s To b) x \<Longrightarrow> phys t x = phys s x"
    using parent_stable [OF par pages_aligned [OF as_invD(1) [OF inv]] ext] mem by blast+
  from t(2) show ?thesis
  proof
    assume "uvmcopy_from old new 0 sz s = Ret 0 t \<and>
      allocs s T ps t T' qs (mapped_in s To 0 sz) (copy_perm s To) (copy_cont s To)"
    then show ?thesis using t(1) st unfolding uvmcopy_def
      by (intro exI [of _ 0] exI [of _ t] exI [of _ T'] exI [of _ qs]) simp
  next
    assume "uvmcopy_from old new 0 sz s = Ret (-1) t \<and> undone s T ps t T' qs (pages_in 0 sz)"
    then show ?thesis using t(1) st unfolding uvmcopy_def
      by (intro exI [of _ "-1"] exI [of _ t] exI [of _ T'] exI [of _ qs]) simp
  qed
qed

text \<open>A parent with an empty table at 0x80300000 beside the sample machine's table.\<close>

lemma sample_parent:
  "parent_ok sample_mach 0x80300000 [[] \<mapsto> 0x80300000]
     (set [0x80201000, 0x80202000, 0x80203000] \<union> ran [[] \<mapsto> (0x80200000 :: u64)]) 0x2000"
proof -
  have "load64 (phys sample_mach) (slot 0x80300000 j) = 0" if "unat j < 512" for j
    using that by (simp add: sample_mach_def aligned_def del: slot_0)
  then have "pt_inv sample_mach 0x80300000 [[] \<mapsto> 0x80300000]"
    unfolding pt_inv_def by (simp add: page_ok_def aligned_def sample_mach_def PHYSTOP_def KERNBASE_def)
  moreover have "leaf_val sample_mach [[] \<mapsto> 0x80300000] a = 0" for a by (simp add: leaf_val_def leaf_path_def)
  ultimately show ?thesis by (simp add: parent_ok_def mapped_in_def)
qed

theorem uvmcopy_copies_or_undoes_witness:
  "\<exists>r t T' qs. uvmcopy 0x80300000 0x80200000 0x2000 sample_mach = Ret r t \<and> as_inv t 0x80200000 T' qs 0x10000 \<and>
    pt_inv t 0x80300000 [[] \<mapsto> 0x80300000]"
  using uvmcopy_copies_or_undoes [OF sample_parent sample_as_inv]
  by (fastforce simp: MAXVA_def leaf_val_def leaf_path_def)

end
