(* ===== verification/Bio.thy ===== *)
theory Bio
  imports Kalloc
begin

text \<open>
  kernel/sleeplock.c and the buffer cache of kernel/bio.c: NBUF buffers with
  reference counts and sleep locks, kept in a list from most to least recently
  used, over a disk of 1024-byte blocks. The locale \<open>block_cache\<close> is what the
  log and the file system rely on: reads return the current contents of a
  block, whether it is cached or not, and a buffer is recycled only when
  nothing would be lost.
\<close>

section \<open>Sleep locks\<close>

record sleeplock =
  locked :: bool
  lpid :: int

definition initsleeplock :: sleeplock where
  "initsleeplock = \<lparr>locked = False, lpid = 0\<rparr>"

text \<open>\<open>None\<close>: the caller goes to sleep.\<close>

definition acquiresleep :: "int \<Rightarrow> sleeplock \<Rightarrow> sleeplock option" where
  "acquiresleep pid lk = (if locked lk then None else Some (lk\<lparr>locked := True, lpid := pid\<rparr>))"

definition releasesleep :: "sleeplock \<Rightarrow> sleeplock" where
  "releasesleep lk = lk\<lparr>locked := False, lpid := 0\<rparr>"

definition holdingsleep :: "int \<Rightarrow> sleeplock \<Rightarrow> bool" where
  "holdingsleep pid lk \<longleftrightarrow> locked lk \<and> lpid lk = pid"

section \<open>Buffers\<close>

definition NBUF :: nat where "NBUF = 30"
definition BSIZE :: nat where "BSIZE = 1024"

record buf =
  bvalid :: bool
  dev :: u32
  blockno :: u32
  block :: sleeplock
  refcnt :: u32
  bdata :: "u8 list"

text \<open>
  \<open>bufs\<close> is \<open>bcache.buf\<close>, \<open>lru\<close> the indices of the buffers in the order of the list
  that starts at \<open>bcache.head.next\<close>, \<open>disk\<close> the blocks of the disk (the driver
  ignores the device number), \<open>dwrites\<close> the history of disk writes, and \<open>cpid\<close>
  the pid of the running process.
\<close>

record bio = mach +
  bufs :: "buf list"
  lru :: "nat list"
  disk :: "u32 \<Rightarrow> u8 list"
  dwrites :: "(u32 \<times> u8 list) list"
  cpid :: int

definition binit :: "'a bio_scheme \<Rightarrow> 'a bio_scheme" where
  "binit s = s\<lparr>bufs := map (\<lambda>b. b\<lparr>block := initsleeplock\<rparr>) (bufs s), lru := rev [0..<NBUF]\<rparr>"

definition upd_buf :: "nat \<Rightarrow> (buf \<Rightarrow> buf) \<Rightarrow> 'a bio_scheme \<Rightarrow> 'a bio_scheme" where
  "upd_buf i f s = s\<lparr>bufs := (bufs s)[i := f (bufs s ! i)]\<rparr>"

text \<open>What the disk driver and the device do for one request: transfer the block.\<close>

definition disk_rw :: "nat \<Rightarrow> bool \<Rightarrow> 'a bio_scheme \<Rightarrow> 'a bio_scheme" where
  "disk_rw i wr s =
     (let b = bufs s ! i in
      if wr then s\<lparr>disk := (disk s)(blockno b := bdata b), dwrites := dwrites s @ [(blockno b, bdata b)]\<rparr>
      else upd_buf i (\<lambda>b. b\<lparr>bdata := disk s (blockno b)\<rparr>) s)"

definition lock_buf :: "nat \<Rightarrow> 'a bio_scheme \<Rightarrow> (nat, 'a bio_scheme) outcome" where
  "lock_buf i s =
     (case acquiresleep (cpid s) (block (bufs s ! i)) of
        None \<Rightarrow> Sleep (Named ''buffer'') s
      | Some lk \<Rightarrow> Ret i (upd_buf i (\<lambda>b. b\<lparr>block := lk\<rparr>) s))"

definition bget :: "u32 \<Rightarrow> u32 \<Rightarrow> 'a bio_scheme \<Rightarrow> (nat, 'a bio_scheme) outcome" where
  "bget d bn s =
     (case find (\<lambda>i. dev (bufs s ! i) = d \<and> blockno (bufs s ! i) = bn) (lru s) of
        Some i \<Rightarrow> lock_buf i (upd_buf i (\<lambda>b. b\<lparr>refcnt := refcnt b + 1\<rparr>) s)
      | None \<Rightarrow>
          (case find (\<lambda>i. refcnt (bufs s ! i) = 0) (rev (lru s)) of
             Some i \<Rightarrow> lock_buf i (upd_buf i (\<lambda>b. b\<lparr>dev := d, blockno := bn, bvalid := False, refcnt := 1\<rparr>) s)
           | None \<Rightarrow> Panic ''bget: no buffers''))"

definition bread :: "u32 \<Rightarrow> u32 \<Rightarrow> 'a bio_scheme \<Rightarrow> (nat, 'a bio_scheme) outcome" where
  "bread d bn s = bindo (bget d bn s) (\<lambda>i s.
     if \<not> bvalid (bufs s ! i)
     then Ret i (upd_buf i (\<lambda>b. b\<lparr>bvalid := True\<rparr>) (disk_rw i False s))
     else Ret i s)"

definition bwrite :: "nat \<Rightarrow> 'a bio_scheme \<Rightarrow> (unit, 'a bio_scheme) outcome" where
  "bwrite i s =
     (if \<not> holdingsleep (cpid s) (block (bufs s ! i)) then Panic ''bwrite''
      else Ret () (disk_rw i True s))"

definition brelse :: "nat \<Rightarrow> 'a bio_scheme \<Rightarrow> (unit, 'a bio_scheme) outcome" where
  "brelse i s =
     (if \<not> holdingsleep (cpid s) (block (bufs s ! i)) then Panic ''brelse''
      else let s = upd_buf i (\<lambda>b. b\<lparr>block := releasesleep (block b)\<rparr>) s;
               s = upd_buf i (\<lambda>b. b\<lparr>refcnt := refcnt b - 1\<rparr>) s
           in if refcnt (bufs s ! i) = 0 then Ret () (s\<lparr>lru := i # removeAll i (lru s)\<rparr>) else Ret () s)"

definition bpin :: "nat \<Rightarrow> 'a bio_scheme \<Rightarrow> 'a bio_scheme" where
  "bpin i s = upd_buf i (\<lambda>b. b\<lparr>refcnt := refcnt b + 1\<rparr>) s"

definition bunpin :: "nat \<Rightarrow> 'a bio_scheme \<Rightarrow> 'a bio_scheme" where
  "bunpin i s = upd_buf i (\<lambda>b. b\<lparr>refcnt := refcnt b - 1\<rparr>) s"

text \<open>The bytes of a buffer, as the callers read and modify them through \<open>b->data\<close>.\<close>

definition get_data :: "nat \<Rightarrow> 'a bio_scheme \<Rightarrow> u8 list" where
  "get_data i s = bdata (bufs s ! i)"

definition set_data :: "nat \<Rightarrow> u8 list \<Rightarrow> 'a bio_scheme \<Rightarrow> 'a bio_scheme" where
  "set_data i xs s = upd_buf i (\<lambda>b. b\<lparr>bdata := xs\<rparr>) s"

section \<open>The cache as a map from blocks to contents\<close>

abbreviation ROOTDEV :: u32 where "ROOTDEV \<equiv> 1"

definition cached :: "'a bio_scheme \<Rightarrow> u32 \<Rightarrow> nat option" where
  "cached s bn = find (\<lambda>i. dev (bufs s ! i) = ROOTDEV \<and> blockno (bufs s ! i) = bn) (lru s)"

definition content :: "'a bio_scheme \<Rightarrow> u32 \<Rightarrow> u8 list" where
  "content s bn = (case cached s bn of None \<Rightarrow> disk s bn | Some i \<Rightarrow> bdata (bufs s ! i))"

definition refs :: "'a bio_scheme \<Rightarrow> u32 \<Rightarrow> nat" where
  "refs s bn = (case cached s bn of None \<Rightarrow> 0 | Some i \<Rightarrow> unat (refcnt (bufs s ! i)))"

definition held :: "'a bio_scheme \<Rightarrow> u32 \<Rightarrow> bool" where
  "held s bn = (case cached s bn of None \<Rightarrow> False | Some i \<Rightarrow> locked (block (bufs s ! i)))"

definition mine :: "'a bio_scheme \<Rightarrow> u32 \<Rightarrow> nat \<Rightarrow> bool" where
  "mine s bn i \<longleftrightarrow> cached s bn = Some i \<and> holdingsleep (cpid s) (block (bufs s ! i))"

definition buf_ok :: "(u32 \<Rightarrow> u8 list) \<Rightarrow> buf \<Rightarrow> bool" where
  "buf_ok d b \<longleftrightarrow> length (bdata b) = BSIZE \<and> (dev b = ROOTDEV \<longrightarrow> bvalid b) \<and> (refcnt b \<noteq> 0 \<longrightarrow> dev b = ROOTDEV) \<and>
     (refcnt b = 0 \<longrightarrow> \<not> locked (block b) \<and> (dev b = ROOTDEV \<longrightarrow> bdata b = d (blockno b)))"

definition bc_inv :: "'a bio_scheme \<Rightarrow> bool" where
  "bc_inv s \<longleftrightarrow> length (bufs s) = NBUF \<and> distinct (lru s) \<and> set (lru s) = {0..<NBUF} \<and>
     (\<forall>b. length (disk s b) = BSIZE) \<and> (\<forall>i<NBUF. buf_ok (disk s) (bufs s ! i)) \<and>
     (\<forall>i<NBUF. \<forall>j<NBUF. dev (bufs s ! i) = ROOTDEV \<longrightarrow> dev (bufs s ! j) = ROOTDEV \<longrightarrow>
        blockno (bufs s ! i) = blockno (bufs s ! j) \<longrightarrow> i = j)"

text \<open>\<open>bio_ext s t\<close>: only the cache and the disk differ.\<close>

definition bio_ext :: "'a bio_scheme \<Rightarrow> 'a bio_scheme \<Rightarrow> bool" where
  "bio_ext s t \<longleftrightarrow> (\<exists>bs l d w. t = s\<lparr>bufs := bs, lru := l, disk := d, dwrites := w\<rparr>)"

lemma bio_ext_refl [simp]: "bio_ext s s"
  unfolding bio_ext_def by (intro exI [of _ "bufs s"] exI [of _ "lru s"] exI [of _ "disk s"] exI [of _ "dwrites s"]) simp

lemma bio_ext_trans: "bio_ext s t \<Longrightarrow> bio_ext t u \<Longrightarrow> bio_ext s u"
  unfolding bio_ext_def by (elim exE) (rule exI, rule exI, rule exI, rule exI, simp)

lemma bio_extI: "t = s\<lparr>bufs := bs, lru := l, disk := d, dwrites := w\<rparr> \<Longrightarrow> bio_ext s t"
  unfolding bio_ext_def by blast

lemma bc_invD:
  assumes "bc_inv s"
  shows "length (bufs s) = NBUF" "distinct (lru s)" "set (lru s) = {0..<NBUF}" "length (disk s b) = BSIZE"
    "i < NBUF \<Longrightarrow> buf_ok (disk s) (bufs s ! i)"
    "i < NBUF \<Longrightarrow> j < NBUF \<Longrightarrow> dev (bufs s ! i) = ROOTDEV \<Longrightarrow> dev (bufs s ! j) = ROOTDEV \<Longrightarrow>
      blockno (bufs s ! i) = blockno (bufs s ! j) \<Longrightarrow> i = j"
  using assms unfolding bc_inv_def by blast+

lemma find_SomeD: "find P xs = Some x \<Longrightarrow> x \<in> set xs \<and> P x"
  by (induction xs) (auto split: if_splits)

lemma cached_Some:
  assumes "bc_inv s"
  shows "cached s bn = Some i \<longleftrightarrow> i < NBUF \<and> dev (bufs s ! i) = ROOTDEV \<and> blockno (bufs s ! i) = bn"
proof
  assume "cached s bn = Some i"
  then show "i < NBUF \<and> dev (bufs s ! i) = ROOTDEV \<and> blockno (bufs s ! i) = bn"
    unfolding cached_def using bc_invD(3) [OF assms] by (auto dest: find_SomeD)
next
  assume i: "i < NBUF \<and> dev (bufs s ! i) = ROOTDEV \<and> blockno (bufs s ! i) = bn"
  then obtain j where j: "cached s bn = Some j"
    using bc_invD(3) [OF assms] unfolding cached_def by (cases "find (\<lambda>i. dev (bufs s ! i) = ROOTDEV \<and> blockno (bufs s ! i) = bn) (lru s)")
      (auto simp: find_None_iff)
  then have "j < NBUF \<and> dev (bufs s ! j) = ROOTDEV \<and> blockno (bufs s ! j) = bn"
    unfolding cached_def using bc_invD(3) [OF assms] by (auto dest: find_SomeD)
  then have "j = i" using i bc_invD(6) [OF assms, of j i] by simp
  with j show "cached s bn = Some i" by simp
qed

lemma cached_None:
  assumes "bc_inv s"
  shows "cached s bn = None \<longleftrightarrow> (\<forall>i<NBUF. dev (bufs s ! i) = ROOTDEV \<longrightarrow> blockno (bufs s ! i) \<noteq> bn)"
  using cached_Some [OF assms, of bn] by (metis not_None_eq)

lemma cached_buf:
  "bc_inv s \<Longrightarrow> cached s bn = Some i \<Longrightarrow>
    i < NBUF \<and> dev (bufs s ! i) = ROOTDEV \<and> blockno (bufs s ! i) = bn \<and> buf_ok (disk s) (bufs s ! i)"
  using cached_Some [of s bn i] bc_invD(5) [of s i] by blast

text \<open>An unreferenced block is clean, so nothing is lost when its buffer is recycled.\<close>

lemma refs_0_clean:
  assumes "bc_inv s" "refs s bn = 0"
  shows "content s bn = disk s bn" "\<not> held s bn"
proof -
  show "content s bn = disk s bn"
    using assms cached_buf [OF assms(1), of bn]
    by (cases "cached s bn") (auto simp: refs_def content_def buf_ok_def unat_eq_zero)
  show "\<not> held s bn"
    using assms cached_buf [OF assms(1), of bn]
    by (cases "cached s bn") (auto simp: refs_def held_def buf_ok_def unat_eq_zero)
qed

lemma content_length:
  assumes "bc_inv s"
  shows "length (content s bn) = BSIZE"
  using cached_buf [OF assms, of bn] bc_invD(4) [OF assms]
  by (cases "cached s bn") (auto simp: content_def buf_ok_def)

lemma busy_free_buffer:
  assumes inv: "bc_inv s" and busy: "card {b. 0 < refs s b} < NBUF"
  shows "\<exists>i<NBUF. refcnt (bufs s ! i) = 0"
proof (rule ccontr)
  assume "\<not> ?thesis"
  then have nz: "\<And>i. i < NBUF \<Longrightarrow> refcnt (bufs s ! i) \<noteq> 0" by blast
  then have dv: "\<And>i. i < NBUF \<Longrightarrow> dev (bufs s ! i) = ROOTDEV" using bc_invD(5) [OF inv] by (auto simp: buf_ok_def)
  let ?f = "\<lambda>i. blockno (bufs s ! i)"
  have "inj_on ?f {0..<NBUF}" using bc_invD(6) [OF inv] dv by (auto simp: inj_on_def)
  moreover have "?f ` {0..<NBUF} \<subseteq> {b. 0 < refs s b}"
  proof
    fix b
    assume "b \<in> ?f ` {0..<NBUF}"
    then obtain i where i: "i < NBUF" "b = blockno (bufs s ! i)" by auto
    then have "cached s b = Some i" using cached_Some [OF inv] dv by simp
    then show "b \<in> {b. 0 < refs s b}" using nz [OF i(1)] by (simp add: refs_def unat_gt_0)
  qed
  ultimately have "card {0..<NBUF} \<le> card {b. 0 < refs s b}"
    by (metis card_image card_mono finite)
  with busy show False by simp
qed

section \<open>Updates of a buffer, seen through the map\<close>

lemma upd_buf_simps [simp]:
  "lru (upd_buf i f s) = lru s" "disk (upd_buf i f s) = disk s" "dwrites (upd_buf i f s) = dwrites s"
  "cpid (upd_buf i f s) = cpid s" "length (bufs (upd_buf i f s)) = length (bufs s)" "bio_ext s (upd_buf i f s)"
  by (simp_all add: upd_buf_def) (rule bio_extI [where l = "lru s" and d = "disk s" and w = "dwrites s"], simp)

lemma nth_upd_buf: "length (bufs s) = NBUF \<Longrightarrow> i < NBUF \<Longrightarrow>
  bufs (upd_buf i f s) ! j = (if j = i then f (bufs s ! i) else bufs s ! j)"
  by (simp add: upd_buf_def nth_list_update)

lemma upd_buf_upd_buf: "length (bufs s) = NBUF \<Longrightarrow> i < NBUF \<Longrightarrow> upd_buf i g (upd_buf i f s) = upd_buf i (\<lambda>b. g (f b)) s"
  by (simp add: upd_buf_def)

text \<open>\<open>bc_step s t bn d r l\<close>: the block \<open>bn\<close> now has contents \<open>d\<close>, \<open>r\<close> references and lock state \<open>l\<close>.\<close>

definition bc_step :: "'a bio_scheme \<Rightarrow> 'a bio_scheme \<Rightarrow> u32 \<Rightarrow> u8 list \<Rightarrow> nat \<Rightarrow> bool \<Rightarrow> bool" where
  "bc_step s t bn d r l \<longleftrightarrow> bc_inv t \<and> bio_ext s t \<and> content t = (content s)(bn := d) \<and>
     refs t = (refs s)(bn := r) \<and> held t = (held s)(bn := l) \<and> (\<forall>b i. b \<noteq> bn \<longrightarrow> mine s b i \<longrightarrow> mine t b i)"

lemma cached_inj: "bc_inv s \<Longrightarrow> cached s a = Some i \<Longrightarrow> cached s b = Some i \<Longrightarrow> a = b"
  using cached_buf by metis

lemma upd_cached:
  assumes inv: "bc_inv s" and c: "cached s bn = Some i"
    and f: "dev (f (bufs s ! i)) = dev (bufs s ! i)" "blockno (f (bufs s ! i)) = blockno (bufs s ! i)"
    and ok: "buf_ok (disk s) (f (bufs s ! i))"
  shows "bc_step s (upd_buf i f s) bn (bdata (f (bufs s ! i))) (unat (refcnt (f (bufs s ! i)))) (locked (block (f (bufs s ! i))))"
    "cached (upd_buf i f s) = cached s"
proof -
  let ?t = "upd_buf i f s"
  have i: "i < NBUF" using cached_buf [OF inv c] by simp
  note nth = nth_upd_buf [OF bc_invD(1) [OF inv] i, of f]
  have db: "dev (bufs ?t ! j) = dev (bufs s ! j)" "blockno (bufs ?t ! j) = blockno (bufs s ! j)" for j
    using nth f by simp_all
  show ca: "cached ?t = cached s"
    unfolding cached_def db by simp
  have "bc_inv ?t"
    unfolding bc_inv_def
  proof (intro conjI allI impI)
    show "buf_ok (disk ?t) (bufs ?t ! j)" if "j < NBUF" for j
      using bc_invD(5) [OF inv that] ok by (simp add: nth)
    show "j = k" if "j < NBUF" "k < NBUF" "dev (bufs ?t ! j) = ROOTDEV" "dev (bufs ?t ! k) = ROOTDEV"
        "blockno (bufs ?t ! j) = blockno (bufs ?t ! k)" for j k
      using that unfolding db by (rule bc_invD(6) [OF inv])
  qed (use bc_invD [OF inv] in simp_all)
  moreover have other: "cached s b \<noteq> Some i" if "b \<noteq> bn" for b using cached_inj [OF inv c] that by blast
  have "content ?t = (content s)(bn := bdata (f (bufs s ! i)))"
    using c other by (auto simp: fun_eq_iff content_def ca nth split: option.splits)
  moreover have "refs ?t = (refs s)(bn := unat (refcnt (f (bufs s ! i))))"
    using c other by (auto simp: fun_eq_iff refs_def ca nth split: option.splits)
  moreover have "held ?t = (held s)(bn := locked (block (f (bufs s ! i))))"
    using c other by (auto simp: fun_eq_iff held_def ca nth split: option.splits)
  moreover have "mine ?t b j" if "b \<noteq> bn" "mine s b j" for b j
    using that other by (auto simp: mine_def ca nth)
  ultimately show "bc_step s ?t bn (bdata (f (bufs s ! i))) (unat (refcnt (f (bufs s ! i)))) (locked (block (f (bufs s ! i))))"
    by (simp add: bc_step_def)
qed

lemma recycle_buf:
  assumes inv: "bc_inv s" and i: "i < NBUF" "refcnt (bufs s ! i) = 0" and c: "cached s bn = None"
    and f: "dev (f (bufs s ! i)) = ROOTDEV" "blockno (f (bufs s ! i)) = bn" "bvalid (f (bufs s ! i))"
      "refcnt (f (bufs s ! i)) \<noteq> 0" "bdata (f (bufs s ! i)) = disk s bn"
  shows "bc_step s (upd_buf i f s) bn (disk s bn) (unat (refcnt (f (bufs s ! i)))) (locked (block (f (bufs s ! i))))"
    "cached (upd_buf i f s) bn = Some i"
proof -
  let ?t = "upd_buf i f s"
  note nth = nth_upd_buf [OF bc_invD(1) [OF inv] i(1), of f]
  have old: "\<And>j. j < NBUF \<Longrightarrow> dev (bufs s ! j) = ROOTDEV \<Longrightarrow> blockno (bufs s ! j) \<noteq> bn"
    using c cached_None [OF inv] by blast
  have invt: "bc_inv ?t"
    unfolding bc_inv_def
  proof (intro conjI allI impI)
    show "buf_ok (disk ?t) (bufs ?t ! j)" if "j < NBUF" for j
      using bc_invD(5) [OF inv that] f bc_invD(4) [OF inv] by (simp add: nth buf_ok_def)
    show "j = k" if "j < NBUF" "k < NBUF" "dev (bufs ?t ! j) = ROOTDEV" "dev (bufs ?t ! k) = ROOTDEV"
        "blockno (bufs ?t ! j) = blockno (bufs ?t ! k)" for j k
      using that f(2) old bc_invD(6) [OF inv, of j k] unfolding nth by (cases "j = i"; cases "k = i") auto
  qed (use bc_invD [OF inv] in simp_all)
  show ci: "cached ?t bn = Some i" using cached_Some [OF invt] i(1) f(1,2) nth by simp
  have ca: "cached ?t b = Some j \<longleftrightarrow> j \<noteq> i \<and> cached s b = Some j" if "b \<noteq> bn" for b j
    unfolding cached_Some [OF invt] cached_Some [OF inv] nth using that f(2) by auto
  have gone: "refs s b = 0 \<and> content s b = disk s b \<and> \<not> held s b" if "cached s b = Some i" for b
  proof -
    have "refs s b = 0" using that i(2) by (simp add: refs_def)
    with refs_0_clean [OF inv this] show ?thesis by simp
  qed
  have other: "(cached ?t b = None \<and> (cached s b = None \<or> cached s b = Some i)) \<or>
      (\<exists>j. j \<noteq> i \<and> cached ?t b = Some j \<and> cached s b = Some j)" if "b \<noteq> bn" for b
    using ca [OF that] by (metis not_Some_eq)
  have "content ?t b = ((content s)(bn := disk s bn)) b" for b
    using other [of b] gone [of b] ci f(5) by (cases "b = bn") (auto simp: content_def nth)
  moreover have "refs ?t b = ((refs s)(bn := unat (refcnt (f (bufs s ! i))))) b" for b
    using other [of b] gone [of b] ci by (cases "b = bn") (auto simp: refs_def nth)
  moreover have "held ?t b = ((held s)(bn := locked (block (f (bufs s ! i))))) b" for b
    using other [of b] gone [of b] ci by (cases "b = bn") (auto simp: held_def nth)
  moreover have "mine ?t b j" if "b \<noteq> bn" "mine s b j" for b j
    using other [OF that(1)] that gone [of b] by (auto simp: mine_def nth held_def holdingsleep_def)
  ultimately show "bc_step s ?t bn (disk s bn) (unat (refcnt (f (bufs s ! i)))) (locked (block (f (bufs s ! i))))"
    using invt by (auto simp: bc_step_def fun_eq_iff)
qed

lemma bread_ok:
  assumes inv: "bc_inv s" and free: "\<not> held s bn" and r: "refs s bn + 1 < 2 ^ 32"
    and room: "0 < refs s bn \<or> card {b. 0 < refs s b} < NBUF"
  shows "\<exists>i t. bread ROOTDEV bn s = Ret i t \<and> bc_step s t bn (content s bn) (refs s bn + 1) True \<and> mine t bn i \<and>
    get_data i t = content s bn \<and> disk t = disk s \<and> dwrites t = dwrites s"
proof (cases "cached s bn")
  case (Some i)
  note cb = cached_buf [OF inv Some]
  let ?lk = "\<lparr>locked = True, lpid = cpid s\<rparr>"
  let ?b = "bufs s ! i"
  have lk: "acquiresleep (cpid s) (block ?b) = Some ((block ?b)\<lparr>locked := True, lpid := cpid s\<rparr>)"
    using free Some by (simp add: held_def acquiresleep_def)
  let ?f = "\<lambda>b. b\<lparr>refcnt := refcnt b + 1, block := (block ?b)\<lparr>locked := True, lpid := cpid s\<rparr>\<rparr>"
  have len: "length (bufs s) = NBUF" using bc_invD(1) [OF inv] .
  have run: "bread ROOTDEV bn s = Ret i (upd_buf i ?f s)"
    using Some cb lk len
    by (simp add: bread_def bget_def cached_def [symmetric] lock_buf_def nth_upd_buf upd_buf_upd_buf buf_ok_def)
  have "unat (refcnt ?b) + 1 < 2 ^ 32" using r Some by (simp add: refs_def)
  then have rc: "unat (refcnt ?b + 1) = unat (refcnt ?b) + 1" by (simp add: unat_word_ariths)
  have ok: "buf_ok (disk s) (?f ?b)" using cb rc by (auto simp: buf_ok_def simp flip: unat_eq_zero)
  note st = upd_cached [OF inv Some, of ?f]
  have "bc_step s (upd_buf i ?f s) bn (content s bn) (refs s bn + 1) True"
    using st(1) ok Some rc by (simp add: content_def refs_def)
  moreover have "mine (upd_buf i ?f s) bn i"
    using st(2) ok Some cb len by (simp add: mine_def nth_upd_buf holdingsleep_def)
  moreover have "get_data i (upd_buf i ?f s) = content s bn"
    using Some cb len by (simp add: get_data_def nth_upd_buf content_def)
  ultimately show ?thesis using run by auto
next
  case None
  have len: "length (bufs s) = NBUF" using bc_invD(1) [OF inv] .
  have "card {b. 0 < refs s b} < NBUF" using room None by (simp add: refs_def)
  then have "\<exists>i\<in>set (rev (lru s)). refcnt (bufs s ! i) = 0"
    using busy_free_buffer [OF inv] bc_invD(3) [OF inv] by auto
  then obtain i where fi: "find (\<lambda>i. refcnt (bufs s ! i) = 0) (rev (lru s)) = Some i"
    by (cases "find (\<lambda>i. refcnt (bufs s ! i) = 0) (rev (lru s))") (auto simp: find_None_iff)
  then have i: "i < NBUF" "refcnt (bufs s ! i) = 0"
    using find_SomeD [OF fi] bc_invD(3) [OF inv] by auto
  let ?b = "bufs s ! i"
  have lk: "acquiresleep (cpid s) (block ?b) = Some ((block ?b)\<lparr>locked := True, lpid := cpid s\<rparr>)"
    using bc_invD(5) [OF inv i(1)] i(2) by (simp add: buf_ok_def acquiresleep_def)
  let ?f = "\<lambda>b. b\<lparr>dev := ROOTDEV, blockno := bn, refcnt := 1,
      block := (block ?b)\<lparr>locked := True, lpid := cpid s\<rparr>, bdata := disk s bn, bvalid := True\<rparr>"
  have run: "bread ROOTDEV bn s = Ret i (upd_buf i ?f s)"
    using None fi i lk len
    by (simp add: bread_def bget_def cached_def [symmetric] lock_buf_def nth_upd_buf upd_buf_upd_buf disk_rw_def Let_def)
  note st = recycle_buf [OF inv i None, of ?f]
  have "bc_step s (upd_buf i ?f s) bn (content s bn) (refs s bn + 1) True"
    using st(1) None by (simp add: content_def refs_def)
  moreover have "mine (upd_buf i ?f s) bn i"
    using st(2) i len by (simp add: mine_def nth_upd_buf holdingsleep_def)
  moreover have "get_data i (upd_buf i ?f s) = content s bn"
    using None i len by (simp add: get_data_def nth_upd_buf content_def)
  ultimately show ?thesis using run by auto
qed

lemma mine_refs:
  assumes "bc_inv s" "mine s bn i"
  shows "0 < refs s bn" "held s bn" "cached s bn = Some i" "get_data i s = content s bn"
proof -
  show c: "cached s bn = Some i" using assms(2) by (simp add: mine_def)
  show h: "held s bn" using assms(2) by (simp add: mine_def held_def holdingsleep_def)
  show "0 < refs s bn" using h refs_0_clean(2) [OF assms(1)] by blast
  show "get_data i s = content s bn" using c by (simp add: get_data_def content_def)
qed

lemma set_data_ok:
  assumes inv: "bc_inv s" and m: "mine s bn i" and len: "length xs = BSIZE"
  shows "bc_step s (set_data i xs s) bn xs (refs s bn) True \<and> mine (set_data i xs s) bn i \<and>
    disk (set_data i xs s) = disk s \<and> dwrites (set_data i xs s) = dwrites s"
proof -
  note mr = mine_refs [OF inv m]
  note cb = cached_buf [OF inv mr(3)]
  have nz: "refcnt (bufs s ! i) \<noteq> 0" using mr(1,3) by (auto simp: refs_def)
  let ?f = "\<lambda>b. b\<lparr>bdata := xs\<rparr>"
  have ok: "buf_ok (disk s) (?f (bufs s ! i))" using cb nz len by (simp add: buf_ok_def)
  have "bc_step s (upd_buf i ?f s) bn xs (refs s bn) True"
    using upd_cached(1) [OF inv mr(3), of ?f] ok mr(2,3) by (simp add: refs_def held_def)
  moreover have "mine (upd_buf i ?f s) bn i"
    using upd_cached(2) [OF inv mr(3), of ?f] ok m cb bc_invD(1) [OF inv] by (simp add: mine_def nth_upd_buf)
  ultimately show ?thesis by (simp add: set_data_def)
qed

lemma pin_ok:
  assumes inv: "bc_inv s" and m: "mine s bn i" and r: "refs s bn + 1 < 2 ^ 32"
  shows "bc_step s (bpin i s) bn (content s bn) (refs s bn + 1) True \<and> mine (bpin i s) bn i \<and>
    disk (bpin i s) = disk s \<and> dwrites (bpin i s) = dwrites s"
proof -
  note mr = mine_refs [OF inv m]
  note cb = cached_buf [OF inv mr(3)]
  let ?f = "\<lambda>b. b\<lparr>refcnt := refcnt b + 1\<rparr>"
  have "unat (refcnt (bufs s ! i)) + 1 < 2 ^ 32" using r mr(3) by (simp add: refs_def)
  then have rc: "unat (refcnt (bufs s ! i) + 1) = unat (refcnt (bufs s ! i)) + 1" by (simp add: unat_word_ariths)
  have ok: "buf_ok (disk s) (?f (bufs s ! i))" using cb rc by (auto simp: buf_ok_def simp flip: unat_eq_zero)
  have "bc_step s (upd_buf i ?f s) bn (content s bn) (refs s bn + 1) True"
    using upd_cached(1) [OF inv mr(3), of ?f] ok mr(2,3) rc by (simp add: refs_def held_def content_def)
  moreover have "mine (upd_buf i ?f s) bn i"
    using upd_cached(2) [OF inv mr(3), of ?f] ok m cb bc_invD(1) [OF inv] by (simp add: mine_def nth_upd_buf)
  ultimately show ?thesis by (simp add: bpin_def)
qed

lemma unat_dec: "(w :: u32) \<noteq> 0 \<Longrightarrow> unat (w - 1) = unat w - 1"
  by (simp add: unat_minus_one)

lemma unpin_ok:
  assumes inv: "bc_inv s" and m: "mine s bn i" and r: "1 < refs s bn"
  shows "bc_step s (bunpin i s) bn (content s bn) (refs s bn - 1) True \<and> mine (bunpin i s) bn i \<and>
    disk (bunpin i s) = disk s \<and> dwrites (bunpin i s) = dwrites s"
proof -
  note mr = mine_refs [OF inv m]
  note cb = cached_buf [OF inv mr(3)]
  let ?f = "\<lambda>b. b\<lparr>refcnt := refcnt b - 1\<rparr>"
  have rb: "1 < unat (refcnt (bufs s ! i))" using r mr(3) by (simp add: refs_def)
  then have rc: "unat (refcnt (bufs s ! i) - 1) = unat (refcnt (bufs s ! i)) - 1" by (intro unat_dec) auto
  have ok: "buf_ok (disk s) (?f (bufs s ! i))" using cb rc rb by (auto simp: buf_ok_def simp flip: unat_eq_zero)
  have "bc_step s (upd_buf i ?f s) bn (content s bn) (refs s bn - 1) True"
    using upd_cached(1) [OF inv mr(3), of ?f] ok mr(2,3) rc by (simp add: refs_def held_def content_def)
  moreover have "mine (upd_buf i ?f s) bn i"
    using upd_cached(2) [OF inv mr(3), of ?f] ok m cb bc_invD(1) [OF inv] by (simp add: mine_def nth_upd_buf)
  ultimately show ?thesis by (simp add: bunpin_def)
qed

lemma bwrite_ok:
  assumes inv: "bc_inv s" and m: "mine s bn i"
  shows "\<exists>t. bwrite i s = Ret () t \<and> bc_step s t bn (content s bn) (refs s bn) True \<and> mine t bn i \<and>
    disk t = (disk s)(bn := content s bn) \<and> dwrites t = dwrites s @ [(bn, content s bn)]"
proof -
  note mr = mine_refs [OF inv m]
  note cb = cached_buf [OF inv mr(3)]
  let ?t = "disk_rw i True s"
  have t: "?t = s\<lparr>disk := (disk s)(bn := content s bn), dwrites := dwrites s @ [(bn, content s bn)]\<rparr>"
    using cb mr(3) by (simp add: disk_rw_def Let_def content_def)
  have nz: "refcnt (bufs s ! i) \<noteq> 0" using mr(1,3) by (auto simp: refs_def)
  have tb: "bufs ?t = bufs s" "lru ?t = lru s" "cpid ?t = cpid s" "disk ?t = (disk s)(bn := content s bn)"
    by (simp_all add: t)
  have ca: "cached ?t = cached s" by (simp add: cached_def tb fun_eq_iff)
  have inv': "bc_inv ?t"
    unfolding bc_inv_def
  proof (intro conjI allI impI)
    show "length (disk ?t b) = BSIZE" for b using bc_invD(4) [OF inv] content_length [OF inv] by (simp add: t)
    show "buf_ok (disk ?t) (bufs ?t ! j)" if j: "j < NBUF" for j
    proof (cases "dev (bufs s ! j) = ROOTDEV \<and> blockno (bufs s ! j) = bn")
      case True
      then have "j = i" using cached_Some [OF inv, of bn j] mr(3) j by simp
      then show ?thesis using bc_invD(5) [OF inv j] nz by (simp add: t buf_ok_def)
    next
      case False
      then show ?thesis using bc_invD(5) [OF inv j] by (auto simp: t buf_ok_def)
    qed
    show "j = k" if "j < NBUF" "k < NBUF" "dev (bufs ?t ! j) = ROOTDEV" "dev (bufs ?t ! k) = ROOTDEV"
        "blockno (bufs ?t ! j) = blockno (bufs ?t ! k)" for j k
      using that bc_invD(6) [OF inv, of j k] by (simp add: t)
  qed (use bc_invD [OF inv] in \<open>simp_all add: t\<close>)
  have "content ?t = content s"
    using mr(3) by (auto simp: fun_eq_iff content_def ca tb split: option.splits)
  moreover have "refs ?t = refs s" "held ?t = held s" by (simp_all add: fun_eq_iff refs_def held_def ca tb split: option.split)
  moreover have "mine ?t b j = mine s b j" for b j by (simp add: mine_def ca tb)
  moreover have "bio_ext s ?t" unfolding t by (rule bio_extI [where bs = "bufs s" and l = "lru s"]) simp
  ultimately have "bc_step s ?t bn (content s bn) (refs s bn) True" "mine ?t bn i"
    using inv' mr m by (auto simp: bc_step_def fun_eq_iff)
  moreover have "bwrite i s = Ret () ?t" using m by (simp add: bwrite_def mine_def)
  ultimately show ?thesis by (auto simp: t)
qed

lemma lru_move:
  assumes inv: "bc_inv s" and i: "i < NBUF"
  defines "t \<equiv> s\<lparr>lru := i # removeAll i (lru s)\<rparr>"
  shows "bc_inv t" "cached t = cached s" "content t = content s" "refs t = refs s" "held t = held s" "mine t = mine s"
proof -
  have tb: "bufs t = bufs s" "disk t = disk s" "cpid t = cpid s" "lru t = i # removeAll i (lru s)" by (simp_all add: t_def)
  show inv': "bc_inv t"
    using inv i unfolding bc_inv_def tb by (auto simp: distinct_removeAll)
  show ca: "cached t = cached s"
  proof
    fix b
    show "cached t b = cached s b"
      using cached_Some [OF inv', of b] cached_Some [OF inv, of b] unfolding tb by (metis not_None_eq)
  qed
  show "content t = content s" "refs t = refs s" "held t = held s" "mine t = mine s"
    by (simp_all add: fun_eq_iff content_def refs_def held_def mine_def ca tb split: option.split)
qed

lemma brelse_ok:
  assumes inv: "bc_inv s" and m: "mine s bn i" and clean: "refs s bn = 1 \<Longrightarrow> content s bn = disk s bn"
  shows "\<exists>t. brelse i s = Ret () t \<and> bc_step s t bn (content s bn) (refs s bn - 1) False \<and>
    disk t = disk s \<and> dwrites t = dwrites s"
proof -
  note mr = mine_refs [OF inv m]
  note cb = cached_buf [OF inv mr(3)]
  have len: "length (bufs s) = NBUF" using bc_invD(1) [OF inv] .
  let ?f = "\<lambda>b. b\<lparr>block := releasesleep (block b), refcnt := refcnt b - 1\<rparr>"
  let ?u = "upd_buf i ?f s"
  have nz: "refcnt (bufs s ! i) \<noteq> 0" using mr(1,3) by (auto simp: refs_def)
  have rc: "unat (refcnt (bufs s ! i) - 1) = unat (refcnt (bufs s ! i)) - 1" using nz by (rule unat_dec)
  have "refcnt (bufs s ! i) - 1 = 0 \<longrightarrow> bdata (bufs s ! i) = disk s bn"
    using clean mr(3) by (auto simp: refs_def content_def)
  then have ok: "buf_ok (disk s) (?f (bufs s ! i))" using cb nz by (auto simp: buf_ok_def releasesleep_def)
  have u: "bc_step s ?u bn (content s bn) (refs s bn - 1) False"
    using upd_cached(1) [OF inv mr(3), of ?f] ok mr(3) rc by (simp add: refs_def content_def releasesleep_def)
  have h: "holdingsleep (cpid s) (block (bufs s ! i))" using m by (simp add: mine_def)
  have run: "brelse i s = (if refcnt (bufs ?u ! i) = 0 then Ret () (?u\<lparr>lru := i # removeAll i (lru ?u)\<rparr>) else Ret () ?u)"
    using h cb len by (simp add: brelse_def Let_def upd_buf_upd_buf)
  show ?thesis
  proof (cases "refcnt (bufs ?u ! i) = 0")
    case True
    note l = lru_move [OF _ conjunct1 [OF cb], of ?u]
    have "bio_ext s (?u\<lparr>lru := i # removeAll i (lru ?u)\<rparr>)"
      unfolding upd_buf_def by (rule bio_extI [where d = "disk s" and w = "dwrites s"]) simp
    then have "bc_step s (?u\<lparr>lru := i # removeAll i (lru ?u)\<rparr>) bn (content s bn) (refs s bn - 1) False"
      using u l unfolding bc_step_def by simp
    with run True show ?thesis by auto
  next
    case False
    with run u show ?thesis by auto
  qed
qed

section \<open>The contract of the cache\<close>

locale block_cache =
  fixes rd :: "u32 \<Rightarrow> 's \<Rightarrow> (nat, 's) outcome" and wr rel :: "nat \<Rightarrow> 's \<Rightarrow> (unit, 's) outcome"
    and getd :: "nat \<Rightarrow> 's \<Rightarrow> u8 list" and setd :: "nat \<Rightarrow> u8 list \<Rightarrow> 's \<Rightarrow> 's"
    and inv :: "'s \<Rightarrow> bool" and cont dsk :: "'s \<Rightarrow> u32 \<Rightarrow> u8 list" and hist :: "'s \<Rightarrow> (u32 \<times> u8 list) list"
    and rfs :: "'s \<Rightarrow> u32 \<Rightarrow> nat" and hld :: "'s \<Rightarrow> u32 \<Rightarrow> bool" and own :: "'s \<Rightarrow> u32 \<Rightarrow> nat \<Rightarrow> bool"
    and ext :: "'s \<Rightarrow> 's \<Rightarrow> bool" and step :: "'s \<Rightarrow> 's \<Rightarrow> u32 \<Rightarrow> u8 list \<Rightarrow> nat \<Rightarrow> bool \<Rightarrow> bool"
    and cap :: nat
  assumes step_D: "step s t bn d r l \<Longrightarrow> inv t \<and> ext s t \<and> cont t = (cont s)(bn := d) \<and> rfs t = (rfs s)(bn := r) \<and>
        hld t = (hld s)(bn := l) \<and> (\<forall>b i. b \<noteq> bn \<longrightarrow> own s b i \<longrightarrow> own t b i)"
    and ext_refl: "ext s s" and ext_trans: "ext s t \<Longrightarrow> ext t u \<Longrightarrow> ext s u"
    and clean: "inv s \<Longrightarrow> rfs s bn = 0 \<Longrightarrow> cont s bn = dsk s bn \<and> \<not> hld s bn"
    and cont_len: "inv s \<Longrightarrow> length (cont s bn) = BSIZE"
    and own_data: "inv s \<Longrightarrow> own s bn i \<Longrightarrow> getd i s = cont s bn \<and> 0 < rfs s bn \<and> hld s bn"
    and rd_law: "inv s \<Longrightarrow> \<not> hld s bn \<Longrightarrow> rfs s bn + 1 < 2 ^ 32 \<Longrightarrow> 0 < rfs s bn \<or> card {b. 0 < rfs s b} < cap \<Longrightarrow>
        \<exists>i t. rd bn s = Ret i t \<and> step s t bn (cont s bn) (rfs s bn + 1) True \<and> own t bn i \<and> getd i t = cont s bn \<and>
          dsk t = dsk s \<and> hist t = hist s"
    and put_law: "inv s \<Longrightarrow> own s bn i \<Longrightarrow> length xs = BSIZE \<Longrightarrow>
        step s (setd i xs s) bn xs (rfs s bn) True \<and> own (setd i xs s) bn i \<and>
        dsk (setd i xs s) = dsk s \<and> hist (setd i xs s) = hist s"
    and wr_law: "inv s \<Longrightarrow> own s bn i \<Longrightarrow>
        \<exists>t. wr i s = Ret () t \<and> step s t bn (cont s bn) (rfs s bn) True \<and> own t bn i \<and>
          dsk t = (dsk s)(bn := cont s bn) \<and> hist t = hist s @ [(bn, cont s bn)]"
    and rel_law: "inv s \<Longrightarrow> own s bn i \<Longrightarrow> (rfs s bn = 1 \<Longrightarrow> cont s bn = dsk s bn) \<Longrightarrow>
        \<exists>t. rel i s = Ret () t \<and> step s t bn (cont s bn) (rfs s bn - 1) False \<and> dsk t = dsk s \<and> hist t = hist s"
begin

text \<open>Reading a block and releasing it changes nothing that can be seen.\<close>

lemma read_release:
  assumes "inv s" "\<not> hld s a" "rfs s a + 1 < 2 ^ 32" "0 < rfs s a \<or> card {b. 0 < rfs s b} < cap"
  shows "\<exists>i t u. rd a s = Ret i t \<and> getd i t = cont s a \<and> rel i t = Ret () u \<and> inv u \<and> ext s u \<and> cont u = cont s \<and>
    dsk u = dsk s \<and> hist u = hist s \<and> rfs u = rfs s \<and> hld u = hld s"
proof -
  obtain i t where t: "rd a s = Ret i t" "step s t a (cont s a) (rfs s a + 1) True" "own t a i" "getd i t = cont s a"
      "dsk t = dsk s" "hist t = hist s"
    using rd_law [OF assms] by blast
  note st = step_D [OF t(2)]
  have "rfs t a = 1 \<Longrightarrow> cont t a = dsk t a" using st clean [OF assms(1), of a] t(5) by auto
  then obtain u where u: "rel i t = Ret () u" "step t u a (cont t a) (rfs t a - 1) False" "dsk u = dsk t" "hist u = hist t"
    using rel_law [OF _ t(3)] st by blast
  note su = step_D [OF u(2)]
  have "cont u = cont s" "rfs u = rfs s" "hld u = hld s" using st su assms(2) by (auto simp: fun_eq_iff)
  then show ?thesis using t u st su ext_trans [of s t u] by auto
qed

text \<open>
  The transfer of block \<open>b\<close> to block \<open>a\<close> and to the disk, with both buffers released in
  either order: afterwards \<open>a\<close> holds the contents of \<open>b\<close>, in the cache and on the disk.
\<close>

lemma read_two:
  assumes inv: "inv s" and ab: "a \<noteq> b" "\<not> hld s a" "\<not> hld s b" and r: "rfs s a + 1 < 2 ^ 32" "rfs s b + 1 < 2 ^ 32"
    and room: "card {x. 0 < rfs s x} + 2 \<le> cap \<or> (0 < rfs s b \<and> card {x. 0 < rfs s x} < cap)"
  shows "\<exists>i j t u. rd a s = Ret i t \<and> rd b t = Ret j u \<and> ext s t \<and> inv u \<and> ext s u \<and> own u a i \<and> own u b j \<and>
    cont u = cont s \<and> rfs u = (rfs s)(a := rfs s a + 1, b := rfs s b + 1) \<and> hld u = (hld s)(a := True, b := True) \<and>
    dsk u = dsk s \<and> hist u = hist s"
proof -
  have "0 < rfs s a \<or> card {x. 0 < rfs s x} < cap" using room by auto
  then obtain i t where t: "rd a s = Ret i t" "step s t a (cont s a) (rfs s a + 1) True" "own t a i" "dsk t = dsk s" "hist t = hist s"
    using rd_law [OF inv ab(2) r(1)] by blast
  note st = step_D [OF t(2)]
  have sub: "{x. 0 < rfs t x} \<subseteq> insert a {x. 0 < rfs s x}" using st by auto
  then have "card {x. 0 < rfs t x} \<le> card (insert a {x. 0 < rfs s x})" by (intro card_mono finite)
  also have "\<dots> \<le> Suc (card {x. 0 < rfs s x})" by (simp add: card_insert_if)
  finally have le: "card {x. 0 < rfs t x} \<le> Suc (card {x. 0 < rfs s x})" .
  have rb: "rfs t b = rfs s b" using st ab(1) by simp
  have "0 < rfs t b \<or> card {x. 0 < rfs t x} < cap" using room le rb by linarith
  moreover have "\<not> hld t b" "rfs t b + 1 < 2 ^ 32" using st ab r by auto
  ultimately obtain j u where u: "rd b t = Ret j u" "step t u b (cont t b) (rfs t b + 1) True" "own u b j" "dsk u = dsk t" "hist u = hist t"
    using rd_law [of t b] st by blast
  note su = step_D [OF u(2)]
  have "own u a i" using su t(3) ab(1) by blast
  moreover have "cont u = cont s" using su st by (auto simp: fun_eq_iff)
  moreover have "rfs u = (rfs s)(a := rfs s a + 1, b := rfs s b + 1)" "hld u = (hld s)(a := True, b := True)"
    using su st ab(1) by (auto simp: fun_eq_iff)
  ultimately show ?thesis using t u su st ext_trans [of s t u] by auto
qed

lemma write_back:
  assumes inv: "inv s" and own: "own s a i" and len: "length xs = BSIZE"
  shows "\<exists>t. wr i (setd i xs s) = Ret () t \<and> inv t \<and> ext s t \<and> own t a i \<and> (\<forall>b j. b \<noteq> a \<longrightarrow> own s b j \<longrightarrow> own t b j) \<and>
    cont t = (cont s)(a := xs) \<and> dsk t = (dsk s)(a := xs) \<and> hist t = hist s @ [(a, xs)] \<and> rfs t = rfs s \<and> hld t = hld s"
proof -
  note p = put_law [OF inv own len]
  note sp = step_D [OF conjunct1 [OF p]]
  obtain t where t: "wr i (setd i xs s) = Ret () t" "step (setd i xs s) t a (cont (setd i xs s) a) (rfs (setd i xs s) a) True" "own t a i"
      "dsk t = (dsk (setd i xs s))(a := cont (setd i xs s) a)" "hist t = hist (setd i xs s) @ [(a, cont (setd i xs s) a)]"
    using wr_law [of "setd i xs s" a i] p sp by blast
  note st = step_D [OF t(2)]
  have "hld s a" using own_data [OF inv own] by simp
  then show ?thesis
    using t p sp st ext_trans [of s "setd i xs s" t] by (intro exI [of _ t]) (auto simp: fun_eq_iff)
qed

lemma release_two:
  assumes inv: "inv s" and own: "own s a i" "own s b j" "a \<noteq> b"
    and cl: "rfs s a = 1 \<Longrightarrow> cont s a = dsk s a" "rfs s b = 1 \<Longrightarrow> cont s b = dsk s b"
  shows "\<exists>t. bindo (rel i s) (\<lambda>_. rel j) = Ret () t \<and> inv t \<and> ext s t \<and> cont t = cont s \<and> dsk t = dsk s \<and> hist t = hist s \<and>
    rfs t = (rfs s)(a := rfs s a - 1, b := rfs s b - 1) \<and> hld t = (hld s)(a := False, b := False)"
proof -
  obtain t where t: "rel i s = Ret () t" "step s t a (cont s a) (rfs s a - 1) False" "dsk t = dsk s" "hist t = hist s"
    using rel_law [OF inv own(1) cl(1)] by blast
  note st = step_D [OF t(2)]
  have ob: "own t b j" "inv t" using st own by auto
  have "rfs t b = 1 \<Longrightarrow> cont t b = dsk t b" using st cl(2) t(3) own(3) by auto
  then obtain u where u: "rel j t = Ret () u" "step t u b (cont t b) (rfs t b - 1) False" "dsk u = dsk t" "hist u = hist t"
    using rel_law [OF ob(2,1)] by blast
  note su = step_D [OF u(2)]
  have "cont u = cont s" "rfs u = (rfs s)(a := rfs s a - 1, b := rfs s b - 1)" "hld u = (hld s)(a := False, b := False)"
    using st su own(3) by (auto simp: fun_eq_iff)
  then show ?thesis using t u st su ext_trans [of s t u] by auto
qed

end

interpretation bc: block_cache "bread ROOTDEV" bwrite brelse get_data set_data bc_inv content disk dwrites refs held mine
  bio_ext bc_step NBUF
proof (unfold_locales, goal_cases)
  case (1 s t bn d r l)
  then show ?case by (simp add: bc_step_def)
next
  case (2 s)
  show ?case by simp
next
  case (3 s t u)
  then show ?case by (rule bio_ext_trans)
next
  case (4 s bn)
  then show ?case using refs_0_clean by blast
next
  case (5 s bn)
  then show ?case by (rule content_length)
next
  case (6 s bn i)
  then show ?case using mine_refs by blast
next
  case (7 s bn)
  then show ?case by (rule bread_ok)
next
  case (8 s bn i xs)
  then show ?case by (rule set_data_ok)
next
  case (9 s bn i)
  then show ?case by (rule bwrite_ok)
next
  case (10 s bn i)
  then show ?case by (rule brelse_ok)
qed

section \<open>What the operations leave alone\<close>

lemma lock_buf_ext: "lock_buf i s = Ret j t \<Longrightarrow> bio_ext s t"
  by (auto simp: lock_buf_def split: option.splits)

lemma disk_rw_ext: "bio_ext s (disk_rw i wr s)"
  unfolding disk_rw_def Let_def
  by (auto intro: bio_extI [where bs = "bufs s" and l = "lru s"])

lemma bget_ext: "bget d bn s = Ret i t \<Longrightarrow> bio_ext s t"
  unfolding bget_def by (auto split: option.splits dest!: lock_buf_ext intro: bio_ext_trans [OF upd_buf_simps(6)])

lemma bread_ext: "bread d bn s = Ret i t \<Longrightarrow> bio_ext s t"
  unfolding bread_def
  by (cases "bget d bn s") (auto dest!: bget_ext split: if_splits
    intro: bio_ext_trans bio_ext_trans [OF disk_rw_ext upd_buf_simps(6)])

lemma bwrite_ext: "bwrite i s = Ret u t \<Longrightarrow> bio_ext s t"
  unfolding bwrite_def by (auto split: if_splits simp: disk_rw_ext)

lemma lru_ext: "bio_ext s (s\<lparr>lru := l\<rparr>)"
  by (rule bio_extI [where bs = "bufs s" and d = "disk s" and w = "dwrites s"]) simp

lemma brelse_ext: "brelse i s = Ret u t \<Longrightarrow> bio_ext s t"
  unfolding brelse_def Let_def
  by (auto split: if_splits intro: bio_ext_trans [OF upd_buf_simps(6) bio_ext_trans [OF upd_buf_simps(6) lru_ext]]
    bio_ext_trans [OF upd_buf_simps(6) upd_buf_simps(6)])

lemma bpin_ext: "bio_ext s (bpin i s)" and bunpin_ext: "bio_ext s (bunpin i s)" and set_data_ext: "bio_ext s (set_data i xs s)"
  by (simp_all add: bpin_def bunpin_def set_data_def)

lemmas cache_ext = bread_ext bwrite_ext brelse_ext

section \<open>Properties\<close>

text \<open>A sample state: block 40 modified in buffer 0, the other buffers unused.\<close>

definition sample_buf :: buf where
  "sample_buf = \<lparr>bvalid = False, dev = 0, blockno = 0, block = initsleeplock, refcnt = 0, bdata = replicate BSIZE 0\<rparr>"

definition sample_bio :: bio where
  "sample_bio = \<lparr>phys = \<lambda>_. 0, freelist = 0, kend = 0,
     bufs = \<lparr>bvalid = True, dev = ROOTDEV, blockno = 40, block = initsleeplock, refcnt = 1, bdata = replicate BSIZE 7\<rparr>
       # replicate 29 sample_buf,
     lru = [0..<NBUF], disk = \<lambda>_. replicate BSIZE 0, dwrites = [], cpid = 1\<rparr>"

text \<open>
  C10: The cache is transparent. Reading a block and releasing it returns the latest
  contents written to that block and changes neither the contents of any block,
  nor the disk, nor a reference count. It needs the block unlocked, and a free
  buffer when the block has no reference.
\<close>

theorem read_block_transparent:
  assumes "bc_inv s" and "\<not> held s a" and "refs s a + 1 < 2 ^ 32" and "0 < refs s a \<or> card {b. 0 < refs s b} < NBUF"
  shows "\<exists>i t u. bread ROOTDEV a s = Ret i t \<and> get_data i t = content s a \<and> brelse i t = Ret () u \<and> bc_inv u \<and>
    content u = content s \<and> disk u = disk s \<and> dwrites u = dwrites s \<and> refs u = refs s \<and> held u = held s"
  using bc.read_release [OF assms] by (elim exE conjE) (intro exI conjI)

theorem read_block_transparent_witness:
  "\<exists>i t u. bread ROOTDEV 40 sample_bio = Ret i t \<and> get_data i t = replicate BSIZE 7 \<and> brelse i t = Ret () u \<and>
    disk u 40 = replicate BSIZE 0"
proof -
  have inv: "bc_inv sample_bio"
    unfolding bc_inv_def
    by (auto simp: sample_bio_def sample_buf_def buf_ok_def NBUF_def nth_Cons' initsleeplock_def)
  have "[0..<NBUF] = 0 # [1..<30]" by (simp add: NBUF_def upt_rec)
  then have c: "cached sample_bio 40 = Some 0" by (simp add: cached_def) (simp add: sample_bio_def)
  have o: "refs sample_bio 40 = 1" "\<not> held sample_bio 40" "content sample_bio 40 = replicate BSIZE 7" "disk sample_bio 40 = replicate BSIZE 0"
    unfolding refs_def held_def content_def c by (simp_all add: sample_bio_def initsleeplock_def)
  show ?thesis using read_block_transparent [OF inv o(2)] by (auto simp: o)
qed

text \<open>
  C25: \<open>bread\<close> panics only for want of a buffer: when the block is not cached and every
  buffer of the cache is referenced.
\<close>

theorem bread_panics_iff:
  assumes "bc_inv s"
  shows "bread ROOTDEV a s = Panic m \<longleftrightarrow> m = ''bget: no buffers'' \<and> cached s a = None \<and> list_all (\<lambda>b. refcnt b \<noteq> 0) (bufs s)"
proof -
  have "list_all (\<lambda>b. refcnt b \<noteq> 0) (bufs s) \<longleftrightarrow> find (\<lambda>i. refcnt (bufs s ! i) = 0) (rev (lru s)) = None"
    using bc_invD(1,3) [OF assms] by (auto simp: find_None_iff list_all_length)
  then show ?thesis
    by (auto simp: bread_def bget_def lock_buf_def cached_def split: option.split if_splits)
qed

theorem bread_panics_iff_witness:
  "\<not> (\<exists>m. bread ROOTDEV 41 sample_bio = Panic m)"
proof -
  have inv: "bc_inv sample_bio"
    unfolding bc_inv_def
    by (auto simp: sample_bio_def sample_buf_def buf_ok_def NBUF_def nth_Cons' initsleeplock_def)
  have "\<not> list_all (\<lambda>b. refcnt b \<noteq> 0) (bufs sample_bio)" by (auto simp: sample_bio_def sample_buf_def list_all_iff)
  then show ?thesis using bread_panics_iff [OF inv] by simp
qed

end
