(* ===== verification/Logging.thy ===== *)
theory Logging
  imports Bio
begin

text \<open>
  kernel/log.c: the redo log that makes the updates of a file-system call
  reach the disk together. The state adds \<open>struct log\<close> to the buffer cache. The
  theorems show that a commit survives a crash between any two of its disk
  writes: recovery leaves either all of the updates or none on the disk.
\<close>

section \<open>State\<close>

definition MAXOPBLOCKS :: nat where "MAXOPBLOCKS = 10"
definition LOGBLOCKS :: nat where "LOGBLOCKS = MAXOPBLOCKS * 3"

record logheader =
  lh_n :: int
  hblock :: "u32 list"

record loginfo =
  lstart :: u32
  outstanding :: int
  committing :: bool
  ldev :: u32
  lh :: logheader

record logst = bio +
  lg :: loginfo

text \<open>The header block on the disk: \<open>n\<close> and the block numbers as 32-bit little-endian words.\<close>

definition hdr_n :: "u8 list \<Rightarrow> int" where
  "hdr_n bs = sint (le_word (blk_get bs 0 4) :: u32)"

definition hdr_block :: "u8 list \<Rightarrow> nat \<Rightarrow> u32" where
  "hdr_block bs i = le_word (blk_get bs (4 + 4 * i) 4)"

text \<open>The stores of \<open>write_head\<close> into the header block.\<close>

definition put_head :: "logheader \<Rightarrow> u8 list \<Rightarrow> u8 list" where
  "put_head h bs =
     foldl (\<lambda>bs i. blk_put bs (4 + 4 * i) (le_bytes 4 (hblock h ! i)))
       (blk_put bs 0 (le_bytes 4 (of_int (lh_n h) :: u32))) [0..<nat (lh_n h)]"

section \<open>Operations\<close>

definition log_block :: "'a logst_scheme \<Rightarrow> nat \<Rightarrow> u32" where
  "log_block s tail = lstart (lg s) + of_nat tail + 1"

definition install_step :: "bool \<Rightarrow> nat \<Rightarrow> 'a logst_scheme \<Rightarrow> (unit, 'a logst_scheme) outcome" where
  "install_step recovering tail s =
     bindo (bread (ldev (lg s)) (log_block s tail) s) (\<lambda>lbuf s.
     bindo (bread (ldev (lg s)) (hblock (lh (lg s)) ! tail) s) (\<lambda>dbuf s.
     bindo (bwrite dbuf (set_data dbuf (get_data lbuf s) s)) (\<lambda>_ s.
     let s = (if recovering then s else bunpin dbuf s) in
     bindo (brelse lbuf s) (\<lambda>_ s. brelse dbuf s))))"

definition install_trans :: "bool \<Rightarrow> 'a logst_scheme \<Rightarrow> (unit, 'a logst_scheme) outcome" where
  "install_trans recovering s = forM [0..<nat (lh_n (lh (lg s)))] (install_step recovering) s"

text \<open>
  \<open>log.lh.block\<close> has room for LOGBLOCKS numbers; a larger \<open>n\<close> on the disk would
  overrun it, which has no defined behaviour.
\<close>

definition read_head :: "'a logst_scheme \<Rightarrow> (unit, 'a logst_scheme) outcome" where
  "read_head s =
     bindo (bread (ldev (lg s)) (lstart (lg s)) s) (\<lambda>b s.
     let bs = get_data b s; k = hdr_n bs in
     if k > int LOGBLOCKS then Panic ''undefined: log header''
     else let blks = map (\<lambda>i. if int i < k then hdr_block bs i else hblock (lh (lg s)) ! i) [0..<LOGBLOCKS] in
       brelse b (s\<lparr>lg := (lg s)\<lparr>lh := \<lparr>lh_n = k, hblock = blks\<rparr>\<rparr>\<rparr>))"

definition write_head :: "'a logst_scheme \<Rightarrow> (unit, 'a logst_scheme) outcome" where
  "write_head s =
     bindo (bread (ldev (lg s)) (lstart (lg s)) s) (\<lambda>b s.
     bindo (bwrite b (set_data b (put_head (lh (lg s)) (get_data b s)) s)) (\<lambda>_ s. brelse b s))"

definition clear_head :: "'a logst_scheme \<Rightarrow> 'a logst_scheme" where
  "clear_head s = s\<lparr>lg := (lg s)\<lparr>lh := (lh (lg s))\<lparr>lh_n := 0\<rparr>\<rparr>\<rparr>"

definition recover_from_log :: "'a logst_scheme \<Rightarrow> (unit, 'a logst_scheme) outcome" where
  "recover_from_log s =
     bindo (read_head s) (\<lambda>_ s. bindo (install_trans True s) (\<lambda>_ s. write_head (clear_head s)))"

text \<open>\<open>sizeof(struct logheader)\<close> is 4 + 4 * LOGBLOCKS bytes.\<close>

definition initlog :: "u32 \<Rightarrow> u32 \<Rightarrow> 'a logst_scheme \<Rightarrow> (unit, 'a logst_scheme) outcome" where
  "initlog d logstart s =
     (if 4 + 4 * LOGBLOCKS \<ge> BSIZE then Panic ''initlog: too big logheader''
      else recover_from_log (s\<lparr>lg := (lg s)\<lparr>lstart := logstart, ldev := d\<rparr>\<rparr>))"

definition begin_op :: "'a logst_scheme \<Rightarrow> (unit, 'a logst_scheme) outcome" where
  "begin_op s =
     (if committing (lg s) then Sleep (Named ''log'') s
      else if lh_n (lh (lg s)) + (outstanding (lg s) + 1) * int MAXOPBLOCKS > int LOGBLOCKS then Sleep (Named ''log'') s
      else Ret () (s\<lparr>lg := (lg s)\<lparr>outstanding := outstanding (lg s) + 1\<rparr>\<rparr>))"

definition write_step :: "nat \<Rightarrow> 'a logst_scheme \<Rightarrow> (unit, 'a logst_scheme) outcome" where
  "write_step tail s =
     bindo (bread (ldev (lg s)) (log_block s tail) s) (\<lambda>to_b s.
     bindo (bread (ldev (lg s)) (hblock (lh (lg s)) ! tail) s) (\<lambda>from s.
     bindo (bwrite to_b (set_data to_b (get_data from s) s)) (\<lambda>_ s.
     bindo (brelse from s) (\<lambda>_ s. brelse to_b s))))"

definition write_log :: "'a logst_scheme \<Rightarrow> (unit, 'a logst_scheme) outcome" where
  "write_log s = forM [0..<nat (lh_n (lh (lg s)))] write_step s"

definition commit :: "'a logst_scheme \<Rightarrow> (unit, 'a logst_scheme) outcome" where
  "commit s =
     (if lh_n (lh (lg s)) > 0
      then bindo (write_log s) (\<lambda>_ s. bindo (write_head s) (\<lambda>_ s. bindo (install_trans False s) (\<lambda>_ s.
             write_head (clear_head s))))
      else Ret () s)"

definition end_op :: "'a logst_scheme \<Rightarrow> (unit, 'a logst_scheme) outcome" where
  "end_op s =
     (let s = s\<lparr>lg := (lg s)\<lparr>outstanding := outstanding (lg s) - 1\<rparr>\<rparr> in
      if committing (lg s) then Panic ''log.committing''
      else if outstanding (lg s) = 0
      then bindo (commit (s\<lparr>lg := (lg s)\<lparr>committing := True\<rparr>\<rparr>)) (\<lambda>_ s.
             Ret () (s\<lparr>lg := (lg s)\<lparr>committing := False\<rparr>\<rparr>))
      else Ret () s)"

text \<open>The search loop of \<open>log_write\<close>: the first index with that block number, or \<open>n\<close>.\<close>

definition log_index :: "logheader \<Rightarrow> u32 \<Rightarrow> nat" where
  "log_index h bn = length (takeWhile (\<lambda>i. hblock h ! i \<noteq> bn) [0..<nat (lh_n h)])"

definition log_write :: "nat \<Rightarrow> 'a logst_scheme \<Rightarrow> (unit, 'a logst_scheme) outcome" where
  "log_write b s =
     (if lh_n (lh (lg s)) \<ge> int LOGBLOCKS then Panic ''too big a transaction''
      else if outstanding (lg s) < 1 then Panic ''log_write outside of trans''
      else let h = lh (lg s); bn = blockno (bufs s ! b); i = log_index h bn;
               h = h\<lparr>hblock := (hblock h)[i := bn]\<rparr> in
        if int i = lh_n h
        then Ret () ((bpin b s)\<lparr>lg := (lg s)\<lparr>lh := h\<lparr>lh_n := lh_n h + 1\<rparr>\<rparr>\<rparr>)
        else Ret () (s\<lparr>lg := (lg s)\<lparr>lh := h\<rparr>\<rparr>))"

section \<open>Sequences of disk writes\<close>

definition apply_writes :: "(u32 \<Rightarrow> u8 list) \<Rightarrow> (u32 \<times> u8 list) list \<Rightarrow> u32 \<Rightarrow> u8 list" where
  "apply_writes d ws = foldl (\<lambda>d (b, x). d(b := x)) d ws"

lemma apply_writes_simps [simp]:
  "apply_writes d [] = d" "apply_writes d ((b, x) # ws) = apply_writes (d(b := x)) ws"
  "apply_writes d (ws @ vs) = apply_writes (apply_writes d ws) vs"
  by (simp_all add: apply_writes_def)

lemma apply_writes_other: "b \<notin> fst ` set ws \<Longrightarrow> apply_writes d ws b = d b"
  by (induction ws arbitrary: d) auto

lemma apply_writes_in:
  "distinct (map fst ws) \<Longrightarrow> (b, x) \<in> set ws \<Longrightarrow> apply_writes d ws b = x"
proof (induction ws arbitrary: d)
  case (Cons w ws)
  then show ?case by (cases w) (auto simp: apply_writes_other image_iff)
qed simp

lemma apply_writes_same:
  "\<forall>(b, x)\<in>set ws. c b = x \<Longrightarrow> apply_writes d ws b = (if b \<in> fst ` set ws then c b else d b)"
proof (induction ws arbitrary: d)
  case (Cons w ws)
  then show ?case by (cases w) (simp add: image_iff)
qed simp

lemma apply_writes_id: "\<forall>(b, x)\<in>set ws. d b = x \<Longrightarrow> apply_writes d ws = d"
  by (rule ext) (simp add: apply_writes_same [where c = d])

section \<open>The header block\<close>

lemma put_blocks_length:
  assumes "length bs = BSIZE" "k \<le> LOGBLOCKS"
  shows "length (foldl (\<lambda>bs i. blk_put bs (4 + 4 * i) (le_bytes 4 (f i :: u32))) bs [0..<k]) = BSIZE"
  using assms by (induction k) (simp_all add: BSIZE_def LOGBLOCKS_def MAXOPBLOCKS_def)

lemma put_blocks_get:
  assumes len: "length bs = BSIZE" and k: "k \<le> LOGBLOCKS" and o: "o' + 4 \<le> BSIZE" "4 dvd o'"
  shows "blk_get (foldl (\<lambda>bs i. blk_put bs (4 + 4 * i) (le_bytes 4 (f i :: u32))) bs [0..<k]) o' 4 =
    (if 4 \<le> o' \<and> o' < 4 + 4 * k then le_bytes 4 (f ((o' - 4) div 4)) else blk_get bs o' 4)"
  using k
proof (induction k)
  case (Suc k)
  let ?c = "foldl (\<lambda>bs i. blk_put bs (4 + 4 * i) (le_bytes 4 (f i :: u32))) bs [0..<k]"
  have l: "length ?c = BSIZE" using len Suc.prems by (intro put_blocks_length) auto
  have r: "4 + 4 * k + 4 \<le> BSIZE" using Suc.prems by (simp add: BSIZE_def LOGBLOCKS_def MAXOPBLOCKS_def)
  show ?case
  proof (cases "o' = 4 + 4 * k")
    case True
    then show ?thesis using l r by simp
  next
    case False
    then have ne: "o' + 4 \<le> 4 + 4 * k \<or> 4 + 4 * k + 4 \<le> o'" using o(2) by (elim dvdE) presburger
    then have "blk_get (blk_put ?c (4 + 4 * k) (le_bytes 4 (f k))) o' 4 = blk_get ?c o' 4"
      using l r o(1) by (intro blk_get_put_other) simp_all
    then show ?thesis using Suc ne by auto
  qed
qed auto

lemma put_head_length: "length bs = BSIZE \<Longrightarrow> lh_n h \<le> int LOGBLOCKS \<Longrightarrow> length (put_head h bs) = BSIZE"
  unfolding put_head_def by (rule put_blocks_length) (simp_all add: BSIZE_def nat_le_iff)

lemma sint_of_int_small: "0 \<le> k \<Longrightarrow> k < 2 ^ 31 \<Longrightarrow> sint (of_int k :: u32) = k"
  by (simp add: sint_sbintrunc' signed_take_bit_int_eq_self)

lemma put_head_n:
  assumes "length bs = BSIZE" "0 \<le> lh_n h" "lh_n h \<le> int LOGBLOCKS"
  shows "hdr_n (put_head h bs) = lh_n h"
proof -
  have "blk_get (put_head h bs) 0 4 = le_bytes 4 (of_int (lh_n h) :: u32)"
    unfolding put_head_def using assms
    by (subst put_blocks_get) (simp_all add: BSIZE_def nat_le_iff)
  then show ?thesis using assms by (simp add: hdr_n_def sint_of_int_small LOGBLOCKS_def MAXOPBLOCKS_def)
qed

lemma put_head_block:
  assumes "length bs = BSIZE" "lh_n h \<le> int LOGBLOCKS" "int i < lh_n h"
  shows "hdr_block (put_head h bs) i = hblock h ! i"
proof -
  have i: "i < nat (lh_n h)" "i < LOGBLOCKS" using assms by (simp_all add: zless_nat_eq_int_zless)
  then have "blk_get (put_head h bs) (4 + 4 * i) 4 = le_bytes 4 (hblock h ! i)"
    unfolding put_head_def using assms
    by (subst put_blocks_get) (simp_all add: BSIZE_def nat_le_iff LOGBLOCKS_def MAXOPBLOCKS_def)
  then show ?thesis by (simp add: hdr_block_def)
qed

section \<open>The operations on a quiescent log\<close>

text \<open>
  The log area does not wrap around the block numbers, and the blocks of the
  transaction are distinct and lie outside it.
\<close>

definition log_area :: "loginfo \<Rightarrow> u32 set" where
  "log_area l = {b. lstart l \<le> b \<and> unat b \<le> unat (lstart l) + LOGBLOCKS}"

definition logged :: "logheader \<Rightarrow> u32 list" where
  "logged h = take (nat (lh_n h)) (hblock h)"

definition log_ok :: "loginfo \<Rightarrow> bool" where
  "log_ok l \<longleftrightarrow> ldev l = ROOTDEV \<and> unat (lstart l) + LOGBLOCKS < 2 ^ 32 \<and> 0 \<le> lh_n (lh l) \<and>
     lh_n (lh l) \<le> int LOGBLOCKS \<and> length (hblock (lh l)) = LOGBLOCKS \<and> distinct (logged (lh l)) \<and>
     set (logged (lh l)) \<inter> log_area l = {}"

definition lblock :: "loginfo \<Rightarrow> nat \<Rightarrow> u32" where
  "lblock l i = lstart l + of_nat i + 1"

lemma log_block_eq: "log_block s i = lblock (lg s) i"
  by (simp add: log_block_def lblock_def)

lemma unat_lblock: "log_ok l \<Longrightarrow> i < LOGBLOCKS \<Longrightarrow> unat (lblock l i) = unat (lstart l) + i + 1"
  unfolding log_ok_def lblock_def LOGBLOCKS_def MAXOPBLOCKS_def
  by (simp add: unat_word_ariths unat_of_nat take_bit_eq_mod)

lemma lblock_area: "log_ok l \<Longrightarrow> i < LOGBLOCKS \<Longrightarrow> lblock l i \<in> log_area l"
  by (simp add: log_area_def word_le_nat_alt unat_lblock)

lemma lstart_area: "lstart l \<in> log_area l"
  by (simp add: log_area_def)

lemma lblock_inj: "log_ok l \<Longrightarrow> i < LOGBLOCKS \<Longrightarrow> j < LOGBLOCKS \<Longrightarrow> lblock l i = lblock l j \<longleftrightarrow> i = j"
  by (auto dest!: arg_cong [of _ _ unat] simp: unat_lblock)

lemma lblock_start: "log_ok l \<Longrightarrow> i < LOGBLOCKS \<Longrightarrow> lblock l i \<noteq> lstart l"
  using unat_lblock [of l i] by auto

lemma logged_nth: "log_ok l \<Longrightarrow> i < nat (lh_n (lh l)) \<Longrightarrow> hblock (lh l) ! i \<in> set (logged (lh l))"
  unfolding log_ok_def logged_def by (auto simp: in_set_conv_nth intro!: exI [of _ i])

lemma bio_ext_lg: "bio_ext s t \<Longrightarrow> lg t = lg s"
  by (auto simp: bio_ext_def)

text \<open>The cache between operations: nothing locked, reference counts far from wrapping around, a free buffer.\<close>

definition quiet :: "'a bio_scheme \<Rightarrow> bool" where
  "quiet s \<longleftrightarrow> bc_inv s \<and> (\<forall>b. \<not> held s b) \<and> (\<forall>b. refs s b + 2 < 2 ^ 32) \<and> card {b. 0 < refs s b} < NBUF"

definition log_writes :: "loginfo \<Rightarrow> (u32 \<Rightarrow> u8 list) \<Rightarrow> nat \<Rightarrow> (u32 \<times> u8 list) list" where
  "log_writes l c k = map (\<lambda>i. (lblock l i, c (hblock (lh l) ! i))) [0..<k]"

definition home_writes :: "loginfo \<Rightarrow> (u32 \<Rightarrow> u8 list) \<Rightarrow> nat \<Rightarrow> (u32 \<times> u8 list) list" where
  "home_writes l c k = map (\<lambda>i. (hblock (lh l) ! i, c (lblock l i))) [0..<k]"

definition written :: "'a bio_scheme \<Rightarrow> 'a bio_scheme \<Rightarrow> (u32 \<times> u8 list) list \<Rightarrow> (u32 \<Rightarrow> nat) \<Rightarrow> bool" where
  "written s t ws r \<longleftrightarrow> quiet t \<and> bio_ext s t \<and> content t = apply_writes (content s) ws \<and>
     disk t = apply_writes (disk s) ws \<and> dwrites t = dwrites s @ ws \<and> refs t = r"

lemma written_refl: "quiet s \<Longrightarrow> written s s [] (refs s)"
  by (simp add: written_def)

lemma written_trans: "written s t ws r \<Longrightarrow> written t u vs r' \<Longrightarrow> written s u (ws @ vs) r'"
  unfolding written_def using bio_ext_trans by auto

lemma quietI:
  assumes "quiet s" "bc_inv t" "\<And>b. refs t b \<le> refs s b" "held t = held s"
  shows "quiet t"
proof -
  have "card {b. 0 < refs t b} \<le> card {b. 0 < refs s b}"
    using assms(3) by (intro card_mono finite) (auto intro: less_le_trans)
  moreover have "refs t b + 2 < 2 ^ 32" for b
    using assms(1) assms(3) [of b] by (simp add: quiet_def le_less_trans [of "refs t b" "refs s b"])
  ultimately show ?thesis using assms unfolding quiet_def by auto
qed

lemma write_step_ok:
  assumes q: "quiet s" and l: "log_ok (lg s)" and i: "i < nat (lh_n (lh (lg s)))"
    and pin: "0 < refs s (hblock (lh (lg s)) ! i)"
  shows "\<exists>t. write_step i s = Ret () t \<and>
    written s t [(lblock (lg s) i, content s (hblock (lh (lg s)) ! i))] (refs s)"
proof -
  let ?a = "lblock (lg s) i" and ?b = "hblock (lh (lg s)) ! i"
  have iL: "i < LOGBLOCKS" and dv: "ldev (lg s) = ROOTDEV" using i l by (auto simp: log_ok_def)
  have ab: "?a \<noteq> ?b" using lblock_area [OF l iL] logged_nth [OF l i] l by (auto simp: log_ok_def)
  have qs: "bc_inv s" "\<not> held s ?a" "\<not> held s ?b" "refs s ?a + 1 < 2 ^ 32" "refs s ?b + 1 < 2 ^ 32"
      "card {x. 0 < refs s x} < NBUF"
    using q by (simp_all add: quiet_def less_trans [of _ "4294967294"])
  obtain x y t u where r: "bread ROOTDEV ?a s = Ret x t" "bread ROOTDEV ?b t = Ret y u" "bio_ext s t" "bc_inv u" "bio_ext s u"
      "mine u ?a x" "mine u ?b y" "content u = content s"
      "refs u = (refs s)(?a := refs s ?a + 1, ?b := refs s ?b + 1)" "held u = (held s)(?a := True, ?b := True)"
      "disk u = disk s" "dwrites u = dwrites s"
    using bc.read_two [OF qs(1) ab qs(2-5)] pin qs(6) by blast
  have gd: "get_data y u = content s ?b" using bc.own_data [OF r(4) r(7)] r(8) by simp
  obtain v where v: "bwrite x (set_data x (content s ?b) u) = Ret () v" "bc_inv v" "bio_ext u v" "mine v ?a x" "mine v ?b y"
      "content v = (content u)(?a := content s ?b)" "disk v = (disk u)(?a := content s ?b)"
      "dwrites v = dwrites u @ [(?a, content s ?b)]" "refs v = refs u" "held v = held u"
    using bc.write_back [OF r(4) r(6) bc.cont_len [OF qs(1)]] r(7) ab by metis
  have cl: "refs v ?b = 1 \<Longrightarrow> content v ?b = disk v ?b" "refs v ?a = 1 \<Longrightarrow> content v ?a = disk v ?a"
    using v r pin by auto
  obtain w where w: "bindo (brelse y v) (\<lambda>_. brelse x) = Ret () w" "bc_inv w" "bio_ext v w" "content w = content v"
      "disk w = disk v" "dwrites w = dwrites v" "refs w = (refs v)(?b := refs v ?b - 1, ?a := refs v ?a - 1)"
      "held w = (held v)(?b := False, ?a := False)"
    using bc.release_two [OF v(2) v(5) v(4) ab [symmetric] cl] by blast
  have e: "write_step i s = Ret () w"
    using r(1,2) v(1) w(1) bio_ext_lg [OF r(3)] bio_ext_lg [OF r(5)] dv gd
    unfolding write_step_def log_block_eq by simp
  have rw: "refs w = refs s" "held w = held s" using w(7,8) v(9,10) r(9,10) ab qs(2,3) by (simp_all add: fun_eq_iff)
  have "quiet w" by (rule quietI [OF q w(2)]) (simp_all add: rw)
  then have "written s w [(?a, content s ?b)] (refs s)"
    unfolding written_def using r(8,11,12) v(6-8) w(4-6) rw(1) bio_ext_trans [OF r(5) bio_ext_trans [OF v(3) w(3)]] by simp
  with e show ?thesis by blast
qed

lemma install_step_ok:
  assumes q: "quiet s" and l: "log_ok (lg s)" and i: "i < nat (lh_n (lh (lg s)))"
    and pin: "if recovering then card {b. 0 < refs s b} + 2 \<le> NBUF else 0 < refs s (hblock (lh (lg s)) ! i)"
  shows "\<exists>t. install_step recovering i s = Ret () t \<and>
    written s t [(hblock (lh (lg s)) ! i, content s (lblock (lg s) i))]
      (if recovering then refs s else (refs s)(hblock (lh (lg s)) ! i := refs s (hblock (lh (lg s)) ! i) - 1))"
proof -
  let ?a = "lblock (lg s) i" and ?b = "hblock (lh (lg s)) ! i"
  have iL: "i < LOGBLOCKS" and dv: "ldev (lg s) = ROOTDEV" using i l by (auto simp: log_ok_def)
  have ab: "?a \<noteq> ?b" using lblock_area [OF l iL] logged_nth [OF l i] l by (auto simp: log_ok_def)
  have qs: "bc_inv s" "\<not> held s ?a" "\<not> held s ?b" "refs s ?a + 1 < 2 ^ 32" "refs s ?b + 1 < 2 ^ 32"
      "card {x. 0 < refs s x} < NBUF"
    using q by (simp_all add: quiet_def less_trans [of _ "4294967294"])
  have room: "card {x. 0 < refs s x} + 2 \<le> NBUF \<or> 0 < refs s ?b \<and> card {x. 0 < refs s x} < NBUF"
    using pin qs(6) by (auto split: if_splits)
  obtain x y t u where r: "bread ROOTDEV ?a s = Ret x t" "bread ROOTDEV ?b t = Ret y u" "bio_ext s t" "bc_inv u" "bio_ext s u"
      "mine u ?a x" "mine u ?b y" "content u = content s"
      "refs u = (refs s)(?a := refs s ?a + 1, ?b := refs s ?b + 1)" "held u = (held s)(?a := True, ?b := True)"
      "disk u = disk s" "dwrites u = dwrites s"
    using bc.read_two [OF qs(1) ab qs(2-5) room] by blast
  have gd: "get_data x u = content s ?a" using bc.own_data [OF r(4) r(6)] r(8) by simp
  obtain v where v: "bwrite y (set_data y (content s ?a) u) = Ret () v" "bc_inv v" "bio_ext u v" "mine v ?a x" "mine v ?b y"
      "content v = (content u)(?b := content s ?a)" "disk v = (disk u)(?b := content s ?a)"
      "dwrites v = dwrites u @ [(?b, content s ?a)]" "refs v = refs u" "held v = held u"
    using bc.write_back [OF r(4) r(7) bc.cont_len [OF qs(1)]] r(6) ab by metis
  let ?v = "if recovering then v else bunpin y v"
  let ?r = "if recovering then refs v else (refs v)(?b := refs v ?b - 1)"
  have st: "bc_inv ?v \<and> bio_ext v ?v \<and> content ?v = content v \<and> refs ?v = ?r \<and> held ?v = held v \<and> mine ?v ?a x \<and>
      mine ?v ?b y \<and> disk ?v = disk v \<and> dwrites ?v = dwrites v"
  proof (cases recovering)
    case False
    have "1 < refs v ?b" using False pin v(9) r(9) ab by simp
    note un = unpin_ok [OF v(2) v(5) this]
    have "held v ?b" using v(10) r(10) by simp
    then show ?thesis using False un bc.step_D [OF conjunct1 [OF un]] v(4) ab by (auto simp: fun_eq_iff)
  qed (use v in simp)
  have ra: "refs ?v ?a = refs s ?a + 1" using st v(9) r(9) ab by simp
  have "refs ?v ?a = 1 \<Longrightarrow> content ?v ?a = disk ?v ?a"
    using ra st v(6,7) r(8,11) ab bc.clean [OF qs(1), of ?a] by simp
  moreover have "content ?v ?b = disk ?v ?b" using st v(6,7) by simp
  ultimately obtain w where w: "bindo (brelse x ?v) (\<lambda>_. brelse y) = Ret () w" "bc_inv w" "bio_ext ?v w" "content w = content ?v"
      "disk w = disk ?v" "dwrites w = dwrites ?v" "refs w = (refs ?v)(?a := refs ?v ?a - 1, ?b := refs ?v ?b - 1)"
      "held w = (held ?v)(?a := False, ?b := False)"
    using bc.release_two [of ?v ?a x ?b y] st ab by blast
  have e: "install_step recovering i s = Ret () w"
    using r(1,2) v(1) w(1) bio_ext_lg [OF r(3)] bio_ext_lg [OF r(5)] dv gd
    unfolding install_step_def log_block_eq by (simp add: Let_def)
  have rw: "refs w = (if recovering then refs s else (refs s)(?b := refs s ?b - 1))" "held w = held s"
    using w(7,8) st v(9,10) r(9,10) ab qs(2,3) by (simp_all add: fun_eq_iff)
  have "quiet w" by (rule quietI [OF q w(2)]) (simp_all add: rw)
  moreover have "bio_ext s w" using bio_ext_trans [OF r(5) bio_ext_trans [OF v(3) bio_ext_trans [OF _ w(3)]]] st by blast
  ultimately have "written s w [(?b, content s ?a)] (refs w)"
    unfolding written_def using r(8,11,12) v(6-8) w(4-6) st by simp
  with e rw(1) show ?thesis by auto
qed

lemma write_head_ok:
  assumes q: "quiet s" and l: "log_ok (lg s)" and free: "refs s (lstart (lg s)) = 0"
  shows "\<exists>t. write_head s = Ret () t \<and>
    written s t [(lstart (lg s), put_head (lh (lg s)) (content s (lstart (lg s))))] (refs s)"
proof -
  let ?a = "lstart (lg s)"
  let ?x = "put_head (lh (lg s)) (content s ?a)"
  have qs: "bc_inv s" "\<not> held s ?a" "refs s ?a + 1 < 2 ^ 32" "0 < refs s ?a \<or> card {x. 0 < refs s x} < NBUF"
    using q by (simp_all add: quiet_def less_trans [of _ "4294967294"])
  have len: "length ?x = BSIZE" using l bc.cont_len [OF qs(1)] by (intro put_head_length) (auto simp: log_ok_def)
  obtain i t where t: "bread ROOTDEV ?a s = Ret i t" "bc_step s t ?a (content s ?a) (refs s ?a + 1) True" "mine t ?a i"
      "get_data i t = content s ?a" "disk t = disk s" "dwrites t = dwrites s"
    using bc.rd_law [OF qs] by blast
  note st = bc.step_D [OF t(2)]
  obtain v where v: "bwrite i (set_data i ?x t) = Ret () v" "bc_inv v" "bio_ext t v" "mine v ?a i"
      "content v = (content t)(?a := ?x)" "disk v = (disk t)(?a := ?x)"
      "dwrites v = dwrites t @ [(?a, ?x)]" "refs v = refs t" "held v = held t"
    using bc.write_back [OF _ t(3) len] st by blast
  have "content v ?a = disk v ?a" using v(5,6) by simp
  then obtain w where w: "brelse i v = Ret () w" "bc_step v w ?a (content v ?a) (refs v ?a - 1) False"
      "disk w = disk v" "dwrites w = dwrites v"
    using bc.rel_law [OF v(2) v(4)] by blast
  note sw = bc.step_D [OF w(2)]
  have lgt: "lg t = lg s" using st bio_ext_lg by blast
  have e: "write_head s = Ret () w"
    using t(1,4) v(1) w(1) lgt l unfolding write_head_def by (simp add: log_ok_def)
  have rw: "refs w = refs s" "held w = held s" using st sw v(8,9) qs(2) by (auto simp: fun_eq_iff)
  have "quiet w" by (rule quietI [OF q conjunct1 [OF sw]]) (simp_all add: rw)
  moreover have "bio_ext s w" using st sw v(3) bio_ext_trans by blast
  ultimately have "written s w [(?a, ?x)] (refs s)"
    unfolding written_def using st sw v(5-7) w(3,4) t(5,6) rw(1) by (simp add: fun_eq_iff)
  with e show ?thesis by blast
qed

section \<open>Commit and recovery\<close>

definition pinned :: "'a logst_scheme \<Rightarrow> bool" where
  "pinned s \<longleftrightarrow> list_all (\<lambda>b. 0 < refs s b) (logged (lh (lg s)))"

lemma pinnedD: "pinned s \<Longrightarrow> log_ok (lg s) \<Longrightarrow> i < nat (lh_n (lh (lg s))) \<Longrightarrow> 0 < refs s (hblock (lh (lg s)) ! i)"
  using logged_nth by (auto simp: pinned_def list_all_iff)

lemma home_not_log:
  "log_ok l \<Longrightarrow> i < nat (lh_n (lh l)) \<Longrightarrow> j < LOGBLOCKS \<Longrightarrow> hblock (lh l) ! i \<noteq> lblock l j"
  using logged_nth [of l i] lblock_area [of l j] by (auto simp: log_ok_def)

lemma home_not_start: "log_ok l \<Longrightarrow> i < nat (lh_n (lh l)) \<Longrightarrow> hblock (lh l) ! i \<noteq> lstart l"
  using logged_nth [of l i] lstart_area [of l] by (auto simp: log_ok_def)

lemma n_LOGBLOCKS: "log_ok l \<Longrightarrow> nat (lh_n (lh l)) \<le> LOGBLOCKS"
  by (simp add: log_ok_def nat_le_iff)

lemma writtenD:
  assumes "written s t ws r"
  shows "quiet t" "lg t = lg s" "content t = apply_writes (content s) ws" "disk t = apply_writes (disk s) ws"
    "dwrites t = dwrites s @ ws" "refs t = r"
  using assms bio_ext_lg by (auto simp: written_def)

lemma write_log_ok:
  assumes q: "quiet s" and l: "log_ok (lg s)" and pin: "pinned s"
  shows "\<exists>t. write_log s = Ret () t \<and> written s t (log_writes (lg s) (content s) (nat (lh_n (lh (lg s))))) (refs s)"
proof -
  let ?N = "nat (lh_n (lh (lg s)))"
  have step: "\<exists>u. write_step ([0..<?N] ! k) t = Ret () u \<and> written s u (log_writes (lg s) (content s) (Suc k)) (refs s)"
    if k: "k < length [0..<?N]" and w: "written s t (log_writes (lg s) (content s) k) (refs s)" for k t
  proof -
    note wd = writtenD [OF w]
    have kN: "k < ?N" using k by simp
    have "hblock (lh (lg s)) ! k \<notin> fst ` set (log_writes (lg s) (content s) k)"
      using home_not_log [OF l kN less_le_trans [OF less_trans [OF _ kN] n_LOGBLOCKS [OF l]]]
      by (simp add: log_writes_def image_image image_iff)
    then have c: "content t (hblock (lh (lg s)) ! k) = content s (hblock (lh (lg s)) ! k)"
      by (simp add: wd(3) apply_writes_other)
    obtain u where u: "write_step k t = Ret () u"
        "written t u [(lblock (lg s) k, content s (hblock (lh (lg s)) ! k))] (refs s)"
      using write_step_ok [OF wd(1), of k] l kN pinnedD [OF pin l kN] c wd by auto
    then show ?thesis using written_trans [OF w u(2)] kN by (simp add: log_writes_def)
  qed
  have "written s s (log_writes (lg s) (content s) 0) (refs s)" using written_refl [OF q] by (simp add: log_writes_def)
  from forM_inv [where I = "\<lambda>k t. written s t (log_writes (lg s) (content s) k) (refs s)", OF this step]
  show ?thesis by (simp add: write_log_def)
qed

definition dropped :: "bool \<Rightarrow> u32 list \<Rightarrow> (u32 \<Rightarrow> nat) \<Rightarrow> u32 \<Rightarrow> nat" where
  "dropped recovering bs r b = (if \<not> recovering \<and> b \<in> set bs then r b - 1 else r b)"

lemma install_trans_ok:
  assumes q: "quiet s" and l: "log_ok (lg s)"
    and pin: "if recovering then card {b. 0 < refs s b} + 2 \<le> NBUF else pinned s"
  shows "\<exists>t. install_trans recovering s = Ret () t \<and>
    written s t (home_writes (lg s) (content s) (nat (lh_n (lh (lg s))))) (dropped recovering (logged (lh (lg s))) (refs s))"
proof -
  let ?N = "nat (lh_n (lh (lg s)))" and ?B = "hblock (lh (lg s))"
  let ?R = "\<lambda>k. dropped recovering (take k ?B) (refs s)"
  have NL: "?N \<le> length ?B" using l n_LOGBLOCKS [OF l] by (simp add: log_ok_def)
  have step: "\<exists>u. install_step recovering ([0..<?N] ! k) t = Ret () u \<and> written s u (home_writes (lg s) (content s) (Suc k)) (?R (Suc k))"
    if k: "k < length [0..<?N]" and w: "written s t (home_writes (lg s) (content s) k) (?R k)" for k t
  proof -
    note wd = writtenD [OF w]
    have kN: "k < ?N" using k by simp
    have "lblock (lg s) k \<notin> fst ` set (home_writes (lg s) (content s) k)"
      using home_not_log [OF l less_trans [OF _ kN] less_le_trans [OF kN n_LOGBLOCKS [OF l]], THEN not_sym]
      by (simp add: home_writes_def image_image image_iff)
    then have c: "content t (lblock (lg s) k) = content s (lblock (lg s) k)"
      by (simp add: wd(3) apply_writes_other)
    have "distinct (take ?N ?B)" using l by (simp add: log_ok_def logged_def)
    then have nin: "?B ! k \<notin> set (take k ?B)"
      using kN NL by (fastforce simp: in_set_conv_nth distinct_conv_nth)
    have tk: "take (Suc k) ?B = take k ?B @ [?B ! k]" using kN NL by (simp add: take_Suc_conv_app_nth)
    have p: "if recovering then card {b. 0 < refs t b} + 2 \<le> NBUF else 0 < refs t (?B ! k)"
      using pin pinnedD [OF _ l kN] nin by (auto simp: wd(6) dropped_def split: if_splits)
    have R: "(if recovering then refs t else (refs t)(?B ! k := refs t (?B ! k) - 1)) = ?R (Suc k)"
      using nin by (auto simp: wd(6) dropped_def tk)
    obtain u where u: "install_step recovering k t = Ret () u"
        "written t u [(?B ! k, content s (lblock (lg s) k))] (?R (Suc k))"
      using install_step_ok [OF wd(1), of k recovering, unfolded wd(2), OF l kN p] unfolding R c by blast
    then show ?thesis using written_trans [OF w u(2)] kN by (simp add: home_writes_def)
  qed
  have "?R 0 = refs s" by (auto simp: dropped_def)
  then have "written s s (home_writes (lg s) (content s) 0) (?R 0)" using written_refl [OF q] by (simp add: home_writes_def)
  from forM_inv [where I = "\<lambda>k t. written s t (home_writes (lg s) (content s) k) (?R k)", OF this step]
  show ?thesis by (simp add: install_trans_def logged_def)
qed

lemma lg_update_cache [simp]:
  "cached (s\<lparr>lg := x\<rparr>) = cached s" "content (s\<lparr>lg := x\<rparr>) = content s" "refs (s\<lparr>lg := x\<rparr>) = refs s"
  "held (s\<lparr>lg := x\<rparr>) = held s" "bc_inv (s\<lparr>lg := x\<rparr>) = bc_inv s" "mine (s\<lparr>lg := x\<rparr>) = mine s"
  "get_data b (s\<lparr>lg := x\<rparr>) = get_data b s"
  by (simp_all add: fun_eq_iff cached_def content_def refs_def held_def bc_inv_def mine_def get_data_def cong: option.case_cong)

lemma lg_update_quiet [simp]: "quiet (s\<lparr>lg := x\<rparr>) = quiet s"
  by (simp add: quiet_def)

lemma clear_head_frame [simp]:
  "content (clear_head s) = content s" "disk (clear_head s) = disk s" "dwrites (clear_head s) = dwrites s"
  "refs (clear_head s) = refs s" "quiet (clear_head s) = quiet s"
  "lg (clear_head s) = (lg s)\<lparr>lh := (lh (lg s))\<lparr>lh_n := 0\<rparr>\<rparr>"
  by (simp_all add: clear_head_def)

lemma log_ok_clear: "log_ok l \<Longrightarrow> log_ok (l\<lparr>lh := (lh l)\<lparr>lh_n := 0\<rparr>\<rparr>)"
  by (simp add: log_ok_def logged_def log_area_def)

text \<open>The disk writes of a commit, in order: the log blocks, the header, the home blocks, the cleared header.\<close>

definition commit_writes :: "loginfo \<Rightarrow> (u32 \<Rightarrow> u8 list) \<Rightarrow> (u32 \<times> u8 list) list" where
  "commit_writes l c =
     (let k = nat (lh_n (lh l)); h = put_head (lh l) (c (lstart l)) in
      log_writes l c k @ [(lstart l, h)] @ map (\<lambda>b. (b, c b)) (logged (lh l)) @
      [(lstart l, put_head ((lh l)\<lparr>lh_n := 0\<rparr>) h)])"

lemma map_logged: "log_ok l \<Longrightarrow> map f (logged (lh l)) = map (\<lambda>i. f (hblock (lh l) ! i)) [0..<nat (lh_n (lh l))]"
  unfolding logged_def using n_LOGBLOCKS [of l] by (auto intro!: nth_equalityI simp: log_ok_def)

lemma log_writes_dist: "log_ok l \<Longrightarrow> k \<le> LOGBLOCKS \<Longrightarrow> distinct (map fst (log_writes l c k))"
  using lblock_inj [of l] by (auto simp: log_writes_def distinct_map inj_on_def o_def)

lemma log_writes_at:
  assumes "log_ok l" "i < k" "k \<le> LOGBLOCKS"
  shows "apply_writes d (log_writes l c k) (lblock l i) = c (hblock (lh l) ! i)"
  using assms by (intro apply_writes_in log_writes_dist) (auto simp: log_writes_def)

lemma commit_ok:
  assumes q: "quiet s" and l: "log_ok (lg s)" and pin: "pinned s" and h: "refs s (lstart (lg s)) = 0" and n: "0 < lh_n (lh (lg s))"
  shows "\<exists>t. commit s = Ret () t \<and> quiet t \<and> dwrites t = dwrites s @ commit_writes (lg s) (content s) \<and>
    disk t = apply_writes (disk s) (commit_writes (lg s) (content s)) \<and>
    lg t = (lg s)\<lparr>lh := (lh (lg s))\<lparr>lh_n := 0\<rparr>\<rparr> \<and> refs t = dropped False (logged (lh (lg s))) (refs s)"
proof -
  let ?N = "nat (lh_n (lh (lg s)))" and ?a = "lstart (lg s)"
  let ?W1 = "log_writes (lg s) (content s) ?N"
  note NL = n_LOGBLOCKS [OF l]
  obtain t where t: "write_log s = Ret () t" "written s t ?W1 (refs s)" using write_log_ok [OF q l pin] by blast
  note td = writtenD [OF t(2)]
  have "?a \<notin> fst ` set ?W1"
    using lblock_start [OF l less_le_trans [OF _ NL], THEN not_sym] by (simp add: log_writes_def image_image image_iff)
  then have ca: "content t ?a = content s ?a" by (simp add: td(3) apply_writes_other)
  let ?H = "put_head (lh (lg s)) (content s ?a)"
  obtain u where u: "write_head t = Ret () u" "written t u [(?a, ?H)] (refs s)"
    using write_head_ok [OF td(1)] l h td(2,6) ca by auto
  note ud = writtenD [OF u(2)]
  have lu: "lg u = lg s" using ud(2) td(2) by simp
  have pu: "pinned u" using pin ud(6) lu by (simp add: pinned_def)
  have cl: "content u (lblock (lg s) i) = content s (hblock (lh (lg s)) ! i)" if i: "i < ?N" for i
    using log_writes_at [OF l i NL] lblock_start [OF l less_le_trans [OF i NL]] by (simp add: ud(3) td(3))
  let ?W3 = "map (\<lambda>b. (b, content s b)) (logged (lh (lg s)))"
  have W3: "home_writes (lg s) (content u) ?N = ?W3" by (simp add: map_logged [OF l] home_writes_def cl)
  obtain v where v: "install_trans False u = Ret () v" "written u v ?W3 (dropped False (logged (lh (lg s))) (refs s))"
    using install_trans_ok [OF ud(1), of False] l pu W3 ud(6) lu by auto
  note vd = writtenD [OF v(2)]
  have "?a \<notin> set (logged (lh (lg s)))" using l lstart_area [of "lg s"] by (auto simp: log_ok_def)
  then have cv: "content v ?a = ?H" "refs v ?a = 0" using h by (auto simp: vd(3,6) ud(3) apply_writes_other dropped_def image_image)
  have "\<exists>w. write_head (clear_head v) = Ret () w \<and> written (clear_head v) w [(?a, put_head ((lh (lg s))\<lparr>lh_n := 0\<rparr>) ?H)] (refs v)"
    using write_head_ok [of "clear_head v"] vd(1,2) lu log_ok_clear [OF l] cv by auto
  then obtain w where w: "write_head (clear_head v) = Ret () w"
      "written (clear_head v) w [(?a, put_head ((lh (lg s))\<lparr>lh_n := 0\<rparr>) ?H)] (refs v)" by blast
  note wd = writtenD [OF w(2)]
  have "commit s = Ret () w" using n t(1) u(1) v(1) w(1) by (simp add: commit_def)
  moreover have "dwrites w = dwrites s @ commit_writes (lg s) (content s)"
    "disk w = apply_writes (disk s) (commit_writes (lg s) (content s))"
    using wd(4,5) vd(4,5) ud(4,5) td(4,5) by (simp_all add: commit_writes_def Let_def)
  ultimately show ?thesis using wd(1,2,6) vd(2,6) lu by auto
qed

text \<open>The log as \<open>read_head\<close> finds it on the disk.\<close>

definition disk_log :: "loginfo \<Rightarrow> (u32 \<Rightarrow> u8 list) \<Rightarrow> loginfo" where
  "disk_log l d =
     l\<lparr>lh := \<lparr>lh_n = hdr_n (d (lstart l)),
       hblock = map (\<lambda>i. if int i < hdr_n (d (lstart l)) then hdr_block (d (lstart l)) i else hblock (lh l) ! i) [0..<LOGBLOCKS]\<rparr>\<rparr>"

lemma read_head_ok:
  assumes q: "quiet s" and l: "log_ok (disk_log (lg s) (disk s))" and free: "refs s (lstart (lg s)) = 0"
  shows "\<exists>t. read_head s = Ret () t \<and> quiet t \<and> lg t = disk_log (lg s) (disk s) \<and> content t = content s \<and>
    disk t = disk s \<and> dwrites t = dwrites s \<and> refs t = refs s"
proof -
  let ?a = "lstart (lg s)"
  have qs: "bc_inv s" "\<not> held s ?a" "refs s ?a + 1 < 2 ^ 32" "0 < refs s ?a \<or> card {x. 0 < refs s x} < NBUF"
    using q by (simp_all add: quiet_def less_trans [of _ "4294967294"])
  have ca: "content s ?a = disk s ?a" using bc.clean [OF qs(1) free] by simp
  obtain i t where t: "bread ROOTDEV ?a s = Ret i t" "bc_step s t ?a (content s ?a) (refs s ?a + 1) True" "mine t ?a i"
      "get_data i t = content s ?a" "disk t = disk s" "dwrites t = dwrites s"
    using bc.rd_law [OF qs] by blast
  note st = bc.step_D [OF t(2)]
  have lgt: "lg t = lg s" using st bio_ext_lg by blast
  let ?t = "t\<lparr>lg := disk_log (lg s) (disk s)\<rparr>"
  have iv: "bc_inv ?t" "mine ?t ?a i" using st t(3) by simp_all
  have "content ?t ?a = disk ?t ?a" using st t(5) ca by simp
  then obtain w where w: "brelse i ?t = Ret () w" "bc_step ?t w ?a (content ?t ?a) (refs ?t ?a - 1) False"
      "disk w = disk ?t" "dwrites w = dwrites ?t"
    using bc.rel_law [OF iv] by blast
  note sw = bc.step_D [OF w(2)]
  have le: "\<not> int LOGBLOCKS < hdr_n (disk s ?a)" and dv: "ldev (lg s) = ROOTDEV" using l by (simp_all add: log_ok_def disk_log_def)
  have "(lg t)\<lparr>lh := \<lparr>lh_n = hdr_n (disk s ?a), hblock = map (\<lambda>i. if int i < hdr_n (disk s ?a) then hdr_block (disk s ?a) i else
        hblock (lh (lg t)) ! i) [0..<LOGBLOCKS]\<rparr>\<rparr> = disk_log (lg s) (disk s)"
    by (simp add: lgt disk_log_def)
  then have e: "read_head s = Ret () w"
    using t(1,4) w(1) ca le dv unfolding read_head_def Let_def by (simp cong: if_cong)
  have rw: "refs w = refs s" "held w = held s" using st sw qs(2) by (auto simp: fun_eq_iff)
  have "quiet w" by (rule quietI [OF q conjunct1 [OF sw]]) (simp_all add: rw)
  moreover have "lg w = disk_log (lg s) (disk s)" using bio_ext_lg [of ?t w] sw by simp
  moreover have "content w = content s" using sw st by (simp add: fun_eq_iff)
  ultimately show ?thesis using e rw(1) w(3,4) t(5,6) by auto
qed

lemma recover_ok:
  assumes q: "quiet s" and l: "log_ok (disk_log (lg s) (disk s))" and free: "\<And>b. refs s b = 0"
  shows "\<exists>u. recover_from_log s = Ret () u \<and> quiet u \<and>
    lg u = (disk_log (lg s) (disk s))\<lparr>lh := (lh (disk_log (lg s) (disk s)))\<lparr>lh_n := 0\<rparr>\<rparr> \<and>
    disk u = apply_writes (disk s) (home_writes (disk_log (lg s) (disk s)) (disk s) (nat (hdr_n (disk s (lstart (lg s)))))
       @ [(lstart (lg s), put_head ((lh (disk_log (lg s) (disk s)))\<lparr>lh_n := 0\<rparr>) (disk s (lstart (lg s))))])"
proof -
  let ?l = "disk_log (lg s) (disk s)" and ?a = "lstart (lg s)"
  obtain t where t: "read_head s = Ret () t" "quiet t" "lg t = ?l" "content t = content s" "disk t = disk s" "refs t = refs s"
    using read_head_ok [OF q l free] by blast
  have cd: "content s = disk s" using bc.clean [of s] free q by (simp add: quiet_def fun_eq_iff)
  have r0: "card {b. 0 < refs t b} + 2 \<le> NBUF" using free by (simp add: t(6) NBUF_def)
  obtain u where u: "install_trans True t = Ret () u"
      "written t u (home_writes ?l (disk s) (nat (hdr_n (disk s ?a)))) (dropped True (logged (lh ?l)) (refs s))"
    using install_trans_ok [OF t(2), of True] l r0 cd t(3,4,6) by (auto simp: disk_log_def)
  note ud = writtenD [OF u(2)]
  have la: "lstart ?l = ?a" "lh_n (lh ?l) = hdr_n (disk s ?a)" by (simp_all add: disk_log_def)
  have "?a \<notin> fst ` set (home_writes ?l (disk s) (nat (hdr_n (disk s ?a))))"
    using home_not_start [OF l, THEN not_sym] by (simp add: home_writes_def la image_image image_iff)
  then have ca: "content u ?a = disk s ?a" by (simp add: ud(3) t(4) cd apply_writes_other)
  have ru: "refs u ?a = 0" using free by (simp add: ud(6) dropped_def)
  have "\<exists>w. write_head (clear_head u) = Ret () w \<and> written (clear_head u) w [(?a, put_head ((lh ?l)\<lparr>lh_n := 0\<rparr>) (disk s ?a))] (refs u)"
    using write_head_ok [of "clear_head u"] ud(1,2) t(3) log_ok_clear [OF l] ca ru la by auto
  then obtain w where w: "write_head (clear_head u) = Ret () w"
      "written (clear_head u) w [(?a, put_head ((lh ?l)\<lparr>lh_n := 0\<rparr>) (disk s ?a))] (refs u)" by blast
  note wd = writtenD [OF w(2)]
  have "recover_from_log s = Ret () w" using t(1) u(1) w(1) by (simp add: recover_from_log_def)
  then show ?thesis using wd(1,2,4) ud(2,4) t(3,5) by auto
qed

text \<open>A machine that has just started: nothing cached, the log at the place the superblock says.\<close>

definition booted :: "loginfo \<Rightarrow> 'a logst_scheme \<Rightarrow> bool" where
  "booted l r \<longleftrightarrow> bc_inv r \<and> (\<forall>b. refs r b = 0) \<and> ldev (lg r) = ROOTDEV \<and> lstart (lg r) = lstart l \<and>
     length (hblock (lh (lg r))) = LOGBLOCKS"

lemma booted_quiet: "booted l r \<Longrightarrow> quiet r"
  using bc.clean [of r] by (simp add: booted_def quiet_def NBUF_def)

lemma recover_full:
  assumes b: "booted l r" and l: "log_ok l" and n: "hdr_n (disk r (lstart l)) = lh_n (lh l)"
    and h: "\<And>i. int i < lh_n (lh l) \<Longrightarrow> hdr_block (disk r (lstart l)) i = hblock (lh l) ! i"
    and c: "\<And>i. int i < lh_n (lh l) \<Longrightarrow> disk r (lblock l i) = c (hblock (lh l) ! i)"
  shows "\<exists>u. recover_from_log r = Ret () u \<and> hdr_n (disk u (lstart l)) = 0 \<and>
    (\<forall>b. b \<noteq> lstart l \<longrightarrow> disk u b = (if b \<in> set (logged (lh l)) then c b else disk r b))"
proof -
  let ?l = "disk_log (lg r) (disk r)" and ?N = "nat (lh_n (lh l))"
  have br: "ldev (lg r) = ROOTDEV" "lstart (lg r) = lstart l" "length (hblock (lh (lg r))) = LOGBLOCKS" "bc_inv r"
      "\<And>b. refs r b = 0"
    using b by (simp_all add: booted_def)
  have nl: "lh_n (lh ?l) = lh_n (lh l)" "lstart ?l = lstart l" using br n by (simp_all add: disk_log_def)
  have hb: "hblock (lh ?l) ! i = hblock (lh l) ! i" if "i < ?N" for i
    using that n_LOGBLOCKS [OF l] h [of i] n by (simp add: disk_log_def br(2) zless_nat_eq_int_zless)
  have len: "length (hblock (lh ?l)) = LOGBLOCKS" "length (hblock (lh l)) = LOGBLOCKS" using l by (simp_all add: disk_log_def log_ok_def)
  have lgd: "logged (lh ?l) = logged (lh l)"
    unfolding logged_def nl using hb n_LOGBLOCKS [OF l] len by (auto intro: nth_equalityI)
  have area: "log_area ?l = log_area l" by (simp add: log_area_def nl)
  have ok: "log_ok ?l" using l br(1) nl lgd area len by (simp add: log_ok_def) (simp add: disk_log_def)
  have lb: "lblock ?l i = lblock l i" for i by (simp add: lblock_def nl)
  have hw: "home_writes ?l (disk r) ?N = map (\<lambda>b. (b, c b)) (logged (lh l))"
    unfolding map_logged [OF l] home_writes_def using hb c by (simp add: lb zless_nat_eq_int_zless)
  let ?H = "put_head ((lh ?l)\<lparr>lh_n := 0\<rparr>) (disk r (lstart l))"
  obtain u where u: "recover_from_log r = Ret () u"
      "disk u = apply_writes (disk r) (map (\<lambda>b. (b, c b)) (logged (lh l)) @ [(lstart l, ?H)])"
    using recover_ok [OF booted_quiet [OF b] ok br(5)] n br(2) hw by auto
  have "hdr_n ?H = 0" using bc_invD(4) [OF br(4)] by (subst put_head_n) simp_all
  moreover have "disk u b = (if b \<in> set (logged (lh l)) then c b else disk r b)" if "b \<noteq> lstart l" for b
    using that by (simp add: u(2) apply_writes_same [where c = c] image_image)
  ultimately show ?thesis using u by auto
qed

text \<open>Recovery returns, leaves an empty log, and the blocks outside the log area are those of \<open>img\<close>.\<close>

definition recovers_to :: "loginfo \<Rightarrow> 'a logst_scheme \<Rightarrow> (u32 \<Rightarrow> u8 list) \<Rightarrow> bool" where
  "recovers_to l r img \<longleftrightarrow> (\<exists>u. recover_from_log r = Ret () u \<and> hdr_n (disk u (lstart l)) = 0 \<and>
     (\<forall>b. b \<notin> log_area l \<longrightarrow> disk u b = img b))"

lemma recover_empty:
  assumes b: "booted l r" and l: "log_ok l" and n: "hdr_n (disk r (lstart l)) = 0"
  shows "\<exists>u. recover_from_log r = Ret () u \<and> hdr_n (disk u (lstart l)) = 0 \<and> (\<forall>b. b \<noteq> lstart l \<longrightarrow> disk u b = disk r b)"
  using recover_full [of "l\<lparr>lh := (lh l)\<lparr>lh_n := 0\<rparr>\<rparr>" r] b n log_ok_clear [OF l] by (auto simp: booted_def logged_def)

text \<open>
  The disk after the first \<open>k\<close> writes of a commit: before the header is written the old
  contents under an empty log, from then on a log that holds the transaction.
\<close>

lemma crash_before:
  assumes l: "log_ok l" and k: "k \<le> nat (lh_n (lh l))" and b: "b \<notin> log_area l \<or> b = lstart l"
  shows "apply_writes d (take k (commit_writes l c)) b = d b"
proof -
  have "take k (commit_writes l c) = log_writes l c k"
    using k by (simp add: commit_writes_def Let_def log_writes_def take_map)
  moreover have "b \<noteq> lblock l i" if "i < k" for i
    using b lblock_area [OF l, of i] lblock_start [OF l, of i] that k n_LOGBLOCKS [OF l] by auto
  ultimately show ?thesis by (simp add: apply_writes_other log_writes_def image_image image_iff)
qed

lemma crash_after:
  assumes l: "log_ok l" and k: "nat (lh_n (lh l)) < k" "k \<le> 2 * nat (lh_n (lh l)) + 1"
  shows "apply_writes d (take k (commit_writes l c)) (lstart l) = put_head (lh l) (c (lstart l))"
    and "i < nat (lh_n (lh l)) \<Longrightarrow> apply_writes d (take k (commit_writes l c)) (lblock l i) = c (hblock (lh l) ! i)"
    and "b \<notin> log_area l \<Longrightarrow> b \<notin> set (logged (lh l)) \<Longrightarrow> apply_writes d (take k (commit_writes l c)) b = d b"
proof -
  let ?N = "nat (lh_n (lh l))" and ?j = "k - nat (lh_n (lh l)) - 1"
  let ?W3 = "map (\<lambda>b. (b, c b)) (take ?j (logged (lh l)))"
  have lenlog: "length (logged (lh l)) = ?N" using l n_LOGBLOCKS [OF l] by (simp add: logged_def log_ok_def)
  have tk: "take k (commit_writes l c) = log_writes l c ?N @ [(lstart l, put_head (lh l) (c (lstart l)))] @ ?W3"
    using k lenlog by (simp add: commit_writes_def Let_def log_writes_def take_map take_Cons')
  have sub: "set (take ?j (logged (lh l))) \<inter> log_area l = {}" using l set_take_subset [of ?j "logged (lh l)"] by (auto simp: log_ok_def)
  have "lstart l \<notin> set (take ?j (logged (lh l)))" using sub lstart_area [of l] by blast
  then show "apply_writes d (take k (commit_writes l c)) (lstart l) = put_head (lh l) (c (lstart l))"
    unfolding tk by (simp add: apply_writes_other image_image)
  show "apply_writes d (take k (commit_writes l c)) (lblock l i) = c (hblock (lh l) ! i)" if i: "i < ?N"
  proof -
    note iL = less_le_trans [OF i n_LOGBLOCKS [OF l]]
    have "lblock l i \<notin> set (take ?j (logged (lh l)))" using sub lblock_area [OF l iL] by blast
    then show ?thesis
      unfolding tk using lblock_start [OF l iL] log_writes_at [OF l i n_LOGBLOCKS [OF l]]
      by (simp add: apply_writes_other image_image)
  qed
  show "apply_writes d (take k (commit_writes l c)) b = d b" if "b \<notin> log_area l" "b \<notin> set (logged (lh l))"
  proof -
    have "b \<noteq> lblock l i" if "i < ?N" for i
      using lblock_area [OF l less_le_trans [OF that n_LOGBLOCKS [OF l]]] \<open>b \<notin> log_area l\<close> by auto
    moreover have "b \<notin> set (take ?j (logged (lh l)))" using that(2) set_take_subset by fastforce
    ultimately show ?thesis using that(1) lstart_area [of l]
      by (subst tk) (auto simp: apply_writes_other log_writes_def image_image image_iff)
  qed
qed

lemma crash_done:
  assumes l: "log_ok l"
  shows "apply_writes d (commit_writes l c) (lstart l) = put_head ((lh l)\<lparr>lh_n := 0\<rparr>) (put_head (lh l) (c (lstart l)))"
    and "b \<notin> log_area l \<Longrightarrow> apply_writes d (commit_writes l c) b = (if b \<in> set (logged (lh l)) then c b else d b)"
proof -
  show "apply_writes d (commit_writes l c) (lstart l) = put_head ((lh l)\<lparr>lh_n := 0\<rparr>) (put_head (lh l) (c (lstart l)))"
    by (simp add: commit_writes_def Let_def)
  show "apply_writes d (commit_writes l c) b = (if b \<in> set (logged (lh l)) then c b else d b)" if b: "b \<notin> log_area l"
  proof -
    have "b \<noteq> lblock l i" if "i < nat (lh_n (lh l))" for i
      using lblock_area [OF l less_le_trans [OF that n_LOGBLOCKS [OF l]]] b by auto
    then have "apply_writes d (log_writes l c (nat (lh_n (lh l)))) b = d b"
      by (simp add: apply_writes_other log_writes_def image_image image_iff)
    moreover have "b \<noteq> lstart l" using b lstart_area by auto
    ultimately show ?thesis
      by (simp add: commit_writes_def Let_def apply_writes_same [where c = c] image_image)
  qed
qed

lemma commit_crash:
  assumes q: "quiet s" and l: "log_ok (lg s)" and n: "0 < lh_n (lh (lg s))"
    and clean: "\<And>b. b \<notin> set (logged (lh (lg s))) \<Longrightarrow> content s b = disk s b"
    and idle: "hdr_n (disk s (lstart (lg s))) = 0"
    and k: "k \<le> length (commit_writes (lg s) (content s))"
    and boot: "booted (lg s) r" and dr: "disk r = apply_writes (disk s) (take k (commit_writes (lg s) (content s)))"
  shows "recovers_to (lg s) r (if k \<le> nat (lh_n (lh (lg s))) then disk s else content s)"
proof -
  let ?l = "lg s" and ?c = "content s"
  let ?N = "nat (lh_n (lh ?l))"
  have lenlog: "length (logged (lh ?l)) = ?N" using l n_LOGBLOCKS [OF l] by (simp add: logged_def log_ok_def)
  have lenW: "length (commit_writes ?l ?c) = 2 * ?N + 2" using lenlog by (simp add: commit_writes_def Let_def log_writes_def)
  have sa: "b \<noteq> lstart ?l" if "b \<notin> log_area ?l" for b using that lstart_area by auto
  have len: "length (?c (lstart ?l)) = BSIZE" using bc.cont_len q by (auto simp: quiet_def)
  have n30: "0 \<le> lh_n (lh ?l)" "lh_n (lh ?l) \<le> int LOGBLOCKS" using l by (simp_all add: log_ok_def)
  consider "k \<le> ?N" | "?N < k" "k \<le> 2 * ?N + 1" | "k = 2 * ?N + 2" using k lenW by linarith
  then show ?thesis
  proof cases
    case 1
    then have "disk r b = disk s b" if "b \<notin> log_area ?l \<or> b = lstart ?l" for b
      unfolding dr using crash_before [OF l 1 that] by simp
    then show ?thesis unfolding recovers_to_def using recover_empty [OF boot l] idle sa 1 by auto
  next
    case 2
    note ca = crash_after [OF l 2, where d = "disk s" and c = ?c]
    have "hdr_n (disk r (lstart ?l)) = lh_n (lh ?l)" unfolding dr ca(1) using n30 len by (intro put_head_n)
    moreover have "hdr_block (disk r (lstart ?l)) i = hblock (lh ?l) ! i" if "int i < lh_n (lh ?l)" for i
      unfolding dr ca(1) using n30 len that by (intro put_head_block)
    moreover have "disk r (lblock ?l i) = ?c (hblock (lh ?l) ! i)" if "int i < lh_n (lh ?l)" for i
      unfolding dr using ca(2) [of i] that by (simp add: zless_nat_eq_int_zless)
    ultimately obtain u where u: "recover_from_log r = Ret () u" "hdr_n (disk u (lstart ?l)) = 0"
        "\<forall>b. b \<noteq> lstart ?l \<longrightarrow> disk u b = (if b \<in> set (logged (lh ?l)) then ?c b else disk r b)"
      using recover_full [OF boot l, of ?c] by blast
    have "disk u b = ?c b" if b: "b \<notin> log_area ?l" for b
    proof (cases "b \<in> set (logged (lh ?l))")
      case False
      then show ?thesis using u(3) sa [OF b] ca(3) [OF b False] clean [OF False] by (simp add: dr)
    qed (use u(3) sa [OF b] in simp)
    then show ?thesis unfolding recovers_to_def using u(1,2) 2 by auto
  next
    case 3
    then have W: "take k (commit_writes ?l ?c) = commit_writes ?l ?c" using lenW by simp
    have "hdr_n (disk r (lstart ?l)) = 0"
      unfolding dr W crash_done(1) [OF l] using n30 len by (subst put_head_n) (simp_all add: put_head_length)
    moreover have "disk r b = ?c b" if "b \<notin> log_area ?l" for b
      unfolding dr W crash_done(2) [OF l that] using clean [of b] by auto
    ultimately show ?thesis unfolding recovers_to_def using recover_empty [OF boot l] sa 3 by auto
  qed
qed

section \<open>A transaction that fills the cache\<close>

text \<open>Every buffer is pinned and the first log block is not cached: \<open>bread\<close> has no buffer to recycle.\<close>

lemma bread_no_buffers:
  assumes "cached s bn = None" and "list_all (\<lambda>b. refcnt b \<noteq> 0) (bufs s)" and "bc_inv s"
  shows "bread ROOTDEV bn s = Panic ''bget: no buffers''"
proof -
  have "find (\<lambda>i. dev (bufs s ! i) = ROOTDEV \<and> blockno (bufs s ! i) = bn) (lru s) = None"
    using assms(1) by (simp add: cached_def)
  moreover have "find (\<lambda>i. refcnt (bufs s ! i) = 0) (rev (lru s)) = None"
    using assms(2) bc_invD(1,3) [OF assms(3)] by (auto simp: find_None_iff list_all_length)
  ultimately show ?thesis by (simp add: bread_def bget_def)
qed

section \<open>Recording blocks\<close>

lemma log_index_found: "log_index h bn < nat (lh_n h) \<Longrightarrow> hblock h ! log_index h bn = bn"
  using nth_length_takeWhile [of "\<lambda>i. hblock h ! i \<noteq> bn" "[0..<nat (lh_n h)]"] by (simp add: log_index_def)

lemma log_index_le: "log_index h bn \<le> nat (lh_n h)"
  using length_takeWhile_le [of "\<lambda>i. hblock h ! i \<noteq> bn" "[0..<nat (lh_n h)]"] by (simp add: log_index_def)

lemma log_index_before: "i < log_index h bn \<Longrightarrow> hblock h ! i \<noteq> bn"
proof -
  assume i: "i < log_index h bn"
  then have "takeWhile (\<lambda>i. hblock h ! i \<noteq> bn) [0..<nat (lh_n h)] ! i \<in> set (takeWhile (\<lambda>i. hblock h ! i \<noteq> bn) [0..<nat (lh_n h)])"
    by (simp add: log_index_def)
  then have "hblock h ! (takeWhile (\<lambda>i. hblock h ! i \<noteq> bn) [0..<nat (lh_n h)] ! i) \<noteq> bn"
    using set_takeWhileD by fastforce
  moreover have "takeWhile (\<lambda>i. hblock h ! i \<noteq> bn) [0..<nat (lh_n h)] ! i = i"
    using i log_index_le [of h bn] by (simp add: takeWhile_nth log_index_def)
  ultimately show ?thesis by simp
qed

lemma log_index_new: "log_index h bn = nat (lh_n h) \<longleftrightarrow> bn \<notin> set (logged h)" if "nat (lh_n h) \<le> length (hblock h)"
proof
  assume "log_index h bn = nat (lh_n h)"
  then show "bn \<notin> set (logged h)" using log_index_before [of _ h bn] that by (auto simp: logged_def in_set_conv_nth)
next
  assume n: "bn \<notin> set (logged h)"
  have "\<not> log_index h bn < nat (lh_n h)"
  proof
    assume i: "log_index h bn < nat (lh_n h)"
    then have "logged h ! log_index h bn = bn" "log_index h bn < length (logged h)"
      using log_index_found [OF i] that by (simp_all add: logged_def)
    then show False using n nth_mem by metis
  qed
  then show "log_index h bn = nat (lh_n h)" using log_index_le [of h bn] by simp
qed

lemma log_write_ok:
  assumes l: "log_ok (lg s)" and room: "lh_n (lh (lg s)) < int LOGBLOCKS" and out: "1 \<le> outstanding (lg s)"
    and bn: "bn = blockno (bufs s ! b)"
  shows "log_write b s = (if bn \<in> set (logged (lh (lg s))) then Ret () s
    else Ret () ((bpin b s)\<lparr>lg := (lg s)\<lparr>lh := \<lparr>lh_n = lh_n (lh (lg s)) + 1,
           hblock = (hblock (lh (lg s)))[nat (lh_n (lh (lg s))) := bn]\<rparr>\<rparr>\<rparr>))"
proof -
  let ?h = "lh (lg s)"
  have len: "nat (lh_n ?h) \<le> length (hblock ?h)" "0 \<le> lh_n ?h" using l n_LOGBLOCKS [OF l] by (simp_all add: log_ok_def)
  show ?thesis
  proof (cases "bn \<in> set (logged ?h)")
    case True
    then have i: "log_index ?h bn < nat (lh_n ?h)" using log_index_new [OF len(1), of bn] log_index_le [of ?h bn] by linarith
    have "?h\<lparr>hblock := (hblock ?h)[log_index ?h bn := bn]\<rparr> = ?h"
      using log_index_found [OF i] by (metis list_update_id logheader.surjective logheader.update_convs(2))
    then show ?thesis using True i room out len bn by (simp add: log_write_def Let_def)
  next
    case False
    then have i: "log_index ?h bn = nat (lh_n ?h)" using log_index_new [OF len(1), of bn] by simp
    have "?h\<lparr>hblock := (hblock ?h)[nat (lh_n ?h) := bn], lh_n := lh_n ?h + 1\<rparr> =
        \<lparr>lh_n = lh_n ?h + 1, hblock = (hblock ?h)[nat (lh_n ?h) := bn]\<rparr>" by (cases ?h) simp
    then show ?thesis using False i room out len bn by (simp add: log_write_def Let_def)
  qed
qed

lemma logged_snoc:
  assumes "log_ok l" "lh_n (lh l) < int LOGBLOCKS"
  shows "logged \<lparr>lh_n = lh_n (lh l) + 1, hblock = (hblock (lh l))[nat (lh_n (lh l)) := bn]\<rparr> = logged (lh l) @ [bn]"
proof -
  have "nat (lh_n (lh l)) < length (hblock (lh l))" "nat (lh_n (lh l) + 1) = Suc (nat (lh_n (lh l)))"
    using assms by (auto simp: log_ok_def nat_less_iff nat_add_distrib)
  then show ?thesis by (simp add: logged_def take_Suc_conv_app_nth)
qed

section \<open>Transactions in flight\<close>

text \<open>
  The calls of the processes that have an operation open, in any interleaving.
  \<open>used ! j\<close> is the number of calls of \<open>log_write\<close> of the \<open>j\<close>-th open operation, which
  keeps to the limit of MAXOPBLOCKS the header documents.
\<close>

inductive log_step :: "'a logst_scheme \<times> nat list \<Rightarrow> 'a logst_scheme \<times> nat list \<Rightarrow> bool" where
  beginop: "begin_op s = Ret () t \<Longrightarrow> log_step (s, used) (t, 0 # used)"
| logwrite: "j < length used \<Longrightarrow> used ! j < MAXOPBLOCKS \<Longrightarrow> log_write b s = Ret () t \<Longrightarrow>
    log_step (s, used) (t, used[j := used ! j + 1])"
| endop: "j < length used \<Longrightarrow> end_op s = Ret () t \<Longrightarrow> log_step (s, used) (t, take j used @ drop (Suc j) used)"
| cache: "bio_ext s t \<Longrightarrow> log_step (s, used) (t, used)"

definition reserved :: "nat list \<Rightarrow> int" where
  "reserved used = (\<Sum>u\<leftarrow>used. int MAXOPBLOCKS - int u)"

definition log_room :: "'a logst_scheme \<times> nat list \<Rightarrow> bool" where
  "log_room = (\<lambda>(s, used). \<not> committing (lg s) \<and> 0 \<le> lh_n (lh (lg s)) \<and> outstanding (lg s) = int (length used) \<and>
     list_all (\<lambda>u. u \<le> MAXOPBLOCKS) used \<and> lh_n (lh (lg s)) + reserved used \<le> int LOGBLOCKS)"

lemma reserved_simps [simp]: "reserved [] = 0" "reserved (u # us) = int MAXOPBLOCKS - int u + reserved us"
  "reserved (us @ vs) = reserved us + reserved vs"
  by (simp_all add: reserved_def)

lemma reserved_nonneg: "list_all (\<lambda>u. u \<le> MAXOPBLOCKS) used \<Longrightarrow> 0 \<le> reserved used"
  by (induction used) auto

lemma reserved_le: "reserved used \<le> int MAXOPBLOCKS * int (length used)"
  by (induction used) (simp_all add: algebra_simps)

lemma reserved_at: "j < length used \<Longrightarrow> reserved used = reserved (take j used) + (int MAXOPBLOCKS - int (used ! j)) + reserved (drop (Suc j) used)"
  by (subst id_take_nth_drop) simp_all

lemma reserved_upd: "j < length used \<Longrightarrow> reserved (used[j := u]) = reserved used - int u + int (used ! j)"
  by (simp add: upd_conv_take_nth_drop reserved_at)

text \<open>Whatever the state of the cache, a commit that returns has cleared the log.\<close>

lemma write_head_lg: "write_head s = Ret () t \<Longrightarrow> lg t = lg s"
  by (auto simp: write_head_def bindo_Ret_iff set_data_def upd_buf_def dest!: cache_ext bio_ext_lg)

lemma write_step_lg: "write_step i s = Ret () t \<Longrightarrow> lg t = lg s"
  by (auto simp: write_step_def bindo_Ret_iff set_data_def upd_buf_def dest!: cache_ext bio_ext_lg)

lemma install_step_lg: "install_step r i s = Ret () t \<Longrightarrow> lg t = lg s"
  by (auto simp: install_step_def bindo_Ret_iff Let_def set_data_def upd_buf_def bunpin_def dest!: cache_ext bio_ext_lg split: if_splits)

lemma write_log_lg: "write_log s = Ret () t \<Longrightarrow> lg t = lg s"
  unfolding write_log_def by (rule forM_frame [of write_step]) (auto dest: write_step_lg)

lemma install_trans_lg: "install_trans r s = Ret () t \<Longrightarrow> lg t = lg s"
  unfolding install_trans_def by (rule forM_frame [of "install_step r"]) (auto dest: install_step_lg)

lemma commit_lg: "commit s = Ret () t \<Longrightarrow> 0 \<le> lh_n (lh (lg s)) \<Longrightarrow> lg t = (lg s)\<lparr>lh := lh (lg t)\<rparr> \<and> lh_n (lh (lg t)) = 0"
  unfolding commit_def by (auto simp: bindo_Ret_iff split: if_splits dest!: write_head_lg write_log_lg install_trans_lg)

lemma log_room_step: "log_step x y \<Longrightarrow> log_room x \<Longrightarrow> log_room y"
proof (induction rule: log_step.induct)
  case (beginop s t used)
  then show ?case using reserved_le [of used] by (auto simp: begin_op_def log_room_def algebra_simps split: if_splits)
next
  case (logwrite j used b s t)
  have "lg t = (lg s)\<lparr>lh := lh (lg t)\<rparr> \<and> lh_n (lh (lg t)) \<in> {lh_n (lh (lg s)), lh_n (lh (lg s)) + 1}"
    using logwrite(3) by (auto simp: log_write_def Let_def split: if_splits)
  then have "committing (lg t) = committing (lg s)" "outstanding (lg t) = outstanding (lg s)"
      "lh_n (lh (lg s)) \<le> lh_n (lh (lg t))" "lh_n (lh (lg t)) \<le> lh_n (lh (lg s)) + 1"
    by (auto dest: arg_cong [where f = committing] arg_cong [where f = outstanding])
  moreover have "list_all (\<lambda>u. u \<le> MAXOPBLOCKS) (used[j := used ! j + 1])"
    using logwrite(1,2,4) by (auto simp: log_room_def list_all_length nth_list_update)
  ultimately show ?case using logwrite(1,4) by (auto simp: log_room_def reserved_upd)
next
  case (endop j used s t)
  have l: "length (take j used @ drop (Suc j) used) = length used - 1" using endop(1) by simp
  have r: "reserved (take j used @ drop (Suc j) used) \<le> reserved used"
    using endop(1,3) reserved_at [OF endop(1)] by (auto simp: log_room_def list_all_length)
  have m: "list_all (\<lambda>u. u \<le> MAXOPBLOCKS) (take j used @ drop (Suc j) used)"
    using endop(3) set_take_subset [of j used] set_drop_subset [of "Suc j" used] by (auto simp: log_room_def list_all_iff)
  let ?s = "s\<lparr>lg := (lg s)\<lparr>outstanding := outstanding (lg s) - 1\<rparr>\<rparr>"
  show ?case
  proof (cases "outstanding (lg s) = 1")
    case True
    then obtain v where v: "commit (?s\<lparr>lg := (lg ?s)\<lparr>committing := True\<rparr>\<rparr>) = Ret () v" "t = v\<lparr>lg := (lg v)\<lparr>committing := False\<rparr>\<rparr>"
      using endop(2,3) by (auto simp: end_op_def Let_def bindo_Ret_iff log_room_def)
    have "outstanding (lg v) = 0 \<and> lh_n (lh (lg v)) = 0"
      using commit_lg [OF v(1)] endop(3) True by (auto simp: log_room_def dest: arg_cong [where f = outstanding])
    moreover have e: "take j used @ drop (Suc j) used = []" using True endop(1,3) l by (simp add: log_room_def)
    ultimately show ?thesis unfolding v(2) e by (simp add: log_room_def)
  next
    case False
    then have "t = ?s" using endop(2,3) by (auto simp: end_op_def Let_def log_room_def)
    then show ?thesis using endop(1,3) l r m by (auto simp: log_room_def)
  qed
next
  case (cache s t used)
  then show ?case using bio_ext_lg [of s t] by (simp add: log_room_def)
qed

text \<open>A sample state: one transaction that has modified block 40, pinned in buffer 0.\<close>

definition sample_log :: logst where
  "sample_log = \<lparr>phys = \<lambda>_. 0, freelist = 0, kend = 0,
     bufs = \<lparr>bvalid = True, dev = ROOTDEV, blockno = 40, block = initsleeplock, refcnt = 1, bdata = replicate BSIZE 7\<rparr>
       # replicate 29 sample_buf,
     lru = [0..<NBUF], disk = \<lambda>_. replicate BSIZE 0, dwrites = [], cpid = 1,
     lg = \<lparr>lstart = 2, outstanding = 0, committing = False, ldev = ROOTDEV,
            lh = \<lparr>lh_n = 1, hblock = 40 # replicate 29 0\<rparr>\<rparr>\<rparr>"

lemma sample_log_cached: "cached sample_log b = (if b = 40 then Some 0 else None)"
proof -
  have "[0..<NBUF] = 0 # [1..<30]" by (simp add: NBUF_def upt_rec)
  moreover have "find (\<lambda>i. dev (bufs sample_log ! i) = ROOTDEV \<and> blockno (bufs sample_log ! i) = b) [1..<30] = None"
    by (auto simp: find_None_iff sample_log_def sample_buf_def nth_Cons')
  ultimately show ?thesis by (simp add: cached_def) (simp add: sample_log_def)
qed

lemma sample_log_inv: "bc_inv sample_log"
  unfolding bc_inv_def
  by (auto simp: sample_log_def sample_buf_def buf_ok_def NBUF_def nth_Cons' initsleeplock_def)

lemma sample_log_obs: "refs sample_log b = (if b = 40 then 1 else 0)" "\<not> held sample_log b"
  "content sample_log b = replicate BSIZE (if b = 40 then 7 else 0)" "disk sample_log b = replicate BSIZE 0"
  by (simp_all add: refs_def held_def content_def sample_log_cached) (simp_all add: sample_log_def initsleeplock_def)

lemma sample_log_quiet: "quiet sample_log"
  by (simp add: quiet_def sample_log_inv sample_log_obs NBUF_def)

lemma sample_log_lg: "logged (lh (lg sample_log)) = [40]" "log_ok (lg sample_log)" "lstart (lg sample_log) = 2"
    "lh_n (lh (lg sample_log)) = 1" "pinned sample_log"
proof -
  show l: "logged (lh (lg sample_log)) = [40]" by (simp add: sample_log_def logged_def)
  show "lstart (lg sample_log) = 2" "lh_n (lh (lg sample_log)) = 1" by (simp_all add: sample_log_def)
  then show "log_ok (lg sample_log)"
    unfolding log_ok_def l log_area_def
    by (simp add: LOGBLOCKS_def MAXOPBLOCKS_def) (simp add: sample_log_def)
  show "pinned sample_log" by (simp add: pinned_def l sample_log_obs)
qed

section \<open>Properties\<close>

text \<open>
  C1: A commit survives a crash at every point. The commit returns and performs a
  sequence \<open>W\<close> of disk writes; if the machine stops after the first \<open>k\<close> of them and
  starts again with an empty cache, recovery returns, leaves an empty log, and
  every block outside the log area has its old contents when the header was not
  yet written, and the contents of the transaction when it was.
\<close>

theorem commit_crash_atomic:
  assumes "quiet s" and "log_ok (lg s)" and "pinned s" and "refs s (lstart (lg s)) = 0" and "0 < lh_n (lh (lg s))"
    and "\<And>b. b \<notin> set (logged (lh (lg s))) \<Longrightarrow> content s b = disk s b" and "hdr_n (disk s (lstart (lg s))) = 0"
  shows "\<exists>t W. commit s = Ret () t \<and> dwrites t = dwrites s @ W \<and> lh_n (lh (lg t)) = 0 \<and>
    (\<forall>k r. k \<le> length W \<longrightarrow> booted (lg s) r \<longrightarrow> disk r = apply_writes (disk s) (take k W) \<longrightarrow>
      recovers_to (lg s) r (if k \<le> nat (lh_n (lh (lg s))) then disk s else content s))"
proof -
  obtain t where t: "commit s = Ret () t" "dwrites t = dwrites s @ commit_writes (lg s) (content s)" "lh_n (lh (lg t)) = 0"
    using commit_ok [OF assms(1-5)] by auto
  then show ?thesis
    using commit_crash [OF assms(1,2,5,6,7)]
    by (intro exI [of _ t] exI [of _ "commit_writes (lg s) (content s)"]) blast
qed

theorem commit_crash_atomic_witness:
  "\<exists>t W. commit sample_log = Ret () t \<and> dwrites t = W \<and> lh_n (lh (lg t)) = 0 \<and>
    (\<forall>k r. k \<le> length W \<longrightarrow> booted (lg sample_log) r \<longrightarrow> disk r = apply_writes (disk sample_log) (take k W) \<longrightarrow>
      recovers_to (lg sample_log) r (if k \<le> 1 then disk sample_log else content sample_log))"
proof -
  have h: "hdr_n (replicate BSIZE 0) = 0" by (simp add: hdr_n_def blk_get_def BSIZE_def)
  have d: "dwrites sample_log = []" by (simp add: sample_log_def)
  show ?thesis
    using commit_crash_atomic [of sample_log] sample_log_quiet
    by (simp add: sample_log_lg sample_log_obs h d)
qed



text \<open>
  C26: \<open>log_write\<close> records each block once. A block that the transaction already holds is
  absorbed; another is appended to the header and pinned in the cache by one more
  reference. The header stays well formed.
\<close>

theorem log_write_absorbs:
  assumes "bc_inv s" and "log_ok (lg s)" and "mine s bn b" and "bn \<notin> log_area (lg s)" and "refs s bn + 1 < 2 ^ 32"
    and "lh_n (lh (lg s)) < int LOGBLOCKS" and "1 \<le> outstanding (lg s)"
  shows "\<exists>t. log_write b s = Ret () t \<and> bc_inv t \<and> log_ok (lg t) \<and> mine t bn b \<and> content t = content s \<and> disk t = disk s \<and>
    (if bn \<in> set (logged (lh (lg s))) then t = s
     else logged (lh (lg t)) = logged (lh (lg s)) @ [bn] \<and> refs t = (refs s)(bn := refs s bn + 1))"
proof -
  have bn: "bn = blockno (bufs s ! b)" using cached_buf [OF assms(1)] mine_refs(3) [OF assms(1,3)] by metis
  show ?thesis
  proof (cases "bn \<in> set (logged (lh (lg s)))")
    case True
    then show ?thesis using log_write_ok [OF assms(2,6,7) bn] assms by simp
  next
    case False
    let ?h = "\<lparr>lh_n = lh_n (lh (lg s)) + 1, hblock = (hblock (lh (lg s)))[nat (lh_n (lh (lg s))) := bn]\<rparr>"
    let ?t = "(bpin b s)\<lparr>lg := (lg s)\<lparr>lh := ?h\<rparr>\<rparr>"
    note p = pin_ok [OF assms(1,3,5)]
    note sp = bc.step_D [OF conjunct1 [OF p]]
    have "log_ok (lg ?t)"
      using assms(2,4,6) False logged_snoc [OF assms(2,6), of bn] by (auto simp: log_ok_def log_area_def)
    moreover have "log_write b s = Ret () ?t" using log_write_ok [OF assms(2,6,7) bn] False by simp
    moreover have "logged (lh (lg ?t)) = logged (lh (lg s)) @ [bn]" using logged_snoc [OF assms(2,6)] by simp
    ultimately show ?thesis using False p sp by (intro exI [of _ ?t]) (simp add: fun_eq_iff)
  qed
qed

text \<open>A sample state that holds the lock of block 50 in buffer 1.\<close>

definition sample_open :: logst where
  "sample_open = sample_log\<lparr>lg := (lg sample_log)\<lparr>outstanding := 1\<rparr>, bufs := [bufs sample_log ! 0,
     \<lparr>bvalid = True, dev = ROOTDEV, blockno = 50, block = \<lparr>locked = True, lpid = 1\<rparr>, refcnt = 1, bdata = replicate BSIZE 0\<rparr>]
     @ replicate 28 sample_buf\<rparr>"

theorem log_write_absorbs_witness:
  "\<exists>t. log_write 1 sample_open = Ret () t \<and> logged (lh (lg t)) = [40, 50] \<and> refs t 50 = 2"
proof -
  have inv: "bc_inv sample_open"
    unfolding bc_inv_def
    by (auto simp: sample_open_def sample_log_def sample_buf_def buf_ok_def NBUF_def nth_Cons' initsleeplock_def)
  have c: "cached sample_open 50 = Some 1"
  proof -
    have "[0..<NBUF] = 0 # 1 # [2..<30]" by (simp add: NBUF_def upt_rec)
    then show ?thesis by (simp add: cached_def sample_open_def) (simp add: sample_log_def)
  qed
  have m: "mine sample_open 50 1" and r: "refs sample_open 50 = 1"
    unfolding mine_def refs_def c by (simp_all add: sample_open_def sample_log_def holdingsleep_def)
  have lgo: "lg sample_open = (lg sample_log)\<lparr>outstanding := 1\<rparr>" by (simp add: sample_open_def)
  have l: "log_ok (lg sample_open)" "logged (lh (lg sample_open)) = [40]" "lh_n (lh (lg sample_open)) = 1"
    using sample_log_lg by (simp_all add: lgo log_ok_def log_area_def)
  have a: "50 \<notin> log_area (lg sample_open)" by (simp add: lgo log_area_def sample_log_lg LOGBLOCKS_def MAXOPBLOCKS_def)
  have o1: "1 \<le> outstanding (lg sample_open)" by (simp add: lgo)
  show ?thesis
    using log_write_absorbs [OF inv l(1) m a, unfolded l r] o1 by (auto simp: LOGBLOCKS_def MAXOPBLOCKS_def)
qed


definition sample_full :: logst where
  "sample_full = sample_log\<lparr>lg := (lg sample_log)\<lparr>lh := \<lparr>lh_n = 30, hblock = map (\<lambda>i. 40 + of_nat i) [0..<30]\<rparr>\<rparr>,
     bufs := map (\<lambda>i. \<lparr>bvalid = True, dev = ROOTDEV, blockno = 40 + of_nat i, block = initsleeplock, refcnt = 1,
       bdata = replicate BSIZE 7\<rparr>) [0..<30]\<rparr>"


end
