(* ===== verification/Fs.thy ===== *)
theory Fs
  imports Logging Cstring
begin

text \<open>
  kernel/fs.c: the block allocator, inodes, file contents, directories and path
  names, on top of the log. A pointer to an inode is an index of the inode
  table, a struct on the disk is a range of bytes of its block. A path is the
  list of its bytes before the terminating NUL.
\<close>

unbundle bit_operations_syntax

section \<open>Layout\<close>

definition ROOTINO :: u32 where "ROOTINO = 1"
definition FSMAGIC :: u32 where "FSMAGIC = 0x10203040"
definition NDIRECT :: nat where "NDIRECT = 12"
definition NINDIRECT :: nat where "NINDIRECT = BSIZE div 4"
definition MAXFILE :: nat where "MAXFILE = NDIRECT + NINDIRECT"
definition IPB :: nat where "IPB = BSIZE div 64"
definition BPB :: nat where "BPB = BSIZE * 8"
definition DIRSIZ :: nat where "DIRSIZ = 14"
definition NINODE :: nat where "NINODE = 50"
definition T_DIR :: u16 where "T_DIR = 1"
definition T_FILE :: u16 where "T_FILE = 2"
definition T_DEVICE :: u16 where "T_DEVICE = 3"

record superblock =
  magic :: u32
  size :: u32
  nblocks :: u32
  ninodes :: u32
  nlog :: u32
  logstart :: u32
  inodestart :: u32
  bmapstart :: u32

record dinode =
  dtype :: u16
  dmajor :: u16
  dminor :: u16
  dnlink :: u16
  dsize :: u32
  daddrs :: "u32 list"

text \<open>\<open>struct inode\<close>: the table entry, with its copy \<open>din\<close> of the inode on the disk.\<close>

record inode =
  idev :: u32
  inum :: u32
  iref :: int
  ilk :: sleeplock
  ivalid :: bool
  din :: dinode

record fsst = logst +
  sb :: superblock
  itable :: "inode list"

definition IBLOCK :: "u32 \<Rightarrow> superblock \<Rightarrow> u32" where
  "IBLOCK i b = i div of_nat IPB + inodestart b"

definition BBLOCK :: "nat \<Rightarrow> superblock \<Rightarrow> u32" where
  "BBLOCK b sp = of_nat b div of_nat BPB + bmapstart sp"

definition get32 :: "u8 list \<Rightarrow> nat \<Rightarrow> u32" where
  "get32 bs off = le_word (blk_get bs off 4)"

definition put32 :: "u8 list \<Rightarrow> nat \<Rightarrow> u32 \<Rightarrow> u8 list" where
  "put32 bs off v = blk_put bs off (le_bytes 4 v)"

definition get16 :: "u8 list \<Rightarrow> nat \<Rightarrow> u16" where
  "get16 bs off = le_word (blk_get bs off 2)"

text \<open>The \<open>struct dinode\<close> at an offset of a block.\<close>

definition get_dinode :: "u8 list \<Rightarrow> nat \<Rightarrow> dinode" where
  "get_dinode bs off = \<lparr>dtype = get16 bs off, dmajor = get16 bs (off + 2), dminor = get16 bs (off + 4),
     dnlink = get16 bs (off + 6), dsize = get32 bs (off + 8),
     daddrs = map (\<lambda>i. get32 bs (off + 12 + 4 * i)) [0..<NDIRECT + 1]\<rparr>"

definition dinode_bytes :: "dinode \<Rightarrow> u8 list" where
  "dinode_bytes d = le_bytes 2 (dtype d) @ le_bytes 2 (dmajor d) @ le_bytes 2 (dminor d) @ le_bytes 2 (dnlink d) @
     le_bytes 4 (dsize d) @ concat (map (le_bytes 4) (daddrs d))"

definition put_dinode :: "u8 list \<Rightarrow> nat \<Rightarrow> dinode \<Rightarrow> u8 list" where
  "put_dinode bs off d = blk_put bs off (dinode_bytes d)"

definition dinode_off :: "u32 \<Rightarrow> nat" where
  "dinode_off i = 64 * (unat i mod IPB)"

definition get_superblock :: "u8 list \<Rightarrow> superblock" where
  "get_superblock bs = \<lparr>magic = get32 bs 0, size = get32 bs 4, nblocks = get32 bs 8, ninodes = get32 bs 12,
     nlog = get32 bs 16, logstart = get32 bs 20, inodestart = get32 bs 24, bmapstart = get32 bs 28\<rparr>"

section \<open>Blocks\<close>

definition readsb :: "u32 \<Rightarrow> 'a fsst_scheme \<Rightarrow> (unit, 'a fsst_scheme) outcome" where
  "readsb d s = bindo (bread d 1 s) (\<lambda>bp s. brelse bp (s\<lparr>sb := get_superblock (get_data bp s)\<rparr>))"

definition bzero :: "u32 \<Rightarrow> u32 \<Rightarrow> 'a fsst_scheme \<Rightarrow> (unit, 'a fsst_scheme) outcome" where
  "bzero d bno s =
     bindo (bread d bno s) (\<lambda>bp s.
     bindo (log_write bp (set_data bp (replicate BSIZE 0) s)) (\<lambda>_ s. brelse bp s))"

definition bit_free :: "u8 list \<Rightarrow> nat \<Rightarrow> bool" where
  "bit_free bs bi \<longleftrightarrow> bs ! (bi div 8) AND push_bit (bi mod 8) 1 = 0"

definition mark_used :: "u8 list \<Rightarrow> nat \<Rightarrow> u8 list" where
  "mark_used bs bi = bs[bi div 8 := bs ! (bi div 8) OR push_bit (bi mod 8) 1]"

definition mark_free :: "u8 list \<Rightarrow> nat \<Rightarrow> u8 list" where
  "mark_free bs bi = bs[bi div 8 := bs ! (bi div 8) AND NOT (push_bit (bi mod 8) 1)]"

text \<open>The inner loop of \<open>balloc\<close>: the first free bit of the bitmap block that starts at \<open>b\<close>.\<close>

definition find_bit :: "u8 list \<Rightarrow> nat \<Rightarrow> nat \<Rightarrow> nat option" where
  "find_bit bs b sz = find (\<lambda>bi. bit_free bs bi) [0..<min BPB (sz - b)]"

fun balloc_from :: "u32 \<Rightarrow> nat list \<Rightarrow> 'a fsst_scheme \<Rightarrow> (u32, 'a fsst_scheme) outcome" where
  "balloc_from d [] s = Ret 0 s"
| "balloc_from d (b # bs) s =
     bindo (bread d (BBLOCK b (sb s)) s) (\<lambda>bp s.
     case find_bit (get_data bp s) b (unat (size (sb s))) of
       Some bi \<Rightarrow>
         bindo (log_write bp (set_data bp (mark_used (get_data bp s) bi) s)) (\<lambda>_ s.
         bindo (brelse bp s) (\<lambda>_ s.
         bindo (bzero d (of_nat (b + bi)) s) (\<lambda>_ s.
         Ret (of_nat (b + bi)) s)))
     | None \<Rightarrow> bindo (brelse bp s) (\<lambda>_ s. balloc_from d bs s))"

text \<open>The bitmap blocks in the order of the outer loop: \<open>b\<close> from 0 in steps of BPB.\<close>

definition balloc :: "u32 \<Rightarrow> 'a fsst_scheme \<Rightarrow> (u32, 'a fsst_scheme) outcome" where
  "balloc d s = balloc_from d (map (\<lambda>k. k * BPB) [0..<(unat (size (sb s)) + BPB - 1) div BPB]) s"

definition bfree :: "u32 \<Rightarrow> u32 \<Rightarrow> 'a fsst_scheme \<Rightarrow> (unit, 'a fsst_scheme) outcome" where
  "bfree d b s =
     bindo (bread d (BBLOCK (unat b) (sb s)) s) (\<lambda>bp s.
     let bi = unat b mod BPB in
     if bit_free (get_data bp s) bi then Panic ''freeing free block''
     else bindo (log_write bp (set_data bp (mark_free (get_data bp s) bi) s)) (\<lambda>_ s. brelse bp s))"

section \<open>Inodes\<close>

definition iinit :: "'a fsst_scheme \<Rightarrow> 'a fsst_scheme" where
  "iinit s = s\<lparr>itable := map (\<lambda>ip. ip\<lparr>ilk := initsleeplock\<rparr>) (itable s)\<rparr>"

definition upd_inode :: "nat \<Rightarrow> (inode \<Rightarrow> inode) \<Rightarrow> 'a fsst_scheme \<Rightarrow> 'a fsst_scheme" where
  "upd_inode ip f s = s\<lparr>itable := (itable s)[ip := f (itable s ! ip)]\<rparr>"

definition upd_din :: "nat \<Rightarrow> (dinode \<Rightarrow> dinode) \<Rightarrow> 'a fsst_scheme \<Rightarrow> 'a fsst_scheme" where
  "upd_din ip f s = upd_inode ip (\<lambda>e. e\<lparr>din := f (din e)\<rparr>) s"

definition iget :: "u32 \<Rightarrow> u32 \<Rightarrow> 'a fsst_scheme \<Rightarrow> (nat, 'a fsst_scheme) outcome" where
  "iget d i s =
     (case find (\<lambda>k. let e = itable s ! k in iref e > 0 \<and> idev e = d \<and> inum e = i) [0..<NINODE] of
        Some ip \<Rightarrow> Ret ip (upd_inode ip (\<lambda>e. e\<lparr>iref := iref e + 1\<rparr>) s)
      | None \<Rightarrow>
          (case find (\<lambda>k. iref (itable s ! k) = 0) [0..<NINODE] of
             None \<Rightarrow> Panic ''iget: no inodes''
           | Some ip \<Rightarrow> Ret ip (upd_inode ip (\<lambda>e. e\<lparr>idev := d, inum := i, iref := 1, ivalid := False\<rparr>) s)))"

definition zero_dinode :: "u16 \<Rightarrow> dinode" where
  "zero_dinode ty = \<lparr>dtype = ty, dmajor = 0, dminor = 0, dnlink = 0, dsize = 0, daddrs = replicate (NDIRECT + 1) 0\<rparr>"

fun ialloc_from :: "u32 \<Rightarrow> u16 \<Rightarrow> nat list \<Rightarrow> 'a fsst_scheme \<Rightarrow> (nat option, 'a fsst_scheme) outcome" where
  "ialloc_from d ty [] s = Ret None s"
| "ialloc_from d ty (i # is) s =
     bindo (bread d (IBLOCK (of_nat i) (sb s)) s) (\<lambda>bp s.
     let off = dinode_off (of_nat i) in
     if dtype (get_dinode (get_data bp s) off) = 0
     then bindo (log_write bp (set_data bp (put_dinode (get_data bp s) off (zero_dinode ty)) s)) (\<lambda>_ s.
          bindo (brelse bp s) (\<lambda>_ s.
          bindo (iget d (of_nat i) s) (\<lambda>ip s. Ret (Some ip) s)))
     else bindo (brelse bp s) (\<lambda>_ s. ialloc_from d ty is s))"

definition ialloc :: "u32 \<Rightarrow> u16 \<Rightarrow> 'a fsst_scheme \<Rightarrow> (nat option, 'a fsst_scheme) outcome" where
  "ialloc d ty s = ialloc_from d ty [1..<unat (ninodes (sb s))] s"

definition iupdate :: "nat \<Rightarrow> 'a fsst_scheme \<Rightarrow> (unit, 'a fsst_scheme) outcome" where
  "iupdate ip s =
     (let e = itable s ! ip in
      bindo (bread (idev e) (IBLOCK (inum e) (sb s)) s) (\<lambda>bp s.
      bindo (log_write bp (set_data bp (put_dinode (get_data bp s) (dinode_off (inum e)) (din e)) s)) (\<lambda>_ s.
      brelse bp s)))"

definition idup :: "nat \<Rightarrow> 'a fsst_scheme \<Rightarrow> 'a fsst_scheme" where
  "idup ip s = upd_inode ip (\<lambda>e. e\<lparr>iref := iref e + 1\<rparr>) s"

definition ilock :: "nat \<Rightarrow> 'a fsst_scheme \<Rightarrow> (unit, 'a fsst_scheme) outcome" where
  "ilock ip s =
     (if iref (itable s ! ip) < 1 then Panic ''ilock''
      else case acquiresleep (cpid s) (ilk (itable s ! ip)) of
        None \<Rightarrow> Sleep (Named ''inode'') s
      | Some lk \<Rightarrow>
          let s = upd_inode ip (\<lambda>e. e\<lparr>ilk := lk\<rparr>) s; e = itable s ! ip in
          if ivalid e then Ret () s
          else bindo (bread (idev e) (IBLOCK (inum e) (sb s)) s) (\<lambda>bp s.
            let s = upd_din ip (\<lambda>_. get_dinode (get_data bp s) (dinode_off (inum e))) s in
            bindo (brelse bp s) (\<lambda>_ s.
            let s = upd_inode ip (\<lambda>e. e\<lparr>ivalid := True\<rparr>) s in
            if dtype (din (itable s ! ip)) = 0 then Panic ''ilock: no type'' else Ret () s)))"

definition iunlock :: "nat \<Rightarrow> 'a fsst_scheme \<Rightarrow> (unit, 'a fsst_scheme) outcome" where
  "iunlock ip s =
     (if \<not> holdingsleep (cpid s) (ilk (itable s ! ip)) \<or> iref (itable s ! ip) < 1 then Panic ''iunlock''
      else Ret () (upd_inode ip (\<lambda>e. e\<lparr>ilk := releasesleep (ilk e)\<rparr>) s))"

definition free_direct :: "nat \<Rightarrow> nat \<Rightarrow> 'a fsst_scheme \<Rightarrow> (unit, 'a fsst_scheme) outcome" where
  "free_direct ip i s =
     (let e = itable s ! ip in
      if daddrs (din e) ! i \<noteq> 0
      then bindo (bfree (idev e) (daddrs (din e) ! i) s) (\<lambda>_ s.
           Ret () (upd_din ip (\<lambda>d. d\<lparr>daddrs := (daddrs d)[i := 0]\<rparr>) s))
      else Ret () s)"

definition free_entry :: "nat \<Rightarrow> nat \<Rightarrow> nat \<Rightarrow> 'a fsst_scheme \<Rightarrow> (unit, 'a fsst_scheme) outcome" where
  "free_entry ip bp j s =
     (let a = get32 (get_data bp s) (4 * j) in
      if a \<noteq> 0 then bfree (idev (itable s ! ip)) a s else Ret () s)"

definition itrunc :: "nat \<Rightarrow> 'a fsst_scheme \<Rightarrow> (unit, 'a fsst_scheme) outcome" where
  "itrunc ip s =
     bindo (forM [0..<NDIRECT] (free_direct ip) s) (\<lambda>_ s.
     bindo (let e = itable s ! ip; a = daddrs (din e) ! NDIRECT in
            if a \<noteq> 0
            then bindo (bread (idev e) a s) (\<lambda>bp s.
                 bindo (forM [0..<NINDIRECT] (free_entry ip bp) s) (\<lambda>_ s.
                 bindo (brelse bp s) (\<lambda>_ s.
                 bindo (bfree (idev e) a s) (\<lambda>_ s.
                 Ret () (upd_din ip (\<lambda>d. d\<lparr>daddrs := (daddrs d)[NDIRECT := 0]\<rparr>) s)))))
            else Ret () s) (\<lambda>_ s.
     iupdate ip (upd_din ip (\<lambda>d. d\<lparr>dsize := 0\<rparr>) s)))"

definition iput :: "nat \<Rightarrow> 'a fsst_scheme \<Rightarrow> (unit, 'a fsst_scheme) outcome" where
  "iput ip s =
     (let e = itable s ! ip in
      bindo
        (if iref e = 1 \<and> ivalid e \<and> dnlink (din e) = 0
         then case acquiresleep (cpid s) (ilk e) of
             None \<Rightarrow> Sleep (Named ''inode'') s
           | Some lk \<Rightarrow>
               bindo (itrunc ip (upd_inode ip (\<lambda>e. e\<lparr>ilk := lk\<rparr>) s)) (\<lambda>_ s.
               bindo (iupdate ip (upd_din ip (\<lambda>d. d\<lparr>dtype := 0\<rparr>) s)) (\<lambda>_ s.
               Ret () (upd_inode ip (\<lambda>e. e\<lparr>ivalid := False, ilk := releasesleep (ilk e)\<rparr>) s)))
         else Ret () s) (\<lambda>_ s.
      Ret () (upd_inode ip (\<lambda>e. e\<lparr>iref := iref e - 1\<rparr>) s)))"

definition iunlockput :: "nat \<Rightarrow> 'a fsst_scheme \<Rightarrow> (unit, 'a fsst_scheme) outcome" where
  "iunlockput ip s = bindo (iunlock ip s) (\<lambda>_ s. iput ip s)"

definition reclaim_inode :: "u32 \<Rightarrow> nat \<Rightarrow> 'a fsst_scheme \<Rightarrow> (unit, 'a fsst_scheme) outcome" where
  "reclaim_inode d i s =
     bindo (bread d (IBLOCK (of_nat i) (sb s)) s) (\<lambda>bp s.
     let dip = get_dinode (get_data bp s) (dinode_off (of_nat i)) in
     if dtype dip \<noteq> 0 \<and> dnlink dip = 0
     then bindo (iget d (of_nat i) s) (\<lambda>ip s.
          bindo (brelse bp s) (\<lambda>_ s.
          bindo (begin_op s) (\<lambda>_ s. bindo (ilock ip s) (\<lambda>_ s. bindo (iunlock ip s) (\<lambda>_ s.
          bindo (iput ip s) (\<lambda>_ s. end_op s))))))
     else brelse bp s)"

definition ireclaim :: "u32 \<Rightarrow> 'a fsst_scheme \<Rightarrow> (unit, 'a fsst_scheme) outcome" where
  "ireclaim d s = forM [1..<unat (ninodes (sb s))] (reclaim_inode d) s"

definition fsinit :: "u32 \<Rightarrow> 'a fsst_scheme \<Rightarrow> (unit, 'a fsst_scheme) outcome" where
  "fsinit d s =
     bindo (readsb d s) (\<lambda>_ s.
     if magic (sb s) \<noteq> FSMAGIC then Panic ''invalid file system''
     else bindo (initlog d (logstart (sb s)) s) (\<lambda>_ s. ireclaim d s))"

section \<open>File contents\<close>

definition bmap :: "nat \<Rightarrow> nat \<Rightarrow> 'a fsst_scheme \<Rightarrow> (u32, 'a fsst_scheme) outcome" where
  "bmap ip bn s =
     (let e = itable s ! ip; d = idev e in
      if bn < NDIRECT
      then (let addr = daddrs (din e) ! bn in
            if addr = 0
            then bindo (balloc d s) (\<lambda>addr s.
                 if addr = 0 then Ret 0 s
                 else Ret addr (upd_din ip (\<lambda>d. d\<lparr>daddrs := (daddrs d)[bn := addr]\<rparr>) s))
            else Ret addr s)
      else if bn - NDIRECT < NINDIRECT
      then bindo (let addr = daddrs (din e) ! NDIRECT in
                  if addr = 0
                  then bindo (balloc d s) (\<lambda>addr s.
                       if addr = 0 then Ret 0 s
                       else Ret addr (upd_din ip (\<lambda>d. d\<lparr>daddrs := (daddrs d)[NDIRECT := addr]\<rparr>) s))
                  else Ret addr s) (\<lambda>addr s.
           if addr = 0 then Ret 0 s
           else bindo (bread d addr s) (\<lambda>bp s.
             let a = get32 (get_data bp s) (4 * (bn - NDIRECT)) in
             bindo (if a = 0
                    then bindo (balloc d s) (\<lambda>addr s.
                         if addr \<noteq> 0
                         then bindo (log_write bp (set_data bp (put32 (get_data bp s) (4 * (bn - NDIRECT)) addr) s)) (\<lambda>_ s.
                              Ret addr s)
                         else Ret 0 s)
                    else Ret a s) (\<lambda>addr s.
             bindo (brelse bp s) (\<lambda>_ s. Ret addr s))))
      else Panic ''bmap: out of range'')"

record stat =
  st_dev :: u32
  st_ino :: u32
  st_type :: u16
  st_nlink :: u16
  st_size :: u64

definition stati :: "nat \<Rightarrow> 'a fsst_scheme \<Rightarrow> stat" where
  "stati ip s = (let e = itable s ! ip in
     \<lparr>st_dev = idev e, st_ino = inum e, st_type = dtype (din e), st_nlink = dnlink (din e), st_size = ucast (dsize (din e))\<rparr>)"

text \<open>
  The destination of \<open>readi\<close> is a parameter: \<open>copyout acc tot bytes\<close> stores bytes at
  \<open>dst + tot\<close>, where \<open>acc\<close> holds a kernel buffer and the state the user memory; it
  answers \<open>None\<close> for a failed copy. The bytes of one block that a round moves:
\<close>

definition chunk :: "u32 \<Rightarrow> u32 \<Rightarrow> u32 \<Rightarrow> u32" where
  "chunk k tot off = min (k - tot) (of_nat BSIZE - off mod of_nat BSIZE)"

lemma unat_chunk:
  assumes "tot < k"
  shows "unat (chunk k tot off) = min (unat k - unat tot) (BSIZE - unat off mod BSIZE)" "chunk k tot off > 0"
    "unat (tot + chunk k tot off) = unat tot + unat (chunk k tot off)" "tot + chunk k tot off \<le> k"
proof -
  have B: "unat (of_nat BSIZE :: u32) = BSIZE" by (simp add: BSIZE_def)
  have m: "unat (off mod of_nat BSIZE) = unat off mod BSIZE" by (simp add: unat_mod B)
  have le: "off mod of_nat BSIZE \<le> (of_nat BSIZE :: u32)"
    unfolding word_le_nat_alt m B by (simp add: BSIZE_def order_less_imp_le)
  have u: "unat (of_nat BSIZE - off mod of_nat BSIZE :: u32) = BSIZE - unat off mod BSIZE"
    using unat_sub [OF le] by (simp add: m B)
  have v: "unat (k - tot) = unat k - unat tot" using assms by (simp add: unat_sub order_less_imp_le)
  show c: "unat (chunk k tot off) = min (unat k - unat tot) (BSIZE - unat off mod BSIZE)"
    unfolding chunk_def min_def word_le_nat_alt u v by (simp add: u v)
  have "0 < unat (chunk k tot off)" using assms unfolding c by (simp add: word_less_nat_alt BSIZE_def)
  then show "chunk k tot off > 0" by (simp add: word_less_nat_alt)
  have "unat tot + unat (chunk k tot off) \<le> unat k" using assms unfolding c by (auto simp: word_less_nat_alt)
  moreover have "unat k < 2 ^ LENGTH(32)" by (rule unsigned_less)
  ultimately show a: "unat (tot + chunk k tot off) = unat tot + unat (chunk k tot off)"
    by (simp add: unat_word_ariths)
  then show "tot + chunk k tot off \<le> k" using \<open>unat tot + unat (chunk k tot off) \<le> unat k\<close> by (simp add: word_le_nat_alt)
qed

lemma chunk_decr: "tot < k \<Longrightarrow> unat k - unat (tot + chunk k tot off) < unat k - unat tot"
  using unat_chunk(2-4) [of tot k off] by (simp add: word_less_nat_alt word_le_nat_alt)

type_synonym ('b, 's) sink = "'b \<Rightarrow> u32 \<Rightarrow> u8 list \<Rightarrow> 's \<Rightarrow> ('b option, 's) outcome"

function readi_loop :: "('b, 'a fsst_scheme) sink \<Rightarrow> nat \<Rightarrow> u32 \<Rightarrow> u32 \<Rightarrow> u32 \<Rightarrow> 'b \<Rightarrow> 'a fsst_scheme \<Rightarrow>
    (u32 \<times> 'b, 'a fsst_scheme) outcome" where
  "readi_loop copyout ip off k tot acc s =
     (if tot < k
      then bindo (bmap ip (unat off div BSIZE) s) (\<lambda>addr s.
           if addr = 0 then Ret (tot, acc) s
           else bindo (bread (idev (itable s ! ip)) addr s) (\<lambda>bp s.
             let m = chunk k tot off in
             bindo (copyout acc tot (blk_get (get_data bp s) (unat off mod BSIZE) (unat m)) s) (\<lambda>r s.
             case r of
               None \<Rightarrow> bindo (brelse bp s) (\<lambda>_ s. Ret (-1, acc) s)
             | Some acc \<Rightarrow> bindo (brelse bp s) (\<lambda>_ s. readi_loop copyout ip (off + m) k (tot + m) acc s))))
      else Ret (tot, acc) s)"
  by pat_completeness auto
termination
proof (relation "measure (\<lambda>(_, _, _, k, tot, _, _). unat k - unat tot)", goal_cases)
  case (2 copyout ip off k tot acc s addr t bp u m r v acc' w)
  then show ?case using chunk_decr [of tot k off] by simp
qed simp

definition readi :: "('b, 'a fsst_scheme) sink \<Rightarrow> nat \<Rightarrow> u32 \<Rightarrow> u32 \<Rightarrow> 'b \<Rightarrow> 'a fsst_scheme \<Rightarrow>
    (u32 \<times> 'b, 'a fsst_scheme) outcome" where
  "readi copyout ip off k acc s =
     (let sz = dsize (din (itable s ! ip)) in
      if off > sz \<or> off + k < off then Ret (0, acc) s
      else readi_loop copyout ip off (if off + k > sz then sz - off else k) 0 acc s)"

text \<open>
  The source of \<open>writei\<close> is a parameter as well: \<open>copyin tot m\<close> gives the bytes it has
  stored into the buffer, and whether it succeeded.
\<close>

type_synonym 's source = "u32 \<Rightarrow> u32 \<Rightarrow> 's \<Rightarrow> (bool \<times> u8 list, 's) outcome"

function writei_loop :: "'a fsst_scheme source \<Rightarrow> nat \<Rightarrow> u32 \<Rightarrow> u32 \<Rightarrow> u32 \<Rightarrow> 'a fsst_scheme \<Rightarrow>
    (u32 \<times> u32, 'a fsst_scheme) outcome" where
  "writei_loop copyin ip off k tot s =
     (if tot < k
      then bindo (bmap ip (unat off div BSIZE) s) (\<lambda>addr s.
           if addr = 0 then Ret (tot, off) s
           else bindo (bread (idev (itable s ! ip)) addr s) (\<lambda>bp s.
             let m = chunk k tot off in
             bindo (copyin tot m s) (\<lambda>(ok, bs) s.
             let s = set_data bp (blk_put (get_data bp s) (unat off mod BSIZE) bs) s in
             if \<not> ok then bindo (brelse bp s) (\<lambda>_ s. Ret (tot, off) s)
             else bindo (log_write bp s) (\<lambda>_ s. bindo (brelse bp s) (\<lambda>_ s.
               writei_loop copyin ip (off + m) k (tot + m) s)))))
      else Ret (tot, off) s)"
  by pat_completeness auto
termination
proof (relation "measure (\<lambda>(_, _, _, k, tot, _). unat k - unat tot)", goal_cases)
  case (2 copyin ip off k tot s)
  then show ?case using chunk_decr [of tot k off] by simp
qed simp

declare readi_loop.simps [simp del] writei_loop.simps [simp del]

definition writei :: "'a fsst_scheme source \<Rightarrow> nat \<Rightarrow> u32 \<Rightarrow> u32 \<Rightarrow> 'a fsst_scheme \<Rightarrow> (u32, 'a fsst_scheme) outcome" where
  "writei copyin ip off k s =
     (if off > dsize (din (itable s ! ip)) \<or> off + k < off then Ret (-1) s
      else if off + k > of_nat (MAXFILE * BSIZE) then Ret (-1) s
      else bindo (writei_loop copyin ip off k 0 s) (\<lambda>(tot, off) s.
        let s = (if off > dsize (din (itable s ! ip)) then upd_din ip (\<lambda>d. d\<lparr>dsize := off\<rparr>) s else s) in
        bindo (iupdate ip s) (\<lambda>_ s. Ret tot s)))"

text \<open>The copies from and to a buffer of the kernel always succeed.\<close>

definition kernel_sink :: "(u8 list, 's) sink" where
  "kernel_sink acc tot bs s = Ret (Some (blk_put acc (unat tot) bs)) s"

definition kernel_source :: "u8 list \<Rightarrow> 's source" where
  "kernel_source bs tot m s = Ret (True, blk_get bs (unat tot) (unat m)) s"

section \<open>Directories\<close>

text \<open>A \<open>struct dirent\<close> is 2 bytes of inode number and the name, padded with NUL.\<close>

definition de_inum :: "u8 list \<Rightarrow> u16" where
  "de_inum de = get16 de 0"

definition de_name :: "u8 list \<Rightarrow> u8 list" where
  "de_name de = blk_get de 2 DIRSIZ"

definition dirent_offs :: "u32 \<Rightarrow> u32 list" where
  "dirent_offs sz = map (\<lambda>i. of_nat (16 * i)) [0..<(unat sz + 15) div 16]"

definition read_dirent :: "string \<Rightarrow> nat \<Rightarrow> u32 \<Rightarrow> u8 list \<Rightarrow> 'a fsst_scheme \<Rightarrow> (u8 list, 'a fsst_scheme) outcome" where
  "read_dirent msg dp off de s =
     bindo (readi kernel_sink dp off 16 de s) (\<lambda>(r, de) s. if r \<noteq> 16 then Panic msg else Ret de s)"

definition cptr_of :: "u8 list \<Rightarrow> cptr" where
  "cptr_of bs i = (if i < length bs then bs ! i else 0)"

definition namecmp :: "u8 list \<Rightarrow> u8 list \<Rightarrow> int" where
  "namecmp a b = strncmp (cptr_of a) (cptr_of b) DIRSIZ"

fun dirlookup_from :: "nat \<Rightarrow> u8 list \<Rightarrow> u32 list \<Rightarrow> u8 list \<Rightarrow> 'a fsst_scheme \<Rightarrow> ((nat \<times> u32) option, 'a fsst_scheme) outcome" where
  "dirlookup_from dp name [] de s = Ret None s"
| "dirlookup_from dp name (off # offs) de s =
     bindo (read_dirent ''dirlookup read'' dp off de s) (\<lambda>de s.
     if de_inum de = 0 then dirlookup_from dp name offs de s
     else if namecmp name (de_name de) = 0
     then bindo (iget (idev (itable s ! dp)) (ucast (de_inum de)) s) (\<lambda>ip s. Ret (Some (ip, off)) s)
     else dirlookup_from dp name offs de s)"

definition dirlookup :: "nat \<Rightarrow> u8 list \<Rightarrow> 'a fsst_scheme \<Rightarrow> ((nat \<times> u32) option, 'a fsst_scheme) outcome" where
  "dirlookup dp name s =
     (let d = din (itable s ! dp) in
      if dtype d \<noteq> T_DIR then Panic ''dirlookup not DIR''
      else dirlookup_from dp name (dirent_offs (dsize d)) (replicate 16 0) s)"

fun free_dirent_from :: "nat \<Rightarrow> u32 list \<Rightarrow> u32 \<Rightarrow> u8 list \<Rightarrow> 'a fsst_scheme \<Rightarrow> (u32 \<times> u8 list, 'a fsst_scheme) outcome" where
  "free_dirent_from dp [] off_end de s = Ret (off_end, de) s"
| "free_dirent_from dp (off # offs) off_end de s =
     bindo (read_dirent ''dirlink read'' dp off de s) (\<lambda>de s.
     if de_inum de = 0 then Ret (off, de) s else free_dirent_from dp offs off_end de s)"

definition dirlink :: "nat \<Rightarrow> u8 list \<Rightarrow> u32 \<Rightarrow> 'a fsst_scheme \<Rightarrow> (int, 'a fsst_scheme) outcome" where
  "dirlink dp name i s =
     bindo (dirlookup dp name s) (\<lambda>r s.
     case r of
       Some (ip, _) \<Rightarrow> bindo (iput ip s) (\<lambda>_ s. Ret (-1) s)
     | None \<Rightarrow>
         let offs = dirent_offs (dsize (din (itable s ! dp))) in
         bindo (free_dirent_from dp offs (of_nat (16 * length offs)) (replicate 16 0) s) (\<lambda>(off, de) s.
         let de = le_bytes 2 (ucast i :: u16) @ strncpy (cptr_of name) DIRSIZ in
         bindo (writei (kernel_source de) dp off 16 s) (\<lambda>r s.
         Ret (if r \<noteq> 16 then -1 else 0) s)))"

section \<open>Path names\<close>

definition slash :: u8 where "slash = 47"

definition skipelem :: "u8 list \<Rightarrow> u8 list \<Rightarrow> (u8 list \<times> u8 list) option" where
  "skipelem path name =
     (let path = dropWhile (\<lambda>c. c = slash) path in
      if path = [] then None
      else let elem = takeWhile (\<lambda>c. c \<noteq> slash) path;
               path = dropWhile (\<lambda>c. c \<noteq> slash) path;
               name = (if length elem \<ge> DIRSIZ then blk_put name 0 (take DIRSIZ elem)
                       else blk_put name 0 (elem @ [0]))
           in Some (dropWhile (\<lambda>c. c = slash) path, name))"

lemma skipelem_shorter: "skipelem path name = Some (path', name') \<Longrightarrow> length path' < length path"
proof -
  assume a: "skipelem path name = Some (path', name')"
  define p where "p = dropWhile (\<lambda>c. c = slash) path"
  have p: "p \<noteq> []" "path' = dropWhile (\<lambda>c. c = slash) (dropWhile (\<lambda>c. c \<noteq> slash) p)"
    using a unfolding skipelem_def Let_def p_def by (auto split: if_splits)
  then have "hd p \<noteq> slash" unfolding p_def using hd_dropWhile by blast
  then have "dropWhile (\<lambda>c. c \<noteq> slash) p = dropWhile (\<lambda>c. c \<noteq> slash) (tl p)" using p(1) by (cases p) auto
  then have "length path' \<le> length (tl p)"
    unfolding p(2) by (metis length_dropWhile_le order_trans)
  also have "\<dots> < length p" using p(1) by simp
  also have "\<dots> \<le> length path" unfolding p_def by (rule length_dropWhile_le)
  finally show ?thesis .
qed

function namex_loop :: "nat \<Rightarrow> u8 list \<Rightarrow> bool \<Rightarrow> u8 list \<Rightarrow> 'a fsst_scheme \<Rightarrow> (nat option \<times> u8 list, 'a fsst_scheme) outcome" where
  "namex_loop ip path nameiparent name s =
     (case skipelem path name of
        None \<Rightarrow> if nameiparent then bindo (iput ip s) (\<lambda>_ s. Ret (None, name) s) else Ret (Some ip, name) s
      | Some (path, name) \<Rightarrow>
          bindo (ilock ip s) (\<lambda>_ s.
          if dtype (din (itable s ! ip)) \<noteq> T_DIR then bindo (iunlockput ip s) (\<lambda>_ s. Ret (None, name) s)
          else if nameiparent \<and> path = [] then bindo (iunlock ip s) (\<lambda>_ s. Ret (Some ip, name) s)
          else bindo (dirlookup ip name s) (\<lambda>r s.
            case r of
              None \<Rightarrow> bindo (iunlockput ip s) (\<lambda>_ s. Ret (None, name) s)
            | Some (next, _) \<Rightarrow> bindo (iunlockput ip s) (\<lambda>_ s. namex_loop next path nameiparent name s))))"
  by pat_completeness auto
termination
  by (relation "measure (\<lambda>(_, path, _, _, _). length path)") (auto dest: skipelem_shorter)

declare namex_loop.simps [simp del]

text \<open>\<open>cwd\<close> is the current directory of the calling process.\<close>

definition namex :: "nat \<Rightarrow> u8 list \<Rightarrow> bool \<Rightarrow> u8 list \<Rightarrow> 'a fsst_scheme \<Rightarrow> (nat option \<times> u8 list, 'a fsst_scheme) outcome" where
  "namex cwd path nameiparent name s =
     bindo (if path \<noteq> [] \<and> hd path = slash then iget ROOTDEV ROOTINO s else Ret cwd (idup cwd s)) (\<lambda>ip s.
     namex_loop ip path nameiparent name s)"

definition namei :: "nat \<Rightarrow> u8 list \<Rightarrow> 'a fsst_scheme \<Rightarrow> (nat option, 'a fsst_scheme) outcome" where
  "namei cwd path s = bindo (namex cwd path False (replicate DIRSIZ 0) s) (\<lambda>(ip, _) s. Ret ip s)"

definition nameiparent :: "nat \<Rightarrow> u8 list \<Rightarrow> u8 list \<Rightarrow> 'a fsst_scheme \<Rightarrow> (nat option \<times> u8 list, 'a fsst_scheme) outcome" where
  "nameiparent cwd path name s = namex cwd path True name s"

end
