(* ===== verification/Txn.thy ===== *)
theory Txn
  imports Logging
begin

text \<open>
  The idiom of the file system for changing a block inside a transaction, proved
  once: \<open>bread\<close>, modify the data, \<open>log_write\<close>, \<open>brelse\<close>. \<open>ready s m\<close> says that an
  operation is open and that the log and the cache have room for \<open>m\<close> more blocks.
\<close>

definition log_ext :: "'a logst_scheme \<Rightarrow> 'a logst_scheme \<Rightarrow> bool" where
  "log_ext s t \<longleftrightarrow> (\<exists>bs l d w h. t = s\<lparr>bufs := bs, lru := l, disk := d, dwrites := w, lg := (lg s)\<lparr>lh := h\<rparr>\<rparr>)"

definition ready :: "'a logst_scheme \<Rightarrow> nat \<Rightarrow> bool" where
  "ready s m \<longleftrightarrow> quiet s \<and> log_ok (lg s) \<and> pinned s \<and> 1 \<le> outstanding (lg s) \<and>
     lh_n (lh (lg s)) + int m \<le> int LOGBLOCKS \<and> card {b. 0 < refs s b} + m < NBUF \<and> (\<forall>b. refs s b + m + 2 < 2 ^ 32)"

lemma log_ext_refl [simp]: "log_ext s s"
  unfolding log_ext_def
  by (intro exI [of _ "bufs s"] exI [of _ "lru s"] exI [of _ "disk s"] exI [of _ "dwrites s"] exI [of _ "lh (lg s)"]) simp

lemma log_ext_trans: "log_ext s t \<Longrightarrow> log_ext t u \<Longrightarrow> log_ext s u"
  unfolding log_ext_def by (elim exE) (rule exI, rule exI, rule exI, rule exI, rule exI, simp)

lemma bio_log_ext: "bio_ext s t \<Longrightarrow> log_ext s t"
  unfolding log_ext_def bio_ext_def
  by (elim exE, rule exI, rule exI, rule exI, rule exI, rule exI [of _ "lh (lg s)"]) simp

lemma log_extD:
  assumes "log_ext s t"
  shows "lstart (lg t) = lstart (lg s)" "outstanding (lg t) = outstanding (lg s)" "committing (lg t) = committing (lg s)"
    "ldev (lg t) = ldev (lg s)" "log_area (lg t) = log_area (lg s)" "cpid t = cpid s" "phys t = phys s"
  using assms by (auto simp: log_ext_def log_area_def)

lemma log_write_step:
  assumes inv: "bc_inv s" and l: "log_ok (lg s)" and m: "mine s bn b" and bn: "bn \<notin> log_area (lg s)" and r: "refs s bn + 1 < 2 ^ 32"
    and room: "lh_n (lh (lg s)) < int LOGBLOCKS" "1 \<le> outstanding (lg s)"
  shows "\<exists>t. log_write b s = Ret () t \<and> bc_inv t \<and> log_ext s t \<and> log_ok (lg t) \<and> mine t bn b \<and> content t = content s \<and>
    disk t = disk s \<and> held t = held s \<and> lh_n (lh (lg t)) \<le> lh_n (lh (lg s)) + 1 \<and>
    (if bn \<in> set (logged (lh (lg s))) then t = s
     else logged (lh (lg t)) = logged (lh (lg s)) @ [bn] \<and> refs t = (refs s)(bn := refs s bn + 1))"
proof -
  note mr = mine_refs [OF inv m]
  have bk: "bn = blockno (bufs s ! b)" using cached_buf [OF inv] mr(3) by metis
  show ?thesis
  proof (cases "bn \<in> set (logged (lh (lg s)))")
    case True
    then show ?thesis using log_write_ok [OF l room bk] inv l m by simp
  next
    case False
    let ?h = "\<lparr>lh_n = lh_n (lh (lg s)) + 1, hblock = (hblock (lh (lg s)))[nat (lh_n (lh (lg s))) := bn]\<rparr>"
    let ?t = "(bpin b s)\<lparr>lg := (lg s)\<lparr>lh := ?h\<rparr>\<rparr>"
    note p = pin_ok [OF inv m r]
    note sp = bc.step_D [OF conjunct1 [OF p]]
    have "log_ok (lg ?t)"
      using l bn room False logged_snoc [OF l room(1), of bn] by (auto simp: log_ok_def log_area_def)
    moreover have "log_write b s = Ret () ?t" using log_write_ok [OF l room bk] False by simp
    moreover have "logged (lh (lg ?t)) = logged (lh (lg s)) @ [bn]" using logged_snoc [OF l room(1)] by simp
    moreover have "log_ext s ?t"
      unfolding log_ext_def bpin_def upd_buf_def
      by (rule exI, rule exI [of _ "lru s"], rule exI [of _ "disk s"], rule exI [of _ "dwrites s"], rule exI [of _ ?h], simp)
    moreover have "held ?t = held s" using sp mr by (auto simp: fun_eq_iff)
    ultimately show ?thesis using False p sp by (intro exI [of _ ?t]) (simp add: fun_eq_iff)
  qed
qed

lemma ready_mono: "ready s m \<Longrightarrow> k \<le> m \<Longrightarrow> ready s k"
proof -
  assume r: "ready s m" and k: "k \<le> m"
  have "refs s b + k + 2 < 2 ^ 32" for b
  proof -
    have "refs s b + m + 2 < 2 ^ 32" using r unfolding ready_def by blast
    then show ?thesis using k by linarith
  qed
  then show ?thesis using r k unfolding ready_def by auto
qed

lemma readyD:
  assumes "ready s m"
  shows "bc_inv s" "\<not> held s b" "refs s b + 2 < 2 ^ 32" "card {b. 0 < refs s b} < NBUF" "log_ok (lg s)" "ldev (lg s) = ROOTDEV"
    "1 \<le> outstanding (lg s)" "quiet s" "pinned s"
  using assms by (auto simp: ready_def quiet_def log_ok_def)

lemma read_block:
  assumes "ready s m"
  shows "\<exists>i t u. bread ROOTDEV a s = Ret i t \<and> bio_ext s t \<and> get_data i t = content s a \<and> brelse i t = Ret () u \<and> ready u m \<and>
    bio_ext s u \<and> content u = content s \<and> disk u = disk s \<and> refs u = refs s"
proof -
  note rd = readyD [OF assms]
  obtain i t u where u: "bread ROOTDEV a s = Ret i t" "get_data i t = content s a" "brelse i t = Ret () u" "bc_inv u" "bio_ext s u"
      "content u = content s" "disk u = disk s" "refs u = refs s" "held u = held s"
    using bc.read_release [OF rd(1,2), of a] rd(3) [of a] rd(4) by (auto simp: less_trans [of _ "4294967294"])
  have "ready u m"
    using assms u(4,8,9) bio_ext_lg [OF u(5)] by (auto simp: ready_def quiet_def pinned_def)
  then show ?thesis using u bread_ext [OF u(1)] by blast
qed

lemma update_block:
  assumes rdy: "ready s (Suc m)" and bn: "bn \<notin> log_area (lg s)" and len: "length xs = BSIZE"
  shows "\<exists>i t u v. bread ROOTDEV bn s = Ret i t \<and> bio_ext s t \<and> get_data i t = content s bn \<and>
    log_write i (set_data i xs t) = Ret () u \<and> log_ext s u \<and> brelse i u = Ret () v \<and> log_ext s v \<and> ready v m \<and>
    content v = (content s)(bn := xs) \<and> disk v = disk s \<and> set (logged (lh (lg v))) = insert bn (set (logged (lh (lg s))))"
proof -
  note rd = readyD [OF rdy]
  have r: "refs s bn + 1 < 2 ^ 32" using rd(3) [of bn] by simp
  obtain i t where t: "bread ROOTDEV bn s = Ret i t" "bc_step s t bn (content s bn) (refs s bn + 1) True" "mine t bn i"
      "get_data i t = content s bn" "disk t = disk s"
    using bc.rd_law [OF rd(1,2) r] rd(4) by blast
  note st = bc.step_D [OF t(2)]
  let ?p = "set_data i xs t"
  note p = bc.put_law [OF conjunct1 [OF st] t(3) len]
  note sp = bc.step_D [OF conjunct1 [OF p]]
  have lgp: "lg ?p = lg s" using bio_ext_lg [of t ?p] bio_ext_lg [of s t] sp st by simp
  have rp: "refs ?p = (refs s)(bn := refs s bn + 1)" using st sp by (simp add: fun_eq_iff)
  have hp: "held ?p = (held s)(bn := True)" using st sp by (simp add: fun_eq_iff)
  have room: "lh_n (lh (lg s)) < int LOGBLOCKS" using rdy by (simp add: ready_def)
  obtain u where u: "log_write i ?p = Ret () u" "bc_inv u" "log_ext ?p u" "log_ok (lg u)" "mine u bn i" "content u = content ?p"
      "disk u = disk ?p" "held u = held ?p" "lh_n (lh (lg u)) \<le> lh_n (lh (lg s)) + 1"
      "if bn \<in> set (logged (lh (lg s))) then u = ?p
       else logged (lh (lg u)) = logged (lh (lg s)) @ [bn] \<and> refs u = (refs ?p)(bn := refs ?p bn + 1)"
    using log_write_step [of ?p bn i] sp p rd(5,7) bn room r rd(3) [of bn] unfolding lgp rp by auto
  have R: "refs u = (refs s)(bn := refs s bn + (if bn \<in> set (logged (lh (lg s))) then 1 else 2))"
    using u(10) rp by (auto split: if_splits)
  have pin: "bn \<in> set (logged (lh (lg s))) \<Longrightarrow> 0 < refs s bn" using rd(9) by (simp add: pinned_def list_all_iff)
  then have "refs u bn \<noteq> 1" using R by auto
  then obtain v where v: "brelse i u = Ret () v" "bc_step u v bn (content u bn) (refs u bn - 1) False" "disk v = disk u"
    using bc.rel_law [OF u(2) u(5)] by blast
  note sv = bc.step_D [OF v(2)]
  have lgv: "lg v = lg u" using sv bio_ext_lg by blast
  have ex: "log_ext s u" "log_ext s v"
    using log_ext_trans [OF bio_log_ext log_ext_trans [OF bio_log_ext u(3)], of s t] st sp
      log_ext_trans [OF _ bio_log_ext, of s u v] sv by auto
  have rv: "refs v = (refs s)(bn := refs s bn + (if bn \<in> set (logged (lh (lg s))) then 0 else 1))"
    using sv R by (auto simp: fun_eq_iff)
  have hv: "\<not> held v b" for b using sv u(8) hp rd(2) [of b] by simp
  have lv: "set (logged (lh (lg v))) = insert bn (set (logged (lh (lg s))))"
    using u(10) lgp by (auto simp: lgv split: if_splits)
  have "{b. 0 < refs v b} \<subseteq> insert bn {b. 0 < refs s b}" by (auto simp: rv)
  then have "card {b. 0 < refs v b} \<le> card (insert bn {b. 0 < refs s b})" by (intro card_mono finite)
  also have "\<dots> \<le> Suc (card {b. 0 < refs s b})" by (simp add: card_insert_if)
  finally have cv: "card {b. 0 < refs v b} + m < NBUF" using rdy by (simp add: ready_def)
  have fv: "refs v b + m + 2 < 2 ^ 32" for b
  proof -
    have "refs s b + Suc m + 2 < 2 ^ 32" using rdy unfolding ready_def by blast
    moreover have "refs v b \<le> Suc (refs s b)" by (simp add: rv)
    ultimately show ?thesis by linarith
  qed
  have "refs v b + 2 < 2 ^ 32" for b using fv [of b] by linarith
  moreover have "card {b. 0 < refs v b} < NBUF" using cv by linarith
  ultimately have "quiet v" using sv hv unfolding quiet_def by blast
  moreover have "pinned v" using rd(9) unfolding pinned_def list_all_iff lv by (auto simp: rv dest: pin split: if_splits)
  moreover have "1 \<le> outstanding (lg v)" using log_extD(2) [OF ex(2)] rd(7) by simp
  moreover have "lh_n (lh (lg v)) + int m \<le> int LOGBLOCKS" using u(9) rdy by (simp add: lgv ready_def)
  ultimately have "ready v m" using cv fv u(4) by (simp add: ready_def lgv)
  moreover have "content v = (content s)(bn := xs)" using sv u(6) sp st by (simp add: fun_eq_iff)
  ultimately show ?thesis using t(1,4,5) st u(1,7) v(1,3) p ex lv by auto
qed

end
