(* ===== verification/Fs_Alloc.thy ===== *)
theory Fs_Alloc
  imports Fs Txn
begin

text \<open>
  The block allocator of kernel/fs.c: the bitmap as a predicate on block numbers,
  and what \<open>balloc\<close> and \<open>bfree\<close> do to it and to the contents of the blocks.
\<close>

unbundle bit_operations_syntax

section \<open>Bits of a block\<close>

lemma bit_free_bit: "bit_free bs bi \<longleftrightarrow> \<not> bit (bs ! (bi div 8)) (bi mod 8)"
  by (simp add: bit_free_def push_bit_of_1 and_exp_eq_0_iff_not_bit)

lemma bit_free_mark_used:
  assumes "bi < 8 * length bs"
  shows "bit_free (mark_used bs bi) bj \<longleftrightarrow> bj \<noteq> bi \<and> bit_free bs bj"
proof (cases "bj div 8 = bi div 8")
  case True
  have "bj = bi \<longleftrightarrow> bj mod 8 = bi mod 8" using True div_mult_mod_eq [of bj 8] div_mult_mod_eq [of bi 8] by metis
  then show ?thesis using assms True by (auto simp: bit_free_bit mark_used_def bit_simps div_less_iff_less_mult)
next
  case False
  then show ?thesis by (auto simp: bit_free_bit mark_used_def)
qed

lemma bit_free_mark_free:
  assumes "bi < 8 * length bs"
  shows "bit_free (mark_free bs bi) bj \<longleftrightarrow> bj = bi \<or> bit_free bs bj"
proof (cases "bj div 8 = bi div 8")
  case True
  have "bj = bi \<longleftrightarrow> bj mod 8 = bi mod 8" using True div_mult_mod_eq [of bj 8] div_mult_mod_eq [of bi 8] by metis
  then show ?thesis using assms True by (auto simp: bit_free_bit mark_free_def bit_simps div_less_iff_less_mult)
next
  case False
  then show ?thesis by (auto simp: bit_free_bit mark_free_def)
qed

lemma mark_length [simp]: "length (mark_used bs bi) = length bs" "length (mark_free bs bi) = length bs"
  by (simp_all add: mark_used_def mark_free_def)

section \<open>The bitmap\<close>

definition bused :: "superblock \<Rightarrow> (u32 \<Rightarrow> u8 list) \<Rightarrow> nat \<Rightarrow> bool" where
  "bused sp c b \<longleftrightarrow> \<not> bit_free (c (BBLOCK b sp)) (b mod BPB)"

text \<open>
  The layout that mkfs makes: the boot block, the log and the bitmap lie inside the
  file system, are marked as used and do not overlap.
\<close>

definition layout_ok :: "superblock \<Rightarrow> loginfo \<Rightarrow> (u32 \<Rightarrow> u8 list) \<Rightarrow> bool" where
  "layout_ok sp l c \<longleftrightarrow> bused sp c 0 \<and> (\<forall>b\<in>log_area l. unat b < unat (size sp) \<and> bused sp c (unat b)) \<and>
     (\<forall>b<unat (size sp). BBLOCK b sp \<notin> log_area l \<and> unat (BBLOCK b sp) < unat (size sp) \<and> bused sp c (unat (BBLOCK b sp))) \<and>
     unat (bmapstart sp) + (unat (size sp) + BPB) div BPB < 2 ^ 32"

lemma BBLOCK_eq_iff:
  assumes "unat (bmapstart sp) + (unat (size sp) + BPB) div BPB < 2 ^ 32" "a < unat (size sp)" "b < unat (size sp)"
  shows "BBLOCK a sp = BBLOCK b sp \<longleftrightarrow> a div BPB = b div BPB"
proof -
  have s: "unat (of_nat x :: u32) = x" if "x < unat (size sp)" for x
    using less_trans [OF that unat_u32_lt] by (rule unat_of_nat_u32)
  have u: "unat (of_nat x div of_nat BPB :: u32) = x div BPB" if "x < unat (size sp)" for x
    using s [OF that] by (simp add: unat_div BPB_def BSIZE_def)
  have "BBLOCK a sp = BBLOCK b sp \<longleftrightarrow> (of_nat a div of_nat BPB :: u32) = of_nat b div of_nat BPB" by (simp add: BBLOCK_def)
  also have "\<dots> \<longleftrightarrow> a div BPB = b div BPB" using u [OF assms(2)] u [OF assms(3)] by (simp add: word_unat_eq_iff)
  finally show ?thesis .
qed

lemma bused_upd:
  assumes lay: "layout_ok sp l c" and a: "a < unat (size sp)" and b: "b < unat (size sp)" and len: "length (c (BBLOCK a sp)) = BSIZE"
  shows "bused sp (c(BBLOCK a sp := mark_used (c (BBLOCK a sp)) (a mod BPB))) b \<longleftrightarrow> b = a \<or> bused sp c b"
    "bused sp (c(BBLOCK a sp := mark_free (c (BBLOCK a sp)) (a mod BPB))) b \<longleftrightarrow> b \<noteq> a \<and> bused sp c b"
proof -
  have "BBLOCK b sp = BBLOCK a sp \<longleftrightarrow> b div BPB = a div BPB"
    using lay a b by (intro BBLOCK_eq_iff) (auto simp: layout_ok_def)
  moreover have "b = a \<longleftrightarrow> b div BPB = a div BPB \<and> b mod BPB = a mod BPB" by (metis div_mult_mod_eq)
  moreover have "a mod BPB < 8 * length (c (BBLOCK a sp))" by (simp add: len BPB_def BSIZE_def)
  ultimately show "bused sp (c(BBLOCK a sp := mark_used (c (BBLOCK a sp)) (a mod BPB))) b \<longleftrightarrow> b = a \<or> bused sp c b"
    "bused sp (c(BBLOCK a sp := mark_free (c (BBLOCK a sp)) (a mod BPB))) b \<longleftrightarrow> b \<noteq> a \<and> bused sp c b"
    by (auto simp: bused_def bit_free_mark_used bit_free_mark_free)
qed

lemma ext_fs: "bio_ext s t \<Longrightarrow> sb t = sb s \<and> itable t = itable s"
  by (auto simp: bio_ext_def)

lemma log_ext_fs: "log_ext s t \<Longrightarrow> sb t = sb s \<and> itable t = itable s"
  by (auto simp: log_ext_def)

lemma bzero_ok:
  assumes "ready s (Suc m)" "bn \<notin> log_area (lg s)"
  shows "\<exists>v. bzero ROOTDEV bn s = Ret () v \<and> log_ext s v \<and> ready v m \<and> content v = (content s)(bn := replicate BSIZE 0) \<and> disk v = disk s"
proof -
  obtain i t u v where v: "bread ROOTDEV bn s = Ret i t" "log_write i (set_data i (replicate BSIZE 0) t) = Ret () u"
      "brelse i u = Ret () v" "log_ext s v" "ready v m" "content v = (content s)(bn := replicate BSIZE 0)" "disk v = disk s"
    using update_block [OF assms, of "replicate BSIZE 0"] by auto
  then show ?thesis by (simp add: bzero_def)
qed

lemma find_bit_Some:
  assumes "find_bit bs b sz = Some bi"
  shows "bi < BPB" "b + bi < sz" "bit_free bs bi" "\<And>j. j < bi \<Longrightarrow> \<not> bit_free bs j"
  using assms by (auto simp: find_bit_def find_Some_iff)

lemma find_bit_None: "find_bit bs b sz = None \<Longrightarrow> j < BPB \<Longrightarrow> b + j < sz \<Longrightarrow> \<not> bit_free bs j"
  by (auto simp: find_bit_def find_None_iff)

lemma balloc_from_ok:
  assumes "ready s (Suc (Suc m))" and "layout_ok (sb s) (lg s) (content s)" and "k \<le> K"
    and "K = (unat (size (sb s)) + BPB - 1) div BPB" and "\<forall>b<k * BPB. b < unat (size (sb s)) \<longrightarrow> bused (sb s) (content s) b"
  shows "\<exists>a v. balloc_from ROOTDEV (map (\<lambda>k. k * BPB) [k..<K]) s = Ret a v \<and> log_ext s v \<and> disk v = disk s \<and> ready v m \<and>
    (if a = 0 then (\<forall>b<unat (size (sb s)). bused (sb s) (content s) b) \<and> content v = content s
     else unat a < unat (size (sb s)) \<and> \<not> bused (sb s) (content s) (unat a) \<and>
       (\<forall>b<unat a. bused (sb s) (content s) b) \<and>
       content v = (content s)(BBLOCK (unat a) (sb s) := mark_used (content s (BBLOCK (unat a) (sb s))) (unat a mod BPB),
                               a := replicate BSIZE 0))"
  using assms
proof (induction "K - k" arbitrary: k s)
  case 0
  have "unat (size (sb s)) \<le> K * BPB"
    using 0 by (simp add: BPB_def BSIZE_def)
  then have "\<forall>b<unat (size (sb s)). bused (sb s) (content s) b" using 0 by auto
  moreover have "ready s m" using 0(2) by (rule ready_mono) simp
  ultimately show ?case using 0 by simp
next
  case (Suc d)
  let ?b = "k * BPB" and ?sz = "unat (size (sb s))"
  have k: "k < K" "[k..<K] = k # [Suc k..<K]" using Suc.hyps(2) by (auto simp: upt_rec)
  then have bsz: "?b < ?sz" using Suc.prems(4) by (simp add: BPB_def BSIZE_def)
  have lay: "BBLOCK ?b (sb s) \<notin> log_area (lg s)" using Suc.prems(2) bsz by (simp add: layout_ok_def)
  have same: "BBLOCK (?b + j) (sb s) = BBLOCK ?b (sb s)" "(?b + j) mod BPB = j" if "j < BPB" "?b + j < ?sz" for j
    using that bsz Suc.prems(2) by (auto simp: layout_ok_def BBLOCK_eq_iff BPB_def BSIZE_def)
  show ?case
  proof (cases "find_bit (content s (BBLOCK ?b (sb s))) ?b ?sz")
    case None
    obtain i t u where u: "bread ROOTDEV (BBLOCK ?b (sb s)) s = Ret i t" "get_data i t = content s (BBLOCK ?b (sb s))"
        "bio_ext s t" "brelse i t = Ret () u" "ready u (Suc (Suc m))" "bio_ext s u" "content u = content s" "disk u = disk s"
      using read_block [OF Suc.prems(1)] by blast
    have e: "sb t = sb s" "sb u = sb s" "lg u = lg s" using ext_fs u(3,6) bio_ext_lg by blast+
    have "bused (sb s) (content s) b" if "b < Suc k * BPB" "b < ?sz" for b
    proof (cases "b < ?b")
      case False
      define j where "j = b - ?b"
      have j: "b = ?b + j" "j < BPB" using False that(1) by (auto simp: j_def)
      then show ?thesis using find_bit_None [OF None j(2)] that(2) same [OF j(2)] by (simp add: bused_def)
    qed (use Suc.prems(5) that in blast)
    then have us: "\<forall>b<Suc k * BPB. b < ?sz \<longrightarrow> bused (sb s) (content s) b" by blast
    have d: "d = K - Suc k" "Suc k \<le> K" using Suc.hyps(2) k(1) by auto
    obtain a v where v: "balloc_from ROOTDEV (map (\<lambda>k. k * BPB) [Suc k..<K]) u = Ret a v" "log_ext u v" "disk v = disk s" "ready v m"
      "if a = 0 then (\<forall>b<?sz. bused (sb s) (content s) b) \<and> content v = content s
       else unat a < ?sz \<and> \<not> bused (sb s) (content s) (unat a) \<and> (\<forall>b<unat a. bused (sb s) (content s) b) \<and>
         content v = (content s)(BBLOCK (unat a) (sb s) := mark_used (content s (BBLOCK (unat a) (sb s))) (unat a mod BPB),
                                 a := replicate BSIZE 0)"
      using Suc.hyps(1) [OF d(1), of u, unfolded e u(7,8), OF u(5) Suc.prems(2) d(2) Suc.prems(4) us] by blast
    have "balloc_from ROOTDEV (map (\<lambda>k. k * BPB) [k..<K]) s = Ret a v"
      using u(1,2,4) v(1) None e(1) by (simp add: k(2) del: upt_Suc)
    then show ?thesis using v log_ext_trans [OF bio_log_ext [OF u(6)] v(2)] by blast
  next
    case (Some bi)
    let ?x = "content s (BBLOCK ?b (sb s))" and ?a = "of_nat (?b + bi) :: u32"
    note fb = find_bit_Some [OF Some]
    have ua: "unat ?a = ?b + bi" using less_trans [OF fb(2) unat_u32_lt] by (rule unat_of_nat_u32)
    note sm = same [OF fb(1,2)]
    have fr: "\<not> bused (sb s) (content s) (unat ?a)" unfolding bused_def ua using fb(3) sm by simp
    then have a0: "?a \<noteq> 0" using Suc.prems(2) by (auto simp: layout_ok_def)
    have aarea: "?a \<notin> log_area (lg s)" using fr Suc.prems(2) by (auto simp: layout_ok_def)
    have ab: "?a \<noteq> BBLOCK ?b (sb s)" using fr Suc.prems(2) bsz by (auto simp: layout_ok_def)
    have len: "length (mark_used ?x bi) = BSIZE" using bc.cont_len readyD(1) [OF Suc.prems(1)] by simp
    obtain i t u v where v: "bread ROOTDEV (BBLOCK ?b (sb s)) s = Ret i t" "bio_ext s t" "get_data i t = ?x"
        "log_write i (set_data i (mark_used ?x bi) t) = Ret () u" "brelse i u = Ret () v" "log_ext s v" "ready v (Suc m)"
        "content v = (content s)(BBLOCK ?b (sb s) := mark_used ?x bi)" "disk v = disk s"
      using update_block [OF Suc.prems(1) lay len] by blast
    have "?a \<notin> log_area (lg v)" using aarea log_extD(5) [OF v(6)] by simp
    then obtain w where w: "bzero ROOTDEV ?a v = Ret () w" "log_ext v w" "ready w m" "content w = (content v)(?a := replicate BSIZE 0)"
        "disk w = disk v"
      using bzero_ok [OF v(7)] by blast
    have "balloc_from ROOTDEV (map (\<lambda>k. k * BPB) [k..<K]) s = Ret ?a w"
      using v(1,3,4,5) w(1) Some ext_fs [OF v(2)] by (simp add: k(2) del: upt_Suc of_nat_add)
    moreover have "bused (sb s) (content s) b" if "b < unat ?a" for b
    proof (cases "b < ?b")
      case True
      then show ?thesis using Suc.prems(5) bsz by simp
    next
      case False
      define j where "j = b - ?b"
      have j: "b = ?b + j" "j < bi" using False that ua by (auto simp: j_def)
      then show ?thesis using fb(4) [OF j(2)] same [of j] fb(1,2) by (simp add: bused_def)
    qed
    moreover have "content w = (content s)(BBLOCK (unat ?a) (sb s) := mark_used (content s (BBLOCK (unat ?a) (sb s))) (unat ?a mod BPB),
        ?a := replicate BSIZE 0)"
      unfolding ua sm w(4) v(8) ..
    moreover have "unat ?a < ?sz" using fb(2) ua by simp
    ultimately show ?thesis using fr a0 log_ext_trans [OF v(6) w(2)] w(3,5) v(9)
      by (intro exI [of _ ?a] exI [of _ w]) (simp del: of_nat_add)
  qed
qed

lemma bused_zeroed:
  assumes "layout_ok sp l c" "b < unat (size sp)" "\<not> bused sp c (unat a)"
  shows "bused sp (d(a := x)) b = bused sp d b"
proof -
  have "BBLOCK b sp \<noteq> a" using assms by (auto simp: layout_ok_def)
  then show ?thesis by (simp add: bused_def)
qed

lemma bfree_ok:
  assumes r: "ready s (Suc m)" and lay: "layout_ok (sb s) (lg s) (content s)" and b: "unat b < unat (size (sb s))"
    and u: "bused (sb s) (content s) (unat b)"
  shows "\<exists>v. bfree ROOTDEV b s = Ret () v \<and> log_ext s v \<and> ready v m \<and> disk v = disk s \<and>
    content v = (content s)(BBLOCK (unat b) (sb s) := mark_free (content s (BBLOCK (unat b) (sb s))) (unat b mod BPB))"
proof -
  let ?B = "BBLOCK (unat b) (sb s)"
  let ?x = "mark_free (content s ?B) (unat b mod BPB)"
  have "?B \<notin> log_area (lg s)" "length ?x = BSIZE" using lay b bc.cont_len readyD(1) [OF r] by (auto simp: layout_ok_def)
  then obtain i t w v where v: "bread ROOTDEV ?B s = Ret i t" "bio_ext s t" "get_data i t = content s ?B"
      "log_write i (set_data i ?x t) = Ret () w" "brelse i w = Ret () v" "log_ext s v" "ready v m"
      "content v = (content s)(?B := ?x)" "disk v = disk s"
    using update_block [OF r] by blast
  then show ?thesis using u by (simp add: bfree_def bused_def)
qed

section \<open>A sample file system\<close>

text \<open>100 blocks, the log in blocks 2 to 32, the bitmap in block 45, the first 50 blocks in use.\<close>

definition sample_bitmap :: "u8 list" where
  "sample_bitmap = replicate 6 255 @ [3] @ replicate 1017 0"

definition sample_sb :: superblock where
  "sample_sb = \<lparr>magic = FSMAGIC, size = 100, nblocks = 54, ninodes = 160, nlog = 31, logstart = 2, inodestart = 33, bmapstart = 45\<rparr>"

definition sample_fs :: fsst where
  "sample_fs = \<lparr>phys = \<lambda>_. 0, freelist = 0, kend = 0, bufs = replicate 30 sample_buf, lru = [0..<NBUF],
     disk = (\<lambda>b. if b = 45 then sample_bitmap else replicate BSIZE 0), dwrites = [], cpid = 1,
     lg = \<lparr>lstart = 2, outstanding = 1, committing = False, ldev = ROOTDEV, lh = \<lparr>lh_n = 0, hblock = replicate 30 0\<rparr>\<rparr>,
     sb = sample_sb,
     itable = replicate NINODE \<lparr>idev = 0, inum = 0, iref = 0, ilk = initsleeplock, ivalid = False, din = zero_dinode 0\<rparr>\<rparr>"

lemma sample_fs_cached: "cached sample_fs b = None"
  by (auto simp: cached_def find_None_iff sample_fs_def sample_buf_def NBUF_def)

lemma sample_fs_obs: "refs sample_fs b = 0" "\<not> held sample_fs b" "content sample_fs = disk sample_fs"
  by (simp_all add: refs_def held_def content_def sample_fs_cached fun_eq_iff)

lemma sample_fs_ready: "m \<le> 10 \<Longrightarrow> ready sample_fs m"
proof -
  assume m: "m \<le> 10"
  have "bc_inv sample_fs"
    by (auto simp: bc_inv_def sample_fs_def sample_buf_def buf_ok_def NBUF_def initsleeplock_def sample_bitmap_def BSIZE_def)
  moreover have "lg sample_fs = \<lparr>lstart = 2, outstanding = 1, committing = False, ldev = ROOTDEV, lh = \<lparr>lh_n = 0, hblock = replicate 30 0\<rparr>\<rparr>"
    by (simp add: sample_fs_def)
  ultimately show ?thesis
    using m by (simp add: ready_def quiet_def sample_fs_obs log_ok_def logged_def pinned_def LOGBLOCKS_def MAXOPBLOCKS_def NBUF_def)
qed

lemma sample_fs_bused: "b < 100 \<Longrightarrow> bused sample_sb (content sample_fs) b \<longleftrightarrow> b < 50" "b < 100 \<Longrightarrow> BBLOCK b sample_sb = 45"
proof -
  have BB: "BBLOCK b sample_sb = 45" if "b < 100" for b
  proof -
    have "unat (of_nat b div of_nat BPB :: u32) = 0" using that by (simp add: unat_div BPB_def BSIZE_def unat_of_nat_u32)
    then have "(of_nat b div of_nat BPB :: u32) = 0" by (simp add: unat_eq_0)
    then show ?thesis by (simp add: BBLOCK_def sample_sb_def)
  qed
  then show "b < 100 \<Longrightarrow> BBLOCK b sample_sb = 45" .
  assume b: "b < 100"
  have "list_all (\<lambda>b. bit_free sample_bitmap b = (\<not> b < 50)) [0..<100]"
    by (simp add: upt_rec bit_free_bit sample_bitmap_def nth_append bit_numeral_rec)
  then have "bit_free sample_bitmap b = (\<not> b < 50)" using b by (simp add: list_all_iff)
  moreover have "b mod BPB = b" using b by (simp add: BPB_def BSIZE_def)
  moreover have "content sample_fs 45 = sample_bitmap" by (simp add: sample_fs_obs) (simp add: sample_fs_def)
  ultimately show "bused sample_sb (content sample_fs) b \<longleftrightarrow> b < 50" unfolding bused_def BB [OF b] by simp
qed

lemma sample_fs_layout: "layout_ok (sb sample_fs) (lg sample_fs) (content sample_fs)"
proof -
  have s: "sb sample_fs = sample_sb" "lstart (lg sample_fs) = 2" by (simp_all add: sample_fs_def)
  have "unat b < 100" "unat b < 50" if "b \<in> log_area (lg sample_fs)" for b
    using that by (simp_all add: log_area_def s LOGBLOCKS_def MAXOPBLOCKS_def)
  moreover have "unat (size sample_sb) = 100" "bmapstart sample_sb = 45" by (simp_all add: sample_sb_def)
  moreover have "45 \<notin> log_area (lg sample_fs)" by (simp add: log_area_def s LOGBLOCKS_def MAXOPBLOCKS_def)
  ultimately show ?thesis
    unfolding layout_ok_def s using sample_fs_bused by (simp add: BPB_def BSIZE_def)
qed

section \<open>Properties\<close>

text \<open>
  C20: \<open>balloc\<close> returns the lowest free block, marked as used in the bitmap and zeroed,
  and changes no other block and no other bit; when every block is in use it
  returns 0 and changes nothing. Nothing reaches the disk before the commit.
\<close>

theorem balloc_allocates:
  assumes "ready s (Suc (Suc m))" and "layout_ok (sb s) (lg s) (content s)"
  shows "\<exists>a v. balloc ROOTDEV s = Ret a v \<and> ready v m \<and> disk v = disk s \<and> log_ext s v \<and>
    (if a = 0 then (\<forall>b<unat (size (sb s)). bused (sb s) (content s) b) \<and> content v = content s
     else unat a < unat (size (sb s)) \<and> \<not> bused (sb s) (content s) (unat a) \<and> (\<forall>b<unat a. bused (sb s) (content s) b) \<and>
       content v a = replicate BSIZE 0 \<and> (\<forall>b. b \<noteq> a \<longrightarrow> b \<noteq> BBLOCK (unat a) (sb s) \<longrightarrow> content v b = content s b) \<and>
       (\<forall>b<unat (size (sb s)). bused (sb s) (content v) b \<longleftrightarrow> b = unat a \<or> bused (sb s) (content s) b))"
proof -
  obtain a v where v: "balloc ROOTDEV s = Ret a v" "log_ext s v" "disk v = disk s" "ready v m"
      "if a = 0 then (\<forall>b<unat (size (sb s)). bused (sb s) (content s) b) \<and> content v = content s
       else unat a < unat (size (sb s)) \<and> \<not> bused (sb s) (content s) (unat a) \<and>
         (\<forall>b<unat a. bused (sb s) (content s) b) \<and>
         content v = (content s)(BBLOCK (unat a) (sb s) := mark_used (content s (BBLOCK (unat a) (sb s))) (unat a mod BPB),
                                 a := replicate BSIZE 0)"
    unfolding balloc_def using balloc_from_ok [OF assms, of 0] by auto
  have "bused (sb s) (content v) b \<longleftrightarrow> b = unat a \<or> bused (sb s) (content s) b" if "a \<noteq> 0" "b < unat (size (sb s))" for b
  proof -
    have a: "unat a < unat (size (sb s))" "\<not> bused (sb s) (content s) (unat a)" using v(5) that(1) by auto
    have "length (content s (BBLOCK (unat a) (sb s))) = BSIZE" using bc.cont_len readyD(1) [OF assms(1)] by blast
    then show ?thesis
      using v(5) that bused_zeroed [OF assms(2) that(2) a(2)] bused_upd(1) [OF assms(2) a(1) that(2)] by simp
  qed
  then show ?thesis using v by (intro exI [of _ a] exI [of _ v]) auto
qed

theorem balloc_allocates_witness:
  "\<exists>v. balloc ROOTDEV sample_fs = Ret 50 v \<and> content v 50 = replicate BSIZE 0 \<and> bused sample_sb (content v) 50"
proof -
  have s: "sb sample_fs = sample_sb" "unat (size sample_sb) = 100" by (simp_all add: sample_fs_def sample_sb_def)
  obtain a v where v: "balloc ROOTDEV sample_fs = Ret a v" "log_ext sample_fs v"
      "if a = 0 then (\<forall>b<100. bused sample_sb (content sample_fs) b) \<and> content v = content sample_fs
     else unat a < 100 \<and> \<not> bused sample_sb (content sample_fs) (unat a) \<and> (\<forall>b<unat a. bused sample_sb (content sample_fs) b) \<and>
       content v a = replicate BSIZE 0 \<and> (\<forall>b. b \<noteq> a \<longrightarrow> b \<noteq> BBLOCK (unat a) sample_sb \<longrightarrow> content v b = content sample_fs b) \<and>
       (\<forall>b<100. bused sample_sb (content v) b \<longleftrightarrow> b = unat a \<or> bused sample_sb (content sample_fs) b)"
    using balloc_allocates [OF sample_fs_ready sample_fs_layout, of 0, unfolded s] by auto
  have "a \<noteq> 0" using v(3) sample_fs_bused(1) [of 99] by auto
  then have a: "unat a < 100" "\<not> bused sample_sb (content sample_fs) (unat a)" "\<forall>b<unat a. bused sample_sb (content sample_fs) b"
    using v(3) by auto
  have "\<not> unat a < 50" using a sample_fs_bused(1) by blast
  moreover have "\<not> 50 < unat a" using a(1,3) sample_fs_bused(1) [of 50] by auto
  ultimately have "unat a = 50" by simp
  then have "a = 50" by (simp add: word_unat_eq_iff)
  then show ?thesis using v(1,3) by auto
qed

text \<open>
  C28: \<open>bfree\<close> clears the bit of the block and no other. Freeing the block that \<open>balloc\<close>
  just returned gives back the bitmap from before the allocation.
\<close>

theorem balloc_bfree_roundtrip:
  assumes "ready s (Suc (Suc (Suc m)))" and "layout_ok (sb s) (lg s) (content s)" and "\<exists>b<unat (size (sb s)). \<not> bused (sb s) (content s) b"
  shows "\<exists>a t u. balloc ROOTDEV s = Ret a t \<and> a \<noteq> 0 \<and> bfree ROOTDEV a t = Ret () u \<and> ready u m \<and>
    (\<forall>b<unat (size (sb s)). bused (sb s) (content u) b \<longleftrightarrow> bused (sb s) (content s) b)"
proof -
  let ?sz = "unat (size (sb s))"
  have *: "\<exists>a v. balloc ROOTDEV s = Ret a v \<and> log_ext s v \<and> disk v = disk s \<and> ready v (Suc m) \<and>
      (if a = 0 then (\<forall>b<?sz. bused (sb s) (content s) b) \<and> content v = content s
       else unat a < ?sz \<and> \<not> bused (sb s) (content s) (unat a) \<and> (\<forall>b<unat a. bused (sb s) (content s) b) \<and>
         content v = (content s)(BBLOCK (unat a) (sb s) := mark_used (content s (BBLOCK (unat a) (sb s))) (unat a mod BPB),
                                 a := replicate BSIZE 0))"
    unfolding balloc_def using balloc_from_ok [OF assms(1,2), of 0] by simp
  then obtain a t where t: "balloc ROOTDEV s = Ret a t" "log_ext s t" "ready t (Suc m)" and a0: "a \<noteq> 0" and
      a: "unat a < ?sz" "\<not> bused (sb s) (content s) (unat a)" and
      c: "content t = (content s)(BBLOCK (unat a) (sb s) := mark_used (content s (BBLOCK (unat a) (sb s))) (unat a mod BPB),
                                 a := replicate BSIZE 0)"
    using assms(3) by (elim exE conjE) (auto split: if_splits)
  have sbt: "sb t = sb s" and area: "log_area (lg t) = log_area (lg s)" using log_ext_fs [OF t(2)] log_extD(5) [OF t(2)] by auto
  have ls: "length (content s b) = BSIZE" and lt: "length (content t b) = BSIZE" for b
    using bc.cont_len readyD(1) [OF assms(1)] readyD(1) [OF t(3)] by blast+
  have ut: "bused (sb s) (content t) b \<longleftrightarrow> b = unat a \<or> bused (sb s) (content s) b" if "b < ?sz" for b
    unfolding c using bused_zeroed [OF assms(2) that a(2)] bused_upd(1) [OF assms(2) a(1) that ls] by simp
  have lay: "layout_ok (sb t) (lg t) (content t)"
    using assms(2) ut ut [OF le_less_trans [OF _ a(1), of 0]] unfolding layout_ok_def sbt area by auto
  obtain u where u: "bfree ROOTDEV a t = Ret () u" "ready u m"
      "content u = (content t)(BBLOCK (unat a) (sb s) := mark_free (content t (BBLOCK (unat a) (sb s))) (unat a mod BPB))"
    using bfree_ok [OF t(3) lay, of a] ut a(1) sbt by auto
  have "bused (sb s) (content u) b \<longleftrightarrow> bused (sb s) (content s) b" if b: "b < ?sz" for b
    unfolding u(3) using bused_upd(2) [OF lay [unfolded sbt] a(1) b lt] ut [OF b] a(2) by auto
  then show ?thesis using t(1) a0 u(1,2) by blast
qed

theorem balloc_bfree_roundtrip_witness:
  "\<exists>a t u. balloc ROOTDEV sample_fs = Ret a t \<and> bfree ROOTDEV a t = Ret () u \<and> \<not> bused sample_sb (content u) 50 \<and> bused sample_sb (content u) 45"
proof -
  have s: "sb sample_fs = sample_sb" "unat (size sample_sb) = 100" by (simp_all add: sample_fs_def sample_sb_def)
  have "\<exists>b<100. \<not> bused sample_sb (content sample_fs) b"
    using sample_fs_bused(1) [of 50] by (intro exI [of _ 50]) simp
  then obtain a t u where "balloc ROOTDEV sample_fs = Ret a t" "bfree ROOTDEV a t = Ret () u"
      "\<forall>b<100. bused sample_sb (content u) b \<longleftrightarrow> bused sample_sb (content sample_fs) b"
    using balloc_bfree_roundtrip [OF sample_fs_ready sample_fs_layout, of 0, unfolded s] by auto
  then show ?thesis using sample_fs_bused(1) [of 50] sample_fs_bused(1) [of 45] by auto
qed

text \<open>C29: Freeing a block that is not in use is detected: \<open>bfree\<close> panics.\<close>

theorem bfree_double_free_panics:
  assumes "ready s m" and "\<not> bused (sb s) (content s) (unat b)"
  shows "bfree ROOTDEV b s = Panic ''freeing free block''"
proof -
  let ?B = "BBLOCK (unat b) (sb s)"
  obtain i t u where "bread ROOTDEV ?B s = Ret i t" "get_data i t = content s ?B"
    using read_block [OF assms(1), of ?B] by (elim exE conjE) (rule that)
  then show ?thesis using assms(2) by (simp add: bfree_def bused_def)
qed

theorem bfree_double_free_panics_witness: "bfree ROOTDEV 60 sample_fs = Panic ''freeing free block''"
proof -
  have "sb sample_fs = sample_sb" by (simp add: sample_fs_def)
  then show ?thesis using bfree_double_free_panics [OF sample_fs_ready [of 0], of 60] sample_fs_bused(1) [of 60] by simp
qed

end
