(* ===== verification/Fifo.thy ===== *)
theory Fifo
  imports Prelude
begin

text \<open>
  The contract of a bounded first-in first-out queue. The ring buffers of the
  repository (the queues of the bakery, the kernel's pipe) are shown to
  implement it, and what a client may rely on is proved here once.
\<close>

section \<open>Ring buffers\<close>

text \<open>The \<open>k\<close> elements of the ring \<open>xs\<close> from position \<open>h\<close> on.\<close>

definition ring :: "'a list \<Rightarrow> nat \<Rightarrow> nat \<Rightarrow> 'a list" where
  "ring xs h k = map (\<lambda>i. xs ! ((h + i) mod length xs)) [0..<k]"

lemma length_ring [simp]: "length (ring xs h k) = k"
  by (simp add: ring_def)

lemma ring_mod: "ring xs (h mod length xs) k = ring xs h k"
  by (simp add: ring_def mod_add_left_eq)

lemma ring_Suc: "ring xs h (Suc k) = xs ! (h mod length xs) # ring xs (Suc h) k"
  unfolding ring_def by (simp add: map_upt_Suc del: upt_Suc)

lemma ring_put:
  assumes "k < length xs"
  shows "ring (xs[(h + k) mod length xs := x]) h (Suc k) = ring xs h k @ [x]"
proof -
  have "(h + k) mod length xs \<noteq> (h + i) mod length xs" if "i < k" for i
  proof
    assume "(h + k) mod length xs = (h + i) mod length xs"
    then have "length xs dvd (h + k) - (h + i)" using that by (metis add_le_cancel_left mod_eq_dvd_iff_nat nat_less_le)
    then show False using that assms by (auto dest: dvd_imp_le)
  qed
  moreover have "(h + k) mod length xs < length xs" using assms by (intro mod_less_divisor) auto
  ultimately show ?thesis by (simp add: ring_def)
qed

section \<open>The contract\<close>

locale bounded_fifo =
  fixes empty :: 'q and enq :: "'a \<Rightarrow> 'q \<Rightarrow> 'q option" and deq :: "'q \<Rightarrow> ('a \<times> 'q) option"
    and inv :: "'q \<Rightarrow> bool" and abs :: "'q \<Rightarrow> 'a list" and cap :: nat
  assumes empty_law: "inv empty \<and> abs empty = []"
    and enq_full: "inv q \<Longrightarrow> length (abs q) = cap \<Longrightarrow> enq x q = None"
    and enq_room: "inv q \<Longrightarrow> length (abs q) < cap \<Longrightarrow> \<exists>q'. enq x q = Some q' \<and> inv q' \<and> abs q' = abs q @ [x]"
    and deq_empty: "inv q \<Longrightarrow> abs q = [] \<Longrightarrow> deq q = None"
    and deq_head: "inv q \<Longrightarrow> abs q = x # xs \<Longrightarrow> \<exists>q'. deq q = Some (x, q') \<and> inv q' \<and> abs q' = xs"
    and bounded: "inv q \<Longrightarrow> length (abs q) \<le> cap"
begin

fun enq_all :: "'a list \<Rightarrow> 'q \<Rightarrow> 'q option" where
  "enq_all [] q = Some q"
| "enq_all (x # xs) q = Option.bind (enq x q) (enq_all xs)"

fun deq_all :: "nat \<Rightarrow> 'q \<Rightarrow> ('a list \<times> 'q) option" where
  "deq_all 0 q = Some ([], q)"
| "deq_all (Suc k) q =
     Option.bind (deq q) (\<lambda>(x, q). Option.bind (deq_all k q) (\<lambda>(xs, q). Some (x # xs, q)))"

lemma enq_all_abs:
  "inv q \<Longrightarrow> length (abs q) + length xs \<le> cap \<Longrightarrow> \<exists>q'. enq_all xs q = Some q' \<and> inv q' \<and> abs q' = abs q @ xs"
proof (induction xs arbitrary: q)
  case (Cons x xs)
  obtain q' where q': "enq x q = Some q'" "inv q'" "abs q' = abs q @ [x]" using enq_room [OF Cons.prems(1), of x] Cons.prems(2) by auto
  show ?case using Cons.IH [OF q'(2)] Cons.prems(2) q' by auto
qed simp

lemma deq_all_abs:
  "inv q \<Longrightarrow> abs q = xs @ ys \<Longrightarrow> \<exists>q'. deq_all (length xs) q = Some (xs, q') \<and> inv q' \<and> abs q' = ys"
proof (induction xs arbitrary: q)
  case (Cons x xs)
  obtain q' where q': "deq q = Some (x, q')" "inv q'" "abs q' = xs @ ys" using deq_head [OF Cons.prems(1), of x] Cons.prems(2) by auto
  show ?case using Cons.IH [OF q'(2,3)] q'(1) by auto
qed simp

text \<open>What goes in comes out in the same order.\<close>

lemma fifo_order:
  assumes "inv q" "abs q = []" "length xs \<le> cap"
  shows "\<exists>q1 q2. enq_all xs q = Some q1 \<and> deq_all (length xs) q1 = Some (xs, q2) \<and> inv q2 \<and> abs q2 = []"
proof -
  obtain q1 where "enq_all xs q = Some q1" "inv q1" "abs q1 = xs @ []" using enq_all_abs [of q xs] assms by auto
  then show ?thesis using deq_all_abs [of q1 xs "[]"] by blast
qed

lemma enq_fails_iff: "inv q \<Longrightarrow> enq x q = None \<longleftrightarrow> length (abs q) = cap"
  using enq_full [of q x] enq_room [of q x] bounded [of q] by fastforce

end

end
