(* ===== verification/Bakery.thy ===== *)
theory Bakery
  imports Fifo
begin

text \<open>
  Concurrent-Bakery-Sim/main.c: the two ring-buffer queues, and the customers and
  chefs as threads that interleave. A step function executes one thread up to
  its next point of contact with the shared state; every access to the queues is
  inside a critical section of \<open>sofa_access_lock\<close>, which is one step. The pointer
  to an event is the index of its customer thread. Time and the printed lines
  are left out.
\<close>

section \<open>Queues\<close>

definition QUEUE_MAX :: nat where "QUEUE_MAX = 25"
definition SOFA_SEATS :: nat where "SOFA_SEATS = 4"
definition BAKERY_CAPACITY :: nat where "BAKERY_CAPACITY = 25"
definition NUM_CHEFS :: nat where "NUM_CHEFS = 4"

record queue =
  qdata :: "nat list"
  qhead :: nat
  qtail :: nat
  qcount :: nat

definition my_init :: "queue \<Rightarrow> queue" where
  "my_init q = q\<lparr>qhead := 0, qtail := 0, qcount := 0\<rparr>"

definition my_enqueue :: "queue \<Rightarrow> nat \<Rightarrow> int \<times> queue" where
  "my_enqueue q current =
     (if qcount q < QUEUE_MAX
      then (1, q\<lparr>qdata := (qdata q)[qtail q := current], qtail := (qtail q + 1) mod QUEUE_MAX, qcount := qcount q + 1\<rparr>)
      else (-1, q))"

definition my_dequeue :: "queue \<Rightarrow> nat option \<times> queue" where
  "my_dequeue q =
     (if qcount q > 0
      then (Some (qdata q ! qhead q), q\<lparr>qhead := (qhead q + 1) mod QUEUE_MAX, qcount := qcount q - 1\<rparr>)
      else (None, q))"

definition get_count :: "queue \<Rightarrow> nat" where
  "get_count q = qcount q"

section \<open>Threads\<close>

text \<open>
  Where a customer is: before \<open>sem_trywait(&num_of_cus)\<close>, inside, on the sofa but not yet
  queued, waiting for the cake, waiting for the payment, about to post
  \<open>num_of_seats\<close>, about to post \<open>num_of_cus\<close>, gone, or turned away.
\<close>

datatype cus_pc = Arriving | Entered | Sitting | Waiting | Eating | Leaving | Left_Seat | Gone | Turned_Away

text \<open>
  Where a chef is: looking for a customer, baking, holding the baked cake, at the
  register, having released it, having marked the payment, and having taken a
  standing customer to the sofa.
\<close>

datatype chef_pc = Idle | Baking nat | Baked nat | At_Register nat | Collected nat | Paid nat | Moving nat

record bakery =
  standing :: queue
  sofa :: queue
  num_of_cus :: nat
  num_of_seats :: nat
  cash_register :: "nat option"
  is_baking :: "nat \<Rightarrow> bool"
  is_paying :: "nat \<Rightarrow> bool"
  cpc :: "nat \<Rightarrow> cus_pc"
  kpc :: "nat \<Rightarrow> chef_pc"

definition main_init :: bakery where
  "main_init = (let q = my_init \<lparr>qdata = replicate QUEUE_MAX 0, qhead = 0, qtail = 0, qcount = 0\<rparr> in
     \<lparr>standing = q, sofa = q, num_of_cus = BAKERY_CAPACITY, num_of_seats = 4, cash_register = None,
      is_baking = (\<lambda>_. False), is_paying = (\<lambda>_. False), cpc = (\<lambda>_. Arriving), kpc = (\<lambda>_. Idle)\<rparr>)"

definition set_cpc :: "nat \<Rightarrow> cus_pc \<Rightarrow> bakery \<Rightarrow> bakery" where
  "set_cpc c p s = s\<lparr>cpc := (cpc s)(c := p)\<rparr>"

definition set_kpc :: "nat \<Rightarrow> chef_pc \<Rightarrow> bakery \<Rightarrow> bakery" where
  "set_kpc k p s = s\<lparr>kpc := (kpc s)(k := p)\<rparr>"

definition customer :: "nat \<Rightarrow> bakery \<Rightarrow> bakery option" where
  "customer c s =
     (case cpc s c of
        Arriving \<Rightarrow>
          if num_of_cus s = 0 then Some (set_cpc c Turned_Away s)
          else Some (set_cpc c Entered (s\<lparr>num_of_cus := num_of_cus s - 1\<rparr>))
      | Entered \<Rightarrow>
          if get_count (standing s) = 0 \<and> num_of_seats s > 0
          then Some (set_cpc c Sitting (s\<lparr>num_of_seats := num_of_seats s - 1\<rparr>))
          else Some (set_cpc c Waiting (s\<lparr>standing := snd (my_enqueue (standing s) c)\<rparr>))
      | Sitting \<Rightarrow> Some (set_cpc c Waiting (s\<lparr>sofa := snd (my_enqueue (sofa s) c)\<rparr>))
      | Waiting \<Rightarrow> if is_baking s c then Some (set_cpc c Eating s) else None
      | Eating \<Rightarrow> if is_paying s c then Some (set_cpc c Leaving s) else None
      | Leaving \<Rightarrow> Some (set_cpc c Left_Seat (s\<lparr>num_of_seats := num_of_seats s + 1\<rparr>))
      | Left_Seat \<Rightarrow> Some (set_cpc c Gone (s\<lparr>num_of_cus := num_of_cus s + 1\<rparr>))
      | Gone \<Rightarrow> None
      | Turned_Away \<Rightarrow> None)"

definition Chef :: "nat \<Rightarrow> bakery \<Rightarrow> bakery option" where
  "Chef k s =
     (case kpc s k of
        Idle \<Rightarrow>
          (case my_dequeue (sofa s) of
             (None, q) \<Rightarrow> Some (s\<lparr>sofa := q\<rparr>)
           | (Some c, q) \<Rightarrow> Some (set_kpc k (Baking c) (s\<lparr>sofa := q\<rparr>)))
      | Baking c \<Rightarrow> Some (set_kpc k (Baked c) (s\<lparr>is_baking := (is_baking s)(c := True)\<rparr>))
      | Baked c \<Rightarrow>
          if cash_register s = None then Some (set_kpc k (At_Register c) (s\<lparr>cash_register := Some k\<rparr>)) else None
      | At_Register c \<Rightarrow> Some (set_kpc k (Collected c) (s\<lparr>cash_register := None\<rparr>))
      | Collected c \<Rightarrow> Some (set_kpc k (Paid c) (s\<lparr>is_paying := (is_paying s)(c := True)\<rparr>))
      | Paid c \<Rightarrow>
          (case my_dequeue (standing s) of
             (None, q) \<Rightarrow> Some (set_kpc k Idle (s\<lparr>standing := q\<rparr>))
           | (Some d, q) \<Rightarrow> Some (set_kpc k (Moving d) (s\<lparr>standing := q\<rparr>)))
      | Moving d \<Rightarrow> Some (set_kpc k Idle (s\<lparr>sofa := snd (my_enqueue (sofa s) d)\<rparr>)))"

inductive step :: "bakery \<Rightarrow> bakery \<Rightarrow> bool" where
  cus: "customer c s = Some t \<Longrightarrow> step s t"
| chef: "k < NUM_CHEFS \<Longrightarrow> Chef k s = Some t \<Longrightarrow> step s t"

section \<open>The queues implement a bounded queue\<close>

definition q_inv :: "queue \<Rightarrow> bool" where
  "q_inv q \<longleftrightarrow> length (qdata q) = QUEUE_MAX \<and> qhead q < QUEUE_MAX \<and> qcount q \<le> QUEUE_MAX \<and>
     qtail q = (qhead q + qcount q) mod QUEUE_MAX"

definition qlist :: "queue \<Rightarrow> nat list" where
  "qlist q = ring (qdata q) (qhead q) (qcount q)"

definition blank :: queue where
  "blank = my_init \<lparr>qdata = replicate QUEUE_MAX 0, qhead = 0, qtail = 0, qcount = 0\<rparr>"

lemma length_qlist [simp]: "length (qlist q) = qcount q"
  by (simp add: qlist_def)

lemma blank_ok [simp]: "q_inv blank" "qlist blank = []"
  by (simp_all add: q_inv_def qlist_def blank_def my_init_def QUEUE_MAX_def ring_def)

lemma my_enqueue_ok:
  assumes "q_inv q" "qcount q < QUEUE_MAX"
  shows "fst (my_enqueue q c) = 1" "q_inv (snd (my_enqueue q c))" "qlist (snd (my_enqueue q c)) = qlist q @ [c]"
  using assms ring_put [of "qcount q" "qdata q" "qhead q" c]
  by (auto simp: q_inv_def qlist_def my_enqueue_def mod_Suc_eq)

lemma my_enqueue_full: "q_inv q \<Longrightarrow> qcount q = QUEUE_MAX \<Longrightarrow> my_enqueue q c = (-1, q)"
  by (simp add: my_enqueue_def)

lemma my_dequeue_None: "q_inv q \<Longrightarrow> my_dequeue q = (None, q') \<longleftrightarrow> q' = q \<and> qlist q = []"
  by (auto simp: my_dequeue_def length_0_conv [symmetric] simp del: length_0_conv)

lemma my_dequeue_Some:
  assumes "q_inv q" "my_dequeue q = (Some c, q')"
  shows "q_inv q'" "qlist q = c # qlist q'"
proof -
  obtain k where k: "qcount q = Suc k" using assms(2) by (cases "qcount q") (auto simp: my_dequeue_def)
  have q: "q' = q\<lparr>qhead := (qhead q + 1) mod QUEUE_MAX, qcount := k\<rparr>" "c = qdata q ! qhead q"
    using assms(2) by (auto simp: my_dequeue_def k)
  show "q_inv q'" using assms(1) by (auto simp: q_inv_def q k mod_Suc_eq mod_add_left_eq QUEUE_MAX_def)
  have "qlist q = c # ring (qdata q) (Suc (qhead q)) k"
    using assms(1) by (simp add: qlist_def k ring_Suc q q_inv_def)
  also have "ring (qdata q) (Suc (qhead q)) k = qlist q'"
    using assms(1) ring_mod [of "qdata q" "Suc (qhead q)"] by (simp add: qlist_def q q_inv_def)
  finally show "qlist q = c # qlist q'" .
qed

definition bq_enq :: "nat \<Rightarrow> queue \<Rightarrow> queue option" where
  "bq_enq c q = (if fst (my_enqueue q c) = 1 then Some (snd (my_enqueue q c)) else None)"

definition bq_deq :: "queue \<Rightarrow> (nat \<times> queue) option" where
  "bq_deq q = (case my_dequeue q of (None, _) \<Rightarrow> None | (Some c, q') \<Rightarrow> Some (c, q'))"

interpretation bq: bounded_fifo blank bq_enq bq_deq q_inv qlist QUEUE_MAX
proof (unfold_locales, goal_cases)
  case 1
  show ?case by simp
next
  case (2 q x)
  then show ?case by (simp add: bq_enq_def my_enqueue_full)
next
  case (3 q x)
  then show ?case using my_enqueue_ok [of q x] by (simp add: bq_enq_def)
next
  case (4 q)
  then show ?case using my_dequeue_None [of q q] by (simp add: bq_deq_def)
next
  case (5 q x xs)
  then have "qcount q > 0" by (metis length_qlist length_Cons zero_less_Suc)
  then obtain c q' where "my_dequeue q = (Some c, q')" by (auto simp: my_dequeue_def)
  then show ?case using my_dequeue_Some [OF 5(1)] 5(2) by (auto simp: bq_deq_def)
next
  case (6 q)
  then show ?case by (simp add: q_inv_def)
qed

section \<open>Invariant of the threads\<close>

definition inside :: "bakery \<Rightarrow> nat set" where
  "inside s = {c. cpc s c \<in> {Entered, Sitting, Waiting, Eating, Leaving, Left_Seat}}"

fun in_hand :: "chef_pc \<Rightarrow> nat option" where
  "in_hand (Baking c) = Some c"
| "in_hand (Moving c) = Some c"
| "in_hand _ = None"

text \<open>How often a customer is queued or in the hands of a chef, before the cake is baked.\<close>

definition hand_count :: "(nat \<Rightarrow> chef_pc) \<Rightarrow> nat \<Rightarrow> nat" where
  "hand_count p c = (\<Sum>k<NUM_CHEFS. if in_hand (p k) = Some c then 1 else 0)"

definition copies :: "bakery \<Rightarrow> nat \<Rightarrow> nat" where
  "copies s c = count_list (qlist (standing s)) c + count_list (qlist (sofa s)) c + hand_count (kpc s) c"

fun after_bake :: "chef_pc \<Rightarrow> nat option" where
  "after_bake (Baked c) = Some c"
| "after_bake (At_Register c) = Some c"
| "after_bake (Collected c) = Some c"
| "after_bake (Paid c) = Some c"
| "after_bake _ = None"

definition queues_ok :: "bakery \<Rightarrow> bool" where
  "queues_ok s \<longleftrightarrow> q_inv (standing s) \<and> q_inv (sofa s) \<and> finite (inside s) \<and> card (inside s) + num_of_cus s = BAKERY_CAPACITY \<and>
     (\<forall>c. copies s c \<le> 1) \<and> (\<forall>c. 0 < copies s c \<longrightarrow> cpc s c = Waiting \<and> \<not> is_baking s c)"

definition service_ok :: "bakery \<Rightarrow> bool" where
  "service_ok s \<longleftrightarrow> (\<forall>c. cpc s c \<in> {Arriving, Entered, Sitting} \<longrightarrow> \<not> is_baking s c) \<and>
     (\<forall>k c. after_bake (kpc s k) = Some c \<longrightarrow> is_baking s c) \<and> (\<forall>c. is_paying s c \<longrightarrow> is_baking s c) \<and>
     (\<forall>c. cpc s c = Eating \<longrightarrow> is_baking s c) \<and> (\<forall>c. cpc s c \<in> {Leaving, Left_Seat, Gone} \<longrightarrow> is_paying s c)"

definition register_ok :: "bakery \<Rightarrow> bool" where
  "register_ok s \<longleftrightarrow> (\<forall>k. (\<exists>c. kpc s k = At_Register c) \<longleftrightarrow> cash_register s = Some k)"

lemma hand_count_upd:
  assumes "k < NUM_CHEFS"
  shows "hand_count (p(k := x)) c + (if in_hand (p k) = Some c then 1 else 0) = hand_count p c + (if in_hand x = Some c then 1 else 0)"
proof -
  have "hand_count q c = (\<Sum>j\<in>{..<NUM_CHEFS} - {k}. if in_hand (q j) = Some c then 1 else 0) + (if in_hand (q k) = Some c then 1 else 0)" for q
    unfolding hand_count_def using assms by (subst sum.remove [of _ k]) auto
  moreover have "(\<Sum>j\<in>{..<NUM_CHEFS} - {k}. if in_hand ((p(k := x)) j) = Some c then 1 else 0) =
      (\<Sum>j\<in>{..<NUM_CHEFS} - {k}. if in_hand (p j) = Some c then 1 else 0)" by (rule sum.cong) auto
  ultimately show ?thesis by (simp add: fun_upd_same)
qed

lemma hand_count_in: "k < NUM_CHEFS \<Longrightarrow> in_hand (p k) = Some c \<Longrightarrow> 0 < hand_count p c"
  unfolding hand_count_def by (rule sum_pos2 [of _ k]) auto

lemma count_list_distinct: "\<forall>d. count_list xs d \<le> 1 \<Longrightarrow> distinct xs"
proof (induction xs)
  case (Cons x xs)
  have "count_list xs x = 0" using Cons.prems [rule_format, of x] by simp
  moreover have "\<forall>d. count_list xs d \<le> 1"
  proof
    fix d
    show "count_list xs d \<le> 1" using Cons.prems [rule_format, of d] by (simp split: if_splits)
  qed
  ultimately show ?case using Cons.IH by (simp add: count_list_0_iff)
qed simp

lemma enqueue_room:
  assumes "queues_ok s" and "q = standing s \<or> q = sofa s" and "c \<in> inside s" and "c \<notin> set (qlist q)"
  shows "qcount q < QUEUE_MAX"
proof -
  have le: "count_list (qlist q) d \<le> copies s d" for d using assms(2) by (auto simp: copies_def)
  have "count_list (qlist q) d \<le> 1" for d using le [of d] assms(1) unfolding queues_ok_def by (meson le_trans)
  then have "distinct (qlist q)" by (simp add: count_list_distinct)
  moreover have "set (qlist q) \<subseteq> inside s"
  proof
    fix d
    assume "d \<in> set (qlist q)"
    then have "0 < copies s d" using le [of d] by (metis count_list_0_iff gr0I le_zero_eq)
    then show "d \<in> inside s" using assms(1) by (simp add: queues_ok_def inside_def)
  qed
  ultimately have "Suc (qcount q) = card (insert c (set (qlist q)))" "insert c (set (qlist q)) \<subseteq> inside s"
    using assms(3,4) by (auto simp: distinct_card)
  then have "Suc (qcount q) \<le> card (inside s)" using assms(1) card_mono [of "inside s"] by (simp add: queues_ok_def)
  then show ?thesis using assms(1) by (simp add: queues_ok_def QUEUE_MAX_def BAKERY_CAPACITY_def)
qed

lemma not_queued: "queues_ok s \<Longrightarrow> cpc s c \<noteq> Waiting \<Longrightarrow> c \<notin> set (qlist (standing s)) \<and> c \<notin> set (qlist (sofa s))"
  using count_list_0_iff [of "qlist (standing s)" c] count_list_0_iff [of "qlist (sofa s)" c]
  by (auto simp: queues_ok_def copies_def)

lemma in_hand_not_queued:
  assumes "queues_ok s" "k < NUM_CHEFS" "in_hand (kpc s k) = Some c"
  shows "c \<notin> set (qlist (standing s)) \<and> c \<notin> set (qlist (sofa s)) \<and> cpc s c = Waiting \<and> \<not> is_baking s c"
proof -
  have h: "0 < hand_count (kpc s) c" using hand_count_in assms(2,3) by blast
  have "copies s c \<le> 1" using assms(1) by (simp add: queues_ok_def)
  then have "count_list (qlist (standing s)) c = 0" "count_list (qlist (sofa s)) c = 0" using h by (auto simp: copies_def)
  moreover have "0 < copies s c" using h by (simp add: copies_def)
  ultimately show ?thesis using assms(1) by (simp add: queues_ok_def count_list_0_iff)
qed

lemma inside_upd:
  "inside (set_cpc c p s) = (if p \<in> {Entered, Sitting, Waiting, Eating, Leaving, Left_Seat} then insert c (inside s) else inside s - {c})"
  by (auto simp: inside_def set_cpc_def)

lemma set_cpc_frame [simp]:
  "standing (set_cpc c p s) = standing s" "sofa (set_cpc c p s) = sofa s" "num_of_cus (set_cpc c p s) = num_of_cus s"
  "num_of_seats (set_cpc c p s) = num_of_seats s" "cash_register (set_cpc c p s) = cash_register s"
  "is_baking (set_cpc c p s) = is_baking s" "is_paying (set_cpc c p s) = is_paying s" "kpc (set_cpc c p s) = kpc s"
  "cpc (set_cpc c p s) = (cpc s)(c := p)" "copies (set_cpc c p s) = copies s"
  by (simp_all add: set_cpc_def copies_def fun_eq_iff)

lemma set_kpc_frame [simp]:
  "standing (set_kpc c x s) = standing s" "sofa (set_kpc c x s) = sofa s" "num_of_cus (set_kpc c x s) = num_of_cus s"
  "num_of_seats (set_kpc c x s) = num_of_seats s" "cash_register (set_kpc c x s) = cash_register s"
  "is_baking (set_kpc c x s) = is_baking s" "is_paying (set_kpc c x s) = is_paying s" "kpc (set_kpc c x s) = (kpc s)(c := x)"
  "cpc (set_kpc c x s) = cpc s" "inside (set_kpc c x s) = inside s"
  by (simp_all add: set_kpc_def inside_def)

lemma field_frames [simp]:
  "inside (s\<lparr>num_of_cus := a\<rparr>) = inside s" "inside (s\<lparr>num_of_seats := b\<rparr>) = inside s" "inside (s\<lparr>standing := q\<rparr>) = inside s"
  "inside (s\<lparr>sofa := q\<rparr>) = inside s" "inside (s\<lparr>is_baking := f\<rparr>) = inside s" "inside (s\<lparr>is_paying := f\<rparr>) = inside s"
  "inside (s\<lparr>cash_register := r\<rparr>) = inside s" "copies (s\<lparr>num_of_cus := a\<rparr>) = copies s" "copies (s\<lparr>num_of_seats := b\<rparr>) = copies s"
  "copies (s\<lparr>is_baking := f\<rparr>) = copies s" "copies (s\<lparr>is_paying := f\<rparr>) = copies s" "copies (s\<lparr>cash_register := r\<rparr>) = copies s"
  by (simp_all add: inside_def copies_def fun_eq_iff)

lemma copies_standing: "qlist q = qlist (standing s) @ [c] \<Longrightarrow> copies (s\<lparr>standing := q\<rparr>) d = copies s d + (if d = c then 1 else 0)"
  and copies_sofa: "qlist q = qlist (sofa s) @ [c] \<Longrightarrow> copies (s\<lparr>sofa := q\<rparr>) d = copies s d + (if d = c then 1 else 0)"
  by (auto simp: copies_def)

lemma customer_queues:
  assumes q: "queues_ok s" and v: "service_ok s" and st: "customer c s = Some t"
  shows "queues_ok t"
proof -
  have w: "copies s c = 0" if "cpc s c \<noteq> Waiting" using q that by (auto simp: queues_ok_def)
  have fin: "finite (inside s)" and cap: "card (inside s) + num_of_cus s = BAKERY_CAPACITY" and qs: "q_inv (standing s)" "q_inv (sofa s)"
    using q by (simp_all add: queues_ok_def)
  have mem: "c \<in> inside s \<longleftrightarrow> cpc s c \<in> {Entered, Sitting, Waiting, Eating, Leaving, Left_Seat}" by (simp add: inside_def)
  show ?thesis
  proof (cases "cpc s c")
    case Arriving
    then show ?thesis using st q w fin cap mem
      by (auto simp: customer_def queues_ok_def inside_upd split: if_splits)
  next
    case Entered
    have room: "qcount (standing s) < QUEUE_MAX"
      using enqueue_room [OF q, of "standing s" c] not_queued [OF q, of c] Entered mem by simp
    note e = my_enqueue_ok [OF qs(1) room, of c]
    show ?thesis
    proof (cases "get_count (standing s) = 0 \<and> num_of_seats s > 0")
      case True
      then have "t = set_cpc c Sitting (s\<lparr>num_of_seats := num_of_seats s - 1\<rparr>)" using st Entered by (simp add: customer_def)
      then show ?thesis using q w Entered mem by (auto simp: queues_ok_def inside_upd insert_absorb)
    next
      case False
      then have t: "t = set_cpc c Waiting (s\<lparr>standing := snd (my_enqueue (standing s) c)\<rparr>)" using st Entered by (auto simp: customer_def)
      have "\<not> is_baking s c" using v Entered by (simp add: service_ok_def)
      then show ?thesis unfolding t
        using q w Entered mem e by (auto simp: queues_ok_def inside_upd insert_absorb copies_standing)
    qed
  next
    case Sitting
    have room: "qcount (sofa s) < QUEUE_MAX"
      using enqueue_room [OF q, of "sofa s" c] not_queued [OF q, of c] Sitting mem by simp
    note e = my_enqueue_ok [OF qs(2) room, of c]
    have t: "t = set_cpc c Waiting (s\<lparr>sofa := snd (my_enqueue (sofa s) c)\<rparr>)" using st Sitting by (auto simp: customer_def)
    have "\<not> is_baking s c" using v Sitting by (simp add: service_ok_def)
    then show ?thesis unfolding t
      using q w Sitting mem e by (auto simp: queues_ok_def inside_upd insert_absorb copies_sofa)
  next
    case Waiting
    then have "copies s c = 0" "t = set_cpc c Eating s" using q st by (auto simp: customer_def queues_ok_def split: if_splits)
    then show ?thesis using q Waiting mem by (auto simp: queues_ok_def inside_upd insert_absorb)
  next
    case Left_Seat
    then have "t = set_cpc c Gone (s\<lparr>num_of_cus := num_of_cus s + 1\<rparr>)" using st by (simp add: customer_def)
    moreover have "card (inside s) = Suc (card (inside s - {c}))" using card_Suc_Diff1 [OF fin] mem Left_Seat by simp
    ultimately show ?thesis using q w Left_Seat by (auto simp: queues_ok_def inside_upd)
  qed (use st q w mem in \<open>auto simp: customer_def queues_ok_def inside_upd insert_absorb split: if_splits\<close>)
qed

lemma copies_kpc:
  assumes "k < NUM_CHEFS"
  shows "copies (set_kpc k x s) d + (if in_hand (kpc s k) = Some d then 1 else 0) = copies s d + (if in_hand x = Some d then 1 else 0)"
  using hand_count_upd [OF assms, of "kpc s" x d] by (simp add: copies_def)

lemma copies_deq:
  "qlist (standing s) = c # qlist q \<Longrightarrow> copies s d = copies (s\<lparr>standing := q\<rparr>) d + (if c = d then 1 else 0)"
  "qlist (sofa s) = c # qlist q \<Longrightarrow> copies s d = copies (s\<lparr>sofa := q\<rparr>) d + (if c = d then 1 else 0)"
  by (auto simp: copies_def)

lemma queues_ok_copies:
  assumes "queues_ok s" "inside t = inside s" "num_of_cus t = num_of_cus s" "q_inv (standing t)" "q_inv (sofa t)" "cpc t = cpc s"
    and "\<And>d. copies t d \<le> copies s d" "\<And>d. is_baking t d \<Longrightarrow> \<not> is_baking s d \<Longrightarrow> copies t d = 0"
  shows "queues_ok t"
proof -
  have "copies t d \<le> 1" for d using assms(1,7) unfolding queues_ok_def by (meson le_trans)
  moreover have "cpc t d = Waiting \<and> \<not> is_baking t d" if "0 < copies t d" for d
  proof -
    have "0 < copies s d" using that assms(7) [of d] by simp
    then show ?thesis using assms(1,6) assms(8) [of d] that by (auto simp: queues_ok_def)
  qed
  ultimately show ?thesis using assms(1-5) by (simp add: queues_ok_def)
qed

lemma chef_queues:
  assumes q: "queues_ok s" and k: "k < NUM_CHEFS" and st: "Chef k s = Some t"
  shows "queues_ok t"
proof -
  have qs: "q_inv (standing s)" "q_inv (sofa s)" using q by (simp_all add: queues_ok_def)
  show ?thesis
  proof (cases "kpc s k")
    case Idle
    obtain r q' where d: "my_dequeue (sofa s) = (r, q')" by fastforce
    show ?thesis
    proof (cases r)
      case None
      then have "t = s" using st Idle d my_dequeue_None [OF qs(2)] by (auto simp: Chef_def)
      then show ?thesis using q by simp
    next
      case (Some c)
      note dq = my_dequeue_Some [OF qs(2) d [unfolded Some]]
      have t: "t = set_kpc k (Baking c) (s\<lparr>sofa := q'\<rparr>)" using st Idle d Some by (simp add: Chef_def)
      have "copies t e = copies s e" for e
        using copies_kpc [OF k, of "Baking c" "s\<lparr>sofa := q'\<rparr>" e] copies_deq(2) [OF dq(2), of e] by (simp add: t Idle split: if_splits)
      then show ?thesis using q qs dq(1) by (intro queues_ok_copies [OF q]) (simp_all add: t)
    qed
  next
    case (Baking c)
    have t: "t = set_kpc k (Baked c) (s\<lparr>is_baking := (is_baking s)(c := True)\<rparr>)" using st Baking by (simp add: Chef_def)
    have cp: "copies t e + (if c = e then 1 else 0) = copies s e" for e
      using copies_kpc [OF k, of "Baked c" "s\<lparr>is_baking := (is_baking s)(c := True)\<rparr>" e] by (simp add: t Baking)
    have "copies s c \<le> 1" using q by (simp add: queues_ok_def)
    then have "copies t c = 0" using cp [of c] by simp
    moreover have "copies t e \<le> copies s e" for e using cp [of e] by linarith
    ultimately show ?thesis using qs by (intro queues_ok_copies [OF q]) (auto simp: t split: if_splits)
  next
    case (Paid c)
    obtain r q' where d: "my_dequeue (standing s) = (r, q')" by fastforce
    show ?thesis
    proof (cases r)
      case None
      then have t: "t = set_kpc k Idle s" using st Paid d my_dequeue_None [OF qs(1)] by (auto simp: Chef_def)
      have "copies t e = copies s e" for e using copies_kpc [OF k, of Idle s e] by (simp add: t Paid)
      then show ?thesis using q qs by (intro queues_ok_copies [OF q]) (simp_all add: t)
    next
      case (Some e)
      note dq = my_dequeue_Some [OF qs(1) d [unfolded Some]]
      have t: "t = set_kpc k (Moving e) (s\<lparr>standing := q'\<rparr>)" using st Paid d Some by (simp add: Chef_def)
      have "copies t f = copies s f" for f
        using copies_kpc [OF k, of "Moving e" "s\<lparr>standing := q'\<rparr>" f] copies_deq(1) [OF dq(2), of f] by (simp add: t Paid split: if_splits)
      then show ?thesis using q qs dq(1) by (intro queues_ok_copies [OF q]) (simp_all add: t)
    qed
  next
    case (Moving c)
    have h: "c \<notin> set (qlist (sofa s))" "c \<in> inside s" using in_hand_not_queued [OF q k, of c] Moving by (auto simp: inside_def)
    note e = my_enqueue_ok [OF qs(2) enqueue_room [OF q _ h(2,1)], of c, simplified]
    have t: "t = set_kpc k Idle (s\<lparr>sofa := snd (my_enqueue (sofa s) c)\<rparr>)" using st Moving by (simp add: Chef_def)
    have "copies t f = copies s f" for f
      using copies_kpc [OF k, of Idle "s\<lparr>sofa := snd (my_enqueue (sofa s) c)\<rparr>" f] copies_sofa [OF e(3), of f]
      by (simp add: t Moving split: if_splits)
    then show ?thesis using q qs e(2) by (intro queues_ok_copies [OF q]) (simp_all add: t)
  next
    case (Baked c)
    have t: "t = set_kpc k (At_Register c) (s\<lparr>cash_register := Some k\<rparr>)" using st Baked by (simp add: Chef_def split: if_splits)
    have "copies t f = copies s f" for f
      using copies_kpc [OF k, of "At_Register c" "s\<lparr>cash_register := Some k\<rparr>" f] by (simp add: t Baked)
    then show ?thesis using q qs by (intro queues_ok_copies [OF q]) (simp_all add: t)
  next
    case (At_Register c)
    have t: "t = set_kpc k (Collected c) (s\<lparr>cash_register := None\<rparr>)" using st At_Register by (simp add: Chef_def)
    have "copies t f = copies s f" for f
      using copies_kpc [OF k, of "Collected c" "s\<lparr>cash_register := None\<rparr>" f] by (simp add: t At_Register)
    then show ?thesis using q qs by (intro queues_ok_copies [OF q]) (simp_all add: t)
  next
    case (Collected c)
    have t: "t = set_kpc k (Paid c) (s\<lparr>is_paying := (is_paying s)(c := True)\<rparr>)" using st Collected by (simp add: Chef_def)
    have "copies t f = copies s f" for f
      using copies_kpc [OF k, of "Paid c" "s\<lparr>is_paying := (is_paying s)(c := True)\<rparr>" f] by (simp add: t Collected)
    then show ?thesis using q qs by (intro queues_ok_copies [OF q]) (simp_all add: t)
  qed
qed

lemma customer_service: "service_ok s \<Longrightarrow> customer c s = Some t \<Longrightarrow> service_ok t"
  by (auto simp: service_ok_def customer_def split: cus_pc.splits if_splits)

lemma chef_service:
  assumes v: "service_ok s" and q: "queues_ok s" and k: "k < NUM_CHEFS" and st: "Chef k s = Some t"
  shows "service_ok t"
proof (cases "kpc s k")
  case (Baking c)
  have "cpc s c = Waiting" using in_hand_not_queued [OF q k, of c] Baking by simp
  then show ?thesis using v st Baking by (auto simp: service_ok_def Chef_def split: if_splits)
next
  case (Collected c)
  then have "is_baking s c" using v unfolding service_ok_def by (metis after_bake.simps(3))
  then show ?thesis using v st Collected by (auto simp: service_ok_def Chef_def split: if_splits)
next
  case (Baked c)
  then have "is_baking s c" using v unfolding service_ok_def by (metis after_bake.simps(1))
  then show ?thesis using v st Baked by (auto simp: service_ok_def Chef_def split: if_splits)
next
  case (At_Register c)
  then have "is_baking s c" using v unfolding service_ok_def by (metis after_bake.simps(2))
  then show ?thesis using v st At_Register by (auto simp: service_ok_def Chef_def split: if_splits)
qed (use v st in \<open>auto simp: service_ok_def Chef_def split: prod.splits option.splits if_splits\<close>)

lemma step_register: "step s t \<Longrightarrow> register_ok s \<Longrightarrow> register_ok t"
proof (induction rule: step.induct)
  case (cus c s t)
  then show ?case by (auto simp: register_ok_def customer_def split: cus_pc.splits if_splits)
next
  case (chef k s t)
  have r: "(\<exists>c. kpc s j = At_Register c) \<longleftrightarrow> cash_register s = Some j" for j using chef(3) by (simp add: register_ok_def)
  show ?case
  proof (cases "kpc s k")
    case (At_Register c)
    then have "cash_register s = Some k" using r by blast
    then have "kpc s j \<noteq> At_Register d" if "j \<noteq> k" for j d using r [of j] that by auto
    then show ?thesis using chef(2) At_Register by (auto simp: register_ok_def Chef_def split: if_splits)
  next
    case (Baked c)
    then have n: "cash_register s = None" and t: "t = set_kpc k (At_Register c) (s\<lparr>cash_register := Some k\<rparr>)"
      using chef(2) by (auto simp: Chef_def split: if_splits)
    have "kpc s j \<noteq> At_Register d" for j d using r [of j] n by auto
    then show ?thesis by (auto simp: register_ok_def t)
  qed (use chef(2) r [of k] in \<open>auto simp: register_ok_def Chef_def r split: prod.splits option.splits if_splits\<close>,
      (simp_all flip: r)?)
qed

definition bakery_inv :: "bakery \<Rightarrow> bool" where
  "bakery_inv s \<longleftrightarrow> queues_ok s \<and> service_ok s \<and> register_ok s"

lemma bakery_inv_init: "bakery_inv main_init"
proof -
  have m: "main_init = \<lparr>standing = blank, sofa = blank, num_of_cus = BAKERY_CAPACITY, num_of_seats = 4, cash_register = None,
      is_baking = (\<lambda>_. False), is_paying = (\<lambda>_. False), cpc = (\<lambda>_. Arriving), kpc = (\<lambda>_. Idle)\<rparr>"
    by (simp add: main_init_def blank_def Let_def)
  show ?thesis
    by (simp add: m bakery_inv_def queues_ok_def service_ok_def register_ok_def inside_def copies_def hand_count_def)
qed

lemma bakery_inv_step: "step s t \<Longrightarrow> bakery_inv s \<Longrightarrow> bakery_inv t"
proof -
  assume st: "step s t" and i: "bakery_inv s"
  then have q: "queues_ok s" and v: "service_ok s" and r: "register_ok t" using step_register by (auto simp: bakery_inv_def)
  from st show ?thesis
  proof cases
    case (cus c)
    then show ?thesis using customer_queues [OF q v] customer_service [OF v] r by (simp add: bakery_inv_def)
  next
    case (chef k)
    then show ?thesis using chef_queues [OF q] chef_service [OF v q] r by (simp add: bakery_inv_def)
  qed
qed

lemma reachable_inv: "step\<^sup>*\<^sup>* main_init s \<Longrightarrow> bakery_inv s"
  by (induction rule: rtranclp_induct) (auto intro: bakery_inv_init bakery_inv_step)

section \<open>Schedules\<close>

datatype thread = Cus nat | Chf nat

fun exec :: "thread \<Rightarrow> bakery \<Rightarrow> bakery option" where
  "exec (Cus c) s = customer c s"
| "exec (Chf k) s = (if k < NUM_CHEFS then Chef k s else None)"

fun run :: "thread list \<Rightarrow> bakery \<Rightarrow> bakery option" where
  "run [] s = Some s"
| "run (x # xs) s = Option.bind (exec x s) (run xs)"

lemma exec_step: "exec x s = Some t \<Longrightarrow> step s t"
  by (cases x) (auto intro: step.intros split: if_splits)

lemma run_steps: "run xs s = Some t \<Longrightarrow> step\<^sup>*\<^sup>* s t"
proof (induction xs arbitrary: s)
  case (Cons x xs)
  then show ?case by (auto simp: bind_eq_Some_conv dest!: exec_step intro: converse_rtranclp_into_rtranclp)
qed simp

text \<open>
  Four customers sit down, a fifth stands; one is served and leaves while the
  fifth takes the place, and a sixth arrives.
\<close>

definition busy_day :: "thread list" where
  "busy_day = concat (map (\<lambda>c. replicate 3 (Cus c)) [0, 1, 2, 3]) @ replicate 2 (Cus 4) @ replicate 7 (Chf 0) @
     replicate 4 (Cus 0) @ replicate 3 (Cus 5)"

lemma busy_day_run:
  "map_option (\<lambda>s. (qlist (sofa s), cpc s 0, cpc s 4, cpc s 5, num_of_seats s)) (run busy_day main_init) =
     Some ([1, 2, 3, 4, 5], Gone, Waiting, Waiting, 0)"
  by code_simp

section \<open>Properties\<close>

text \<open>
  C15: In every interleaving of the threads at most BAKERY_CAPACITY customers are inside,
  and no call of \<open>my_enqueue\<close> finds its queue full: ignoring its result, as the code
  does, never loses a customer.
\<close>

theorem bakery_never_overflows:
  assumes "step\<^sup>*\<^sup>* main_init s"
  shows "card (inside s) \<le> BAKERY_CAPACITY \<and>
    (cpc s c = Entered \<longrightarrow> fst (my_enqueue (standing s) c) = 1) \<and>
    (cpc s c = Sitting \<longrightarrow> fst (my_enqueue (sofa s) c) = 1) \<and>
    (k < NUM_CHEFS \<and> kpc s k = Moving d \<longrightarrow> fst (my_enqueue (sofa s) d) = 1)"
proof -
  have q: "queues_ok s" using reachable_inv [OF assms] by (simp add: bakery_inv_def)
  then have qs: "q_inv (standing s)" "q_inv (sofa s)" by (simp_all add: queues_ok_def)
  have "fst (my_enqueue (standing s) c) = 1" if "cpc s c = Entered"
    using my_enqueue_ok(1) [OF qs(1) enqueue_room [OF q, of _ c]] not_queued [OF q, of c] that by (simp add: inside_def)
  moreover have "fst (my_enqueue (sofa s) c) = 1" if "cpc s c = Sitting"
    using my_enqueue_ok(1) [OF qs(2) enqueue_room [OF q, of _ c]] not_queued [OF q, of c] that by (simp add: inside_def)
  moreover have "fst (my_enqueue (sofa s) d) = 1" if "k < NUM_CHEFS" "kpc s k = Moving d"
    using my_enqueue_ok(1) [OF qs(2) enqueue_room [OF q, of _ d]] in_hand_not_queued [OF q that(1), of d] that(2) by (simp add: inside_def)
  ultimately show ?thesis using q by (auto simp: queues_ok_def)
qed

theorem bakery_never_overflows_witness:
  "\<exists>s. step\<^sup>*\<^sup>* main_init s \<and> cpc s 7 = Entered \<and> fst (my_enqueue (standing s) 7) = 1"
proof -
  obtain s where s: "customer 7 main_init = Some s" "cpc s 7 = Entered"
    by (simp add: customer_def main_init_def Let_def BAKERY_CAPACITY_def set_cpc_def)
  then have r: "step\<^sup>*\<^sup>* main_init s" by (auto intro: step.intros)
  then show ?thesis using bakery_never_overflows [OF r, of 7] s(2) by blast
qed

text \<open>
  C30: One payment at a time: two chefs are never at the register together. A
  customer who has left was given a cake and has paid; the cake comes before the
  payment.
\<close>

theorem register_exclusive_and_order:
  assumes "step\<^sup>*\<^sup>* main_init s"
  shows "(kpc s j = At_Register a \<and> kpc s k = At_Register b \<longrightarrow> j = k) \<and>
    (cpc s c = Gone \<longrightarrow> is_baking s c \<and> is_paying s c) \<and> (is_paying s c \<longrightarrow> is_baking s c)"
proof -
  have i: "service_ok s" "register_ok s" using reachable_inv [OF assms] by (simp_all add: bakery_inv_def)
  have "j = k" if "kpc s j = At_Register a" "kpc s k = At_Register b" using i(2) that unfolding register_ok_def by (metis option.inject)
  then show ?thesis using i(1) by (auto simp: service_ok_def)
qed

theorem register_exclusive_and_order_witness:
  "\<exists>s. step\<^sup>*\<^sup>* main_init s \<and> cpc s 0 = Gone \<and> is_baking s 0 \<and> is_paying s 0"
proof -
  obtain s where s: "run busy_day main_init = Some s" "cpc s 0 = Gone" using busy_day_run by (auto simp: map_option_eq_Some)
  show ?thesis using register_exclusive_and_order [OF run_steps [OF s(1)], of 0 0 0 0 0] run_steps [OF s(1)] s(2) by auto
qed

text \<open>
  C32: The sofa can hold more customers than it has seats. A standing customer who takes
  the place of a leaving one never waits on \<open>num_of_seats\<close>, but the leaving customer
  posts it, so a new arrival sits down as a fifth.
\<close>

theorem sofa_overfull:
  "\<exists>s. step\<^sup>*\<^sup>* main_init s \<and> length (qlist (sofa s)) = SOFA_SEATS + 1"
proof -
  obtain s where s: "run busy_day main_init = Some s" "qlist (sofa s) = [1, 2, 3, 4, 5]"
    using busy_day_run by (auto simp: map_option_eq_Some)
  have "length (qlist (sofa s)) = SOFA_SEATS + 1" unfolding s(2) by (simp add: SOFA_SEATS_def)
  then show ?thesis using run_steps [OF s(1)] by blast
qed

text \<open>
  C31: The queues serve in order of arrival: from an empty queue, up to QUEUE_MAX calls of
  \<open>my_enqueue\<close> succeed, and as many calls of \<open>my_dequeue\<close> return the same customers in
  the same order, wherever in the ring the queue starts.
\<close>

theorem bakery_queue_fifo:
  assumes "q_inv q" and "qcount q = 0" and "length cs \<le> QUEUE_MAX"
  shows "\<exists>q1 q2. bq.enq_all cs q = Some q1 \<and> bq.deq_all (length cs) q1 = Some (cs, q2) \<and> qcount q2 = 0"
proof -
  have "qlist q = []" using assms(2) by (simp flip: length_0_conv)
  then obtain q1 q2 where "bq.enq_all cs q = Some q1" "bq.deq_all (length cs) q1 = Some (cs, q2)" "qlist q2 = []"
    using bq.fifo_order [OF assms(1) _ assms(3)] by blast
  then show ?thesis by (metis length_qlist list.size(3))
qed

theorem bakery_queue_fifo_witness:
  "\<exists>q1 q2. bq.enq_all [8, 9, 7] blank = Some q1 \<and> bq.deq_all 3 q1 = Some ([8, 9, 7], q2)"
proof -
  have "qcount blank = 0" "length [8, 9, 7 :: nat] \<le> QUEUE_MAX" by (simp_all add: blank_def my_init_def QUEUE_MAX_def)
  then have "\<exists>q1 q2. bq.enq_all [8, 9, 7] blank = Some q1 \<and> bq.deq_all (length [8, 9, 7 :: nat]) q1 = Some ([8, 9, 7], q2) \<and> qcount q2 = 0"
    by (rule bakery_queue_fifo [OF blank_ok(1)])
  moreover have "length [8, 9, 7 :: nat] = 3" by simp
  ultimately show ?thesis by (simp only:) blast
qed

end
