(* ===== verification/Spinlock.thy ===== *)
theory Spinlock
  imports Prelude
begin

text \<open>
  kernel/spinlock.c: the nesting of interrupt-disabling and the spin lock, with the
  CPUs as threads whose atomic steps interleave. The spinning loop of \<open>acquire\<close>
  is a step that may be repeated; fences have no effect in this model, where
  the steps are sequentially consistent.
\<close>

section \<open>Interrupts\<close>

record cpu =
  noff :: int
  intena :: bool
  intr :: bool

definition push_off :: "cpu \<Rightarrow> cpu" where
  "push_off c =
     (let old = intr c; c = c\<lparr>intr := False\<rparr>;
          c = (if noff c = 0 then c\<lparr>intena := old\<rparr> else c)
      in c\<lparr>noff := noff c + 1\<rparr>)"

definition pop_off :: "cpu \<Rightarrow> string + cpu" where
  "pop_off c =
     (if intr c then Inl ''pop_off - interruptible''
      else if noff c < 1 then Inl ''pop_off''
      else let c = c\<lparr>noff := noff c - 1\<rparr> in
        Inr (if noff c = 0 \<and> intena c then c\<lparr>intr := True\<rparr> else c))"

section \<open>The lock\<close>

record spinlock =
  slocked :: bool
  scpu :: "nat option"

definition initlock :: spinlock where
  "initlock = \<lparr>slocked = False, scpu = None\<rparr>"

definition holding :: "nat \<Rightarrow> spinlock \<Rightarrow> bool" where
  "holding i lk \<longleftrightarrow> slocked lk \<and> scpu lk = Some i"

text \<open>
  Where a CPU is: outside, spinning in \<open>acquire\<close>, having won the swap, in the critical
  section, having cleared \<open>lk->cpu\<close> in \<open>release\<close>, or stopped by a panic.
\<close>

datatype lock_pc = Outside | Spinning | Won | Critical | Clearing | Stopped string

record smp =
  cpus :: "nat \<Rightarrow> cpu"
  lk :: spinlock
  lpc :: "nat \<Rightarrow> lock_pc"

definition goto :: "nat \<Rightarrow> lock_pc \<Rightarrow> smp \<Rightarrow> smp" where
  "goto i p s = s\<lparr>lpc := (lpc s)(i := p)\<rparr>"

definition acquire_step :: "nat \<Rightarrow> smp \<Rightarrow> smp option" where
  "acquire_step i s =
     (case lpc s i of
        Outside \<Rightarrow>
          let s = s\<lparr>cpus := (cpus s)(i := push_off (cpus s i))\<rparr> in
          if holding i (lk s) then Some (goto i (Stopped ''acquire'') s) else Some (goto i Spinning s)
      | Spinning \<Rightarrow>
          if slocked (lk s) then Some s else Some (goto i Won (s\<lparr>lk := (lk s)\<lparr>slocked := True\<rparr>\<rparr>))
      | Won \<Rightarrow> Some (goto i Critical (s\<lparr>lk := (lk s)\<lparr>scpu := Some i\<rparr>\<rparr>))
      | _ \<Rightarrow> None)"

definition release_step :: "nat \<Rightarrow> smp \<Rightarrow> smp option" where
  "release_step i s =
     (case lpc s i of
        Critical \<Rightarrow>
          if \<not> holding i (lk s) then Some (goto i (Stopped ''release'') s)
          else Some (goto i Clearing (s\<lparr>lk := (lk s)\<lparr>scpu := None\<rparr>\<rparr>))
      | Clearing \<Rightarrow>
          let s = s\<lparr>lk := (lk s)\<lparr>slocked := False\<rparr>\<rparr> in
          (case pop_off (cpus s i) of
             Inl m \<Rightarrow> Some (goto i (Stopped m) s)
           | Inr c \<Rightarrow> Some (goto i Outside (s\<lparr>cpus := (cpus s)(i := c)\<rparr>)))
      | _ \<Rightarrow> None)"

inductive smp_step :: "smp \<Rightarrow> smp \<Rightarrow> bool" where
  acq: "acquire_step i s = Some t \<Longrightarrow> smp_step s t"
| rel: "release_step i s = Some t \<Longrightarrow> smp_step s t"

definition smp_init :: "(nat \<Rightarrow> cpu) \<Rightarrow> smp" where
  "smp_init c = \<lparr>cpus = c, lk = initlock, lpc = \<lambda>_. Outside\<rparr>"

section \<open>Invariant\<close>

definition owns :: "lock_pc \<Rightarrow> bool" where
  "owns p \<longleftrightarrow> p \<in> {Won, Critical, Clearing}"

definition cpu_ok :: "lock_pc \<Rightarrow> cpu \<Rightarrow> bool" where
  "cpu_ok p c \<longleftrightarrow> 0 \<le> noff c \<and> (0 < noff c \<longrightarrow> \<not> intr c) \<and> (p \<noteq> Outside \<longrightarrow> 0 < noff c)"

definition lock_inv :: "smp \<Rightarrow> bool" where
  "lock_inv s \<longleftrightarrow> (\<forall>i. cpu_ok (lpc s i) (cpus s i)) \<and> (\<forall>i m. lpc s i \<noteq> Stopped m) \<and>
     (\<forall>i. owns (lpc s i) \<longrightarrow> slocked (lk s)) \<and> (\<forall>i j. owns (lpc s i) \<and> owns (lpc s j) \<longrightarrow> i = j) \<and>
     (\<forall>i. lpc s i = Critical \<longleftrightarrow> scpu (lk s) = Some i)"

lemma push_off_ok: "cpu_ok p c \<Longrightarrow> cpu_ok q (push_off c)"
  by (auto simp: cpu_ok_def push_off_def Let_def)

lemma pop_off_ok: "cpu_ok Clearing c \<Longrightarrow> \<exists>c'. pop_off c = Inr c' \<and> cpu_ok Outside c'"
  by (auto simp: cpu_ok_def pop_off_def Let_def)

lemma critical_iff: "lock_inv s \<Longrightarrow> lpc s i = Critical \<longleftrightarrow> scpu (lk s) = Some i"
  by (simp add: lock_inv_def)

lemma owns_unique: "lock_inv s \<Longrightarrow> owns (lpc s i) \<Longrightarrow> owns (lpc s j) \<Longrightarrow> i = j"
  unfolding lock_inv_def by blast

lemma inside_noff: "lock_inv s \<Longrightarrow> lpc s i \<noteq> Outside \<Longrightarrow> 0 < noff (cpus s i)"
  by (simp add: lock_inv_def cpu_ok_def)

lemma acquire_inv:
  assumes inv: "lock_inv s" and st: "acquire_step i s = Some t"
  shows "lock_inv t"
proof (cases "lpc s i")
  case Outside
  have c: "cpu_ok q (push_off (cpus s i))" for q using inv push_off_ok by (auto simp: lock_inv_def)
  have sc: "scpu (lk s) \<noteq> Some i" using critical_iff [OF inv, of i] Outside by simp
  then have "t = goto i Spinning (s\<lparr>cpus := (cpus s)(i := push_off (cpus s i))\<rparr>)"
    using st Outside by (auto simp: acquire_step_def Let_def holding_def)
  then show ?thesis using inv c sc Outside by (auto simp: lock_inv_def goto_def owns_def)
next
  case Spinning
  have sc: "scpu (lk s) \<noteq> Some i" using critical_iff [OF inv, of i] Spinning by simp
  show ?thesis
  proof (cases "slocked (lk s)")
    case True
    then show ?thesis using st inv Spinning by (simp add: acquire_step_def)
  next
    case False
    then have "\<not> owns (lpc s j)" for j using inv by (auto simp: lock_inv_def)
    moreover have "t = goto i Won (s\<lparr>lk := (lk s)\<lparr>slocked := True\<rparr>\<rparr>)" using st Spinning False by (simp add: acquire_step_def)
    ultimately show ?thesis using inv Spinning by (auto simp: lock_inv_def goto_def owns_def cpu_ok_def)
  qed
next
  case Won
  have "t = goto i Critical (s\<lparr>lk := (lk s)\<lparr>scpu := Some i\<rparr>\<rparr>)" using st Won by (simp add: acquire_step_def)
  moreover have "lpc s j \<noteq> Critical" for j using owns_unique [OF inv, of i j] Won by (auto simp: owns_def)
  ultimately show ?thesis using inv Won by (auto simp: lock_inv_def goto_def owns_def cpu_ok_def)
qed (use st in \<open>auto simp: acquire_step_def\<close>)

lemma release_inv:
  assumes inv: "lock_inv s" and st: "release_step i s = Some t"
  shows "lock_inv t"
proof (cases "lpc s i")
  case Critical
  then have "holding i (lk s)" using inv by (auto simp: lock_inv_def holding_def owns_def)
  then have "t = goto i Clearing (s\<lparr>lk := (lk s)\<lparr>scpu := None\<rparr>\<rparr>)" using st Critical by (simp add: release_step_def)
  moreover have "lpc s j \<noteq> Critical" if "j \<noteq> i" for j using owns_unique [OF inv, of i j] Critical that by (auto simp: owns_def)
  moreover have "0 < noff (cpus s i)" using inside_noff [OF inv, of i] Critical by simp
  ultimately show ?thesis using inv Critical by (auto simp: lock_inv_def goto_def owns_def cpu_ok_def)
next
  case Clearing
  then have "cpu_ok Clearing (cpus s i)" using inv unfolding lock_inv_def by metis
  then obtain c where c: "pop_off (cpus s i) = Inr c" "cpu_ok Outside c" using pop_off_ok by blast
  have no: "\<not> owns (lpc s j)" if "j \<noteq> i" for j using owns_unique [OF inv, of i j] Clearing that by (auto simp: owns_def)
  have "lpc s j \<noteq> Critical" for j using no [of j] Clearing by (cases "j = i") (auto simp: owns_def)
  then have ns: "scpu (lk s) \<noteq> Some j" "lpc s j \<noteq> Critical" for j using critical_iff [OF inv, of j] by auto
  have t: "t = goto i Outside (s\<lparr>lk := (lk s)\<lparr>slocked := False\<rparr>, cpus := (cpus s)(i := c)\<rparr>)"
    using st Clearing c(1) by (simp add: release_step_def)
  have A: "cpu_ok (lpc s j) (cpus s j)" "lpc s j \<noteq> Stopped m" for j m using inv by (simp_all add: lock_inv_def)
  have o: "\<not> owns Outside" by (simp add: owns_def)
  show ?thesis unfolding lock_inv_def t goto_def by (simp add: A c(2) no ns o)
qed (use st in \<open>auto simp: release_step_def\<close>)

lemma lock_inv_step: "smp_step s t \<Longrightarrow> lock_inv s \<Longrightarrow> lock_inv t"
  by (induction rule: smp_step.induct) (auto intro: acquire_inv release_inv)

section \<open>Properties\<close>

text \<open>
  C16: Mutual exclusion. From a released lock, in every interleaving of the CPUs, at most
  one is between winning the swap and releasing; interrupts are off on every CPU
  that holds or waits for the lock; and neither \<open>acquire\<close>, \<open>release\<close> nor \<open>pop_off\<close> panics.
\<close>

theorem spinlock_mutual_exclusion:
  assumes "smp_step\<^sup>*\<^sup>* (smp_init c) s" and "\<And>i. noff (c i) = 0"
  shows "(owns (lpc s i) \<and> owns (lpc s j) \<longrightarrow> i = j) \<and> (lpc s i \<noteq> Outside \<longrightarrow> \<not> intr (cpus s i)) \<and>
    (lpc s i = Critical \<longrightarrow> holding i (lk s)) \<and> lpc s i \<noteq> Stopped m"
proof -
  have "lock_inv (smp_init c)" using assms(2) by (simp add: lock_inv_def smp_init_def cpu_ok_def owns_def initlock_def)
  with assms(1) have "lock_inv s" by (induction rule: rtranclp_induct) (auto intro: lock_inv_step)
  then show ?thesis by (auto simp: lock_inv_def cpu_ok_def holding_def owns_def)
qed

theorem spinlock_mutual_exclusion_witness:
  "\<exists>s. smp_step\<^sup>*\<^sup>* (smp_init (\<lambda>_. \<lparr>noff = 0, intena = False, intr = True\<rparr>)) s \<and> lpc s 3 = Critical \<and> holding 3 (lk s)"
proof -
  let ?c = "\<lambda>_::nat. \<lparr>noff = 0, intena = False, intr = True\<rparr>"
  have "Option.bind (Option.bind (acquire_step 3 (smp_init ?c)) (acquire_step 3)) (acquire_step 3) \<noteq> None \<and>
      (\<forall>s. Option.bind (Option.bind (acquire_step 3 (smp_init ?c)) (acquire_step 3)) (acquire_step 3) = Some s \<longrightarrow> lpc s 3 = Critical)"
    by (simp add: smp_init_def acquire_step_def Let_def goto_def initlock_def holding_def)
  then obtain s t u where st: "acquire_step 3 (smp_init ?c) = Some s" "acquire_step 3 s = Some t" "acquire_step 3 t = Some u" "lpc u 3 = Critical"
    by (auto simp: bind_eq_Some_conv split: bind_splits)
  then have r: "smp_step\<^sup>*\<^sup>* (smp_init ?c) u" by (meson smp_step.acq converse_rtranclp_into_rtranclp rtranclp.rtrancl_refl)
  then show ?thesis using spinlock_mutual_exclusion [OF r, of 3] st(4) by auto
qed

fun pop_offs :: "nat \<Rightarrow> cpu \<Rightarrow> string + cpu" where
  "pop_offs 0 c = Inr c"
| "pop_offs (Suc k) c = (case pop_off c of Inl m \<Rightarrow> Inl m | Inr c \<Rightarrow> pop_offs k c)"

lemma push_offs:
  assumes "0 \<le> noff c" "0 < noff c \<longrightarrow> \<not> intr c"
  shows "(push_off ^^ Suc k) c =
    c\<lparr>noff := noff c + int (Suc k), intr := False, intena := (if noff c = 0 then intr c else intena c)\<rparr>"
proof (induction k)
  case 0
  then show ?case using assms by (simp add: push_off_def Let_def)
next
  case (Suc k)
  then show ?case using assms(1) by (simp add: push_off_def Let_def)
qed

lemma pop_offs_partial:
  "\<not> intr c \<Longrightarrow> noff c = a + int (Suc k) \<Longrightarrow> 0 \<le> a \<Longrightarrow>
    pop_offs (Suc k) c = Inr (c\<lparr>noff := a, intr := (a = 0 \<and> intena c)\<rparr>)"
proof (induction k arbitrary: c)
  case 0
  then show ?case by (auto simp: pop_off_def Let_def)
next
  case (Suc k)
  have "pop_off c = Inr (c\<lparr>noff := a + int (Suc k)\<rparr>)" using Suc.prems by (simp add: pop_off_def Let_def)
  then show ?case using Suc.IH [of "c\<lparr>noff := a + int (Suc k)\<rparr>"] Suc.prems by simp
qed

text \<open>
  C33: \<open>push_off\<close> and \<open>pop_off\<close> are matched: after any number of nested calls and as many
  returns, the interrupt state and the nesting depth are what they were before.
\<close>

theorem push_pop_matched:
  assumes "0 \<le> noff c" and "0 < noff c \<longrightarrow> \<not> intr c"
  shows "\<exists>c'. pop_offs k ((push_off ^^ k) c) = Inr c' \<and> noff c' = noff c \<and> intr c' = intr c"
proof (cases k)
  case (Suc j)
  show ?thesis using assms unfolding Suc push_offs [OF assms] by (subst pop_offs_partial [where a = "noff c"]) auto
qed simp

theorem push_pop_matched_witness:
  "\<exists>c'. pop_offs 3 ((push_off ^^ 3) \<lparr>noff = 0, intena = False, intr = True\<rparr>) = Inr c' \<and> noff c' = 0 \<and> intr c'"
  using push_pop_matched [of "\<lparr>noff = 0, intena = False, intr = True\<rparr>" 3] by simp

end
