(* ===== verification/Proc_State.thy ===== *)
theory Proc_State
  imports Fs Vm
begin

text \<open>
  The state of the whole kernel: \<open>struct proc\<close> and the process table
  (kernel/proc.h), \<open>struct file\<close> and the file table (kernel/file.h), \<open>struct pipe\<close>
  (kernel/pipe.c), and the ELF headers (kernel/elf.h). A pointer to a process or
  to a file is an index of its table; a pipe is found at the address of its page.
\<close>

definition NPROC :: nat where "NPROC = 64"
definition NOFILE :: nat where "NOFILE = 16"
definition NFILE :: nat where "NFILE = 100"
definition NDEV :: int where "NDEV = 10"
definition MAXARG :: nat where "MAXARG = 32"
definition MAXPATH :: nat where "MAXPATH = 128"
definition USERSTACK :: u64 where "USERSTACK = 5"
definition MAX_RESIDENT_PAGES :: int where "MAX_RESIDENT_PAGES = 35000"
definition MAX_SWAP_PAGES :: nat where "MAX_SWAP_PAGES = 60"
definition PIPESIZE :: nat where "PIPESIZE = 512"

section \<open>ELF headers\<close>

definition ELF_MAGIC :: u32 where "ELF_MAGIC = 0x464C457F"
definition ELF_PROG_LOAD :: u32 where "ELF_PROG_LOAD = 1"
definition ELF_PROG_FLAG_EXEC :: u32 where "ELF_PROG_FLAG_EXEC = 1"
definition ELF_PROG_FLAG_WRITE :: u32 where "ELF_PROG_FLAG_WRITE = 2"
definition ELF_PROG_FLAG_READ :: u32 where "ELF_PROG_FLAG_READ = 4"

definition get64 :: "u8 list \<Rightarrow> nat \<Rightarrow> u64" where
  "get64 bs off = le_word (blk_get bs off 8)"

record elfhdr =
  emagic :: u32
  entry :: u64
  phoff :: u64
  phnum :: u16

record proghdr =
  ptype :: u32
  pflags :: u32
  poff :: u64
  vaddr :: u64
  filesz :: u64
  memsz :: u64

text \<open>The fields that the kernel reads, at their offsets; the headers take 64 and 56 bytes.\<close>

definition get_elfhdr :: "u8 list \<Rightarrow> elfhdr" where
  "get_elfhdr bs = \<lparr>emagic = get32 bs 0, entry = get64 bs 24, phoff = get64 bs 32, phnum = get16 bs 56\<rparr>"

definition get_proghdr :: "u8 list \<Rightarrow> proghdr" where
  "get_proghdr bs = \<lparr>ptype = get32 bs 0, pflags = get32 bs 4, poff = get64 bs 8, vaddr = get64 bs 16,
     filesz = get64 bs 32, memsz = get64 bs 40\<rparr>"

section \<open>Processes\<close>

datatype procstate = UNUSED | USED | SLEEPING | RUNNABLE | RUNNING | ZOMBIE

record resident_page =
  rva :: u64
  rseq :: int
  rdirty :: bool

record swapped_page =
  sva :: u64
  sslot :: nat

text \<open>
  The arrays of the pager are functions on their indices, next to the counters
  that say how much of them is in use. \<open>trapframe\<close> is the physical address of the
  page that holds the saved registers, \<open>context_regs\<close> the registers \<open>ra\<close>, \<open>sp\<close>,
  \<open>s0\<close> to \<open>s11\<close> that \<open>swtch\<close> restores, and \<open>phdrs\<close> the bytes of the saved program headers.
\<close>

record proc =
  pstate :: procstate
  pchan :: chan
  killed_flag :: bool
  xstate :: int
  pid :: int
  parent :: "nat option"
  kstack :: u64
  psz :: u64
  pagetable :: u64
  trapframe :: u64
  context_regs :: "u64 list"
  ofile :: "nat option list"
  cwd :: "nat option"
  pname :: "u8 list"
  heap_start :: u64
  exec_ip :: "nat option"
  swap_file :: "nat option"
  swap_slots :: "bool list"
  resident_pages :: "nat \<Rightarrow> resident_page"
  swapped_pages :: "nat \<Rightarrow> swapped_page"
  num_resident :: int
  next_fifo_seq :: int
  num_swapped :: int
  swap_path :: "u8 list"
  text_start :: int
  text_end :: int
  data_start :: int
  data_end :: int
  stack_top :: int
  num_phdrs :: int
  phdrs :: "u8 list"

section \<open>Files and pipes\<close>

datatype ftype = FD_NONE | FD_PIPE | FD_INODE | FD_DEVICE

record kfile =
  ftyp :: ftype
  fref :: int
  readable :: bool
  writable :: bool
  fpipe :: u64
  fip :: nat
  foff :: u32
  fmajor :: u16

record pipe =
  pdata :: "u8 list"
  nread :: u32
  nwrite :: u32
  readopen :: bool
  writeopen :: bool

text \<open>
  The kernel: \<open>cur\<close> is the index of the process that runs (\<open>myproc()\<close>), \<open>garbage\<close> the
  unspecified contents of an uninitialised local buffer, \<open>trampoline\<close> the address
  of the trampoline page, \<open>etext\<close> the end of the kernel's code, \<open>sym\<close> the link-time address of
  a kernel symbol, \<open>first_fork\<close> the static variable of \<open>forkret\<close>, \<open>hartid\<close> to \<open>time\<close> the registers
  of the CPU that the kernel uses, and \<open>tlog\<close> the lines the pager prints, (and other messages) as events.
\<close>

datatype event =
  RESIDENT int u64 int | MEMFULL int | VICTIM int u64 int | EVICT int u64 bool | SWAPOUT int u64 nat | SWAPFULL int
| SWAPCLEANUP int int | INITMAP int u64 u64 u64 u64 u64 u64 | STACKARG u64 u64 | NAMEIFAIL | UNEXPECTED u64 int u64 u64
| UNKNOWNCALL int "u8 list" int | BADIRQ int | MESSAGE string | PAGEFAULT int u64 string string | SWAPIN int u64 nat | LOADEXEC int u64 | ALLOC int u64 | KILLED int u64 string

record kst = fsst +
  procs :: "proc list"
  cur :: nat
  initproc :: nat
  nextpid :: int
  ftable :: "kfile list"
  pipes :: "u64 \<Rightarrow> pipe"
  ticks :: u32
  trampoline :: u64
  etext :: u64
  sym :: "string \<Rightarrow> u64"
  garbage :: "nat \<Rightarrow> u8"
  first_fork :: bool
  hartid :: nat
  scause :: u64
  stval :: u64
  sepc :: u64
  sstatus :: u64
  stvec :: u64
  satp :: u64
  stimecmp :: u64
  time :: u64
  tlog :: "event list"

definition myproc :: "'a kst_scheme \<Rightarrow> proc" where
  "myproc s = procs s ! cur s"

definition upd_proc :: "nat \<Rightarrow> (proc \<Rightarrow> proc) \<Rightarrow> 'a kst_scheme \<Rightarrow> 'a kst_scheme" where
  "upd_proc k f s = s\<lparr>procs := (procs s)[k := f (procs s ! k)]\<rparr>"

definition upd_cur :: "(proc \<Rightarrow> proc) \<Rightarrow> 'a kst_scheme \<Rightarrow> 'a kst_scheme" where
  "upd_cur f s = upd_proc (cur s) f s"

definition upd_file :: "nat \<Rightarrow> (kfile \<Rightarrow> kfile) \<Rightarrow> 'a kst_scheme \<Rightarrow> 'a kst_scheme" where
  "upd_file f g s = s\<lparr>ftable := (ftable s)[f := g (ftable s ! f)]\<rparr>"

definition upd_pipe :: "u64 \<Rightarrow> (pipe \<Rightarrow> pipe) \<Rightarrow> 'a kst_scheme \<Rightarrow> 'a kst_scheme" where
  "upd_pipe pi f s = s\<lparr>pipes := (pipes s)(pi := f (pipes s pi))\<rparr>"

definition log_event :: "event \<Rightarrow> 'a kst_scheme \<Rightarrow> 'a kst_scheme" where
  "log_event e s = s\<lparr>tlog := tlog s @ [e]\<rparr>"

definition local_buf :: "nat \<Rightarrow> 'a kst_scheme \<Rightarrow> u8 list" where
  "local_buf k s = map (garbage s) [0..<k]"

text \<open>The saved registers, at the offsets of \<open>struct trapframe\<close>.\<close>

definition TF_kernel_satp :: u64 where "TF_kernel_satp = 0"
definition TF_kernel_sp :: u64 where "TF_kernel_sp = 8"
definition TF_kernel_trap :: u64 where "TF_kernel_trap = 16"
definition TF_epc :: u64 where "TF_epc = 24"
definition TF_kernel_hartid :: u64 where "TF_kernel_hartid = 32"
definition TF_sp :: u64 where "TF_sp = 48"
definition TF_a0 :: u64 where "TF_a0 = 112"
definition TF_a1 :: u64 where "TF_a1 = 120"
definition TF_a2 :: u64 where "TF_a2 = 128"
definition TF_a3 :: u64 where "TF_a3 = 136"
definition TF_a4 :: u64 where "TF_a4 = 144"
definition TF_a5 :: u64 where "TF_a5 = 152"
definition TF_a7 :: u64 where "TF_a7 = 168"

definition tf_get :: "nat \<Rightarrow> u64 \<Rightarrow> 'a kst_scheme \<Rightarrow> u64" where
  "tf_get k r s = load64 (phys s) (trapframe (procs s ! k) + r)"

definition tf_put :: "nat \<Rightarrow> u64 \<Rightarrow> u64 \<Rightarrow> 'a kst_scheme \<Rightarrow> 'a kst_scheme" where
  "tf_put k r v s = s\<lparr>phys := store64 (phys s) (trapframe (procs s ! k) + r) v\<rparr>"

text \<open>A path is resolved from the current directory unless it starts with a slash.\<close>

definition from_cwd :: "u8 list \<Rightarrow> (nat \<Rightarrow> 'a kst_scheme \<Rightarrow> ('b, 'a kst_scheme) outcome) \<Rightarrow> 'a kst_scheme \<Rightarrow> ('b, 'a kst_scheme) outcome" where
  "from_cwd path f s =
     (case cwd (myproc s) of
        Some c \<Rightarrow> f c s
      | None \<Rightarrow> if path \<noteq> [] \<and> hd path = slash then f 0 s else Panic ''undefined: cwd'')"

end
