(* ===== verification/Sched.thy ===== *)
theory Sched
  imports Proc_State
begin

text \<open>
  The process states of kernel/proc.c: initialisation, process numbers, sleeping and
  waking, killing, yielding and the choice of the scheduler. The context switch
  itself is the change of \<open>cur\<close>; a process that gives up the CPU is in the
  outcome \<open>Sleep\<close>.
\<close>

section \<open>Operations\<close>

definition procinit :: "'a kst_scheme \<Rightarrow> 'a kst_scheme" where
  "procinit s = s\<lparr>procs := map (\<lambda>k. (procs s ! k)\<lparr>pstate := UNUSED, kstack := KSTACK (of_nat k)\<rparr>) [0..<NPROC]\<rparr>"

definition allocpid :: "'a kst_scheme \<Rightarrow> int \<times> 'a kst_scheme" where
  "allocpid s = (nextpid s, s\<lparr>nextpid := nextpid s + 1\<rparr>)"

definition setkilled :: "nat \<Rightarrow> 'a kst_scheme \<Rightarrow> 'a kst_scheme" where
  "setkilled k s = upd_proc k (\<lambda>p. p\<lparr>killed_flag := True\<rparr>) s"

definition killed :: "nat \<Rightarrow> 'a kst_scheme \<Rightarrow> bool" where
  "killed k s = killed_flag (procs s ! k)"

definition wake_one :: "chan \<Rightarrow> proc \<Rightarrow> proc" where
  "wake_one ch p = (if pstate p = SLEEPING \<and> pchan p = ch then p\<lparr>pstate := RUNNABLE\<rparr> else p)"

definition wakeup :: "chan \<Rightarrow> 'a kst_scheme \<Rightarrow> 'a kst_scheme" where
  "wakeup ch s = s\<lparr>procs := map (\<lambda>k. if k \<noteq> cur s then wake_one ch (procs s ! k) else procs s ! k) [0..<length (procs s)]\<rparr>"

text \<open>\<open>sleep\<close> up to the call of \<open>sched\<close>, and what it does after it is scheduled again.\<close>

definition sleeping :: "chan \<Rightarrow> 'a kst_scheme \<Rightarrow> 'a kst_scheme" where
  "sleeping ch s = upd_cur (\<lambda>p. p\<lparr>pchan := ch, pstate := SLEEPING\<rparr>) s"

definition sleep_on :: "chan \<Rightarrow> 'a kst_scheme \<Rightarrow> ('b, 'a kst_scheme) outcome" where
  "sleep_on ch s = Sleep ch (sleeping ch s)"

definition sleep_return :: "'a kst_scheme \<Rightarrow> 'a kst_scheme" where
  "sleep_return s = upd_cur (\<lambda>p. p\<lparr>pchan := NoChan\<rparr>) s"

definition yield :: "'a kst_scheme \<Rightarrow> ('b, 'a kst_scheme) outcome" where
  "yield s = Sleep NoChan (upd_cur (\<lambda>p. p\<lparr>pstate := RUNNABLE\<rparr>) s)"

definition kkill :: "int \<Rightarrow> 'a kst_scheme \<Rightarrow> int \<times> 'a kst_scheme" where
  "kkill pd s =
     (case find (\<lambda>k. pid (procs s ! k) = pd) [0..<length (procs s)] of
        None \<Rightarrow> (-1, s)
      | Some k \<Rightarrow> (0, upd_proc k (\<lambda>p. p\<lparr>killed_flag := True,
            pstate := (if pstate p = SLEEPING then RUNNABLE else pstate p)\<rparr>) s))"

text \<open>One round of the scheduler's inner loop for entry \<open>k\<close>: a runnable process is switched to.\<close>

definition scheduler_try :: "nat \<Rightarrow> 'a kst_scheme \<Rightarrow> 'a kst_scheme option" where
  "scheduler_try k s =
     (if pstate (procs s ! k) = RUNNABLE
      then Some ((upd_proc k (\<lambda>p. p\<lparr>pstate := RUNNING\<rparr>) s)\<lparr>cur := k, cpid := pid (procs s ! k)\<rparr>) else None)"

text \<open>The first process that a pass from entry \<open>k\<close> on would run.\<close>

definition scheduler_from :: "nat \<Rightarrow> 'a kst_scheme \<Rightarrow> 'a kst_scheme option" where
  "scheduler_from k s =
     (case find (\<lambda>j. pstate (procs s ! j) = RUNNABLE) [k..<length (procs s)] of
        None \<Rightarrow> None | Some j \<Rightarrow> scheduler_try j s)"

definition reparent :: "nat \<Rightarrow> 'a kst_scheme \<Rightarrow> 'a kst_scheme" where
  "reparent k s =
     foldl (\<lambda>s j. if parent (procs s ! j) = Some k
         then wakeup (ProcChan (initproc s)) (upd_proc j (\<lambda>p. p\<lparr>parent := Some (initproc s)\<rparr>) s) else s)
       s [0..<length (procs s)]"

section \<open>Facts\<close>

lemma wakeup_nth:
  "k < length (procs s) \<Longrightarrow> procs (wakeup ch s) ! k = (if k \<noteq> cur s then wake_one ch (procs s ! k) else procs s ! k)"
  by (simp add: wakeup_def)

lemma upd_proc_nth:
  "k < length (procs s) \<Longrightarrow> procs (upd_proc j f s) ! k = (if k = j then f (procs s ! k) else procs s ! k)"
  by (simp add: upd_proc_def nth_list_update)

lemma proc_lengths [simp]:
  "length (procs (wakeup ch s)) = length (procs s)" "length (procs (upd_proc j f s)) = length (procs s)"
  "cur (wakeup ch s) = cur s" "cur (upd_proc j f s) = cur s" "initproc (wakeup ch s) = initproc s"
  "initproc (upd_proc j f s) = initproc s"
  by (simp_all add: wakeup_def upd_proc_def)

lemma wake_one_fields [simp]:
  "parent (wake_one ch p) = parent p" "pid (wake_one ch p) = pid p" "pchan (wake_one ch p) = pchan p"
  "killed_flag (wake_one ch p) = killed_flag p" "pstate (wake_one ch p) = ZOMBIE \<longleftrightarrow> pstate p = ZOMBIE"
  by (auto simp: wake_one_def)

lemma reparent_fold:
  assumes "\<forall>j\<in>set js. j < length (procs s)" "distinct js" "k \<noteq> initproc s"
  defines "t \<equiv> foldl (\<lambda>s j. if parent (procs s ! j) = Some k
      then wakeup (ProcChan (initproc s)) (upd_proc j (\<lambda>p. p\<lparr>parent := Some (initproc s)\<rparr>) s) else s) s js"
  shows "length (procs t) = length (procs s) \<and> initproc t = initproc s \<and> cur t = cur s \<and>
    (\<forall>i<length (procs s). parent (procs t ! i) =
       (if i \<in> set js \<and> parent (procs s ! i) = Some k then Some (initproc s) else parent (procs s ! i)))"
  using assms(1-3) unfolding t_def
proof (induction js arbitrary: s)
  case (Cons j js)
  let ?s = "if parent (procs s ! j) = Some k
      then wakeup (ProcChan (initproc s)) (upd_proc j (\<lambda>p. p\<lparr>parent := Some (initproc s)\<rparr>) s) else s"
  have l: "length (procs ?s) = length (procs s)" "initproc ?s = initproc s" "cur ?s = cur s" by simp_all
  have p: "parent (procs ?s ! i) = (if i = j \<and> parent (procs s ! i) = Some k then Some (initproc s) else parent (procs s ! i))"
    if "i < length (procs s)" for i using that Cons.prems(1) by (auto simp: wakeup_nth upd_proc_nth)
  show ?case using Cons.IH [of ?s] Cons.prems l p by auto
qed simp

section \<open>A sample state\<close>

definition sample_proc :: proc where
  "sample_proc = \<lparr>pstate = RUNNABLE, pchan = NoChan, killed_flag = False, xstate = 0, pid = 1, parent = None, kstack = 0,
     psz = 0, pagetable = 0, trapframe = 0, context_regs = replicate 14 0, ofile = replicate NOFILE None, cwd = None, pname = replicate 16 0, heap_start = 0,
     exec_ip = None, swap_file = None, swap_slots = replicate MAX_SWAP_PAGES False,
     resident_pages = (\<lambda>_. \<lparr>rva = 0, rseq = 0, rdirty = False\<rparr>), swapped_pages = (\<lambda>_. \<lparr>sva = 0, sslot = 0\<rparr>),
     num_resident = 0, next_fifo_seq = 0, num_swapped = 0, swap_path = replicate 20 0,
     text_start = 0, text_end = 0, data_start = 0, data_end = 0, stack_top = 0, num_phdrs = 0, phdrs = replicate 896 0\<rparr>"

definition sample_kst :: "proc list \<Rightarrow> kst" where
  "sample_kst ps = \<lparr>phys = \<lambda>_. 0, freelist = 0, kend = 0, bufs = replicate 30 sample_buf, lru = [0..<NBUF],
     disk = (\<lambda>b. replicate BSIZE 0), dwrites = [], cpid = 1,
     lg = \<lparr>lstart = 2, outstanding = 0, committing = False, ldev = ROOTDEV, lh = \<lparr>lh_n = 0, hblock = replicate 30 0\<rparr>\<rparr>,
     sb = \<lparr>magic = FSMAGIC, size = 100, nblocks = 54, ninodes = 160, nlog = 31, logstart = 2, inodestart = 33, bmapstart = 45\<rparr>,
     itable = replicate NINODE \<lparr>idev = 0, inum = 0, iref = 0, ilk = initsleeplock, ivalid = False, din = zero_dinode 0\<rparr>,
     procs = ps, cur = 0, initproc = 0, nextpid = 10,
     ftable = replicate NFILE \<lparr>ftyp = FD_NONE, fref = 0, readable = False, writable = False, fpipe = 0, fip = 0, foff = 0, fmajor = 0\<rparr>,
     pipes = (\<lambda>_. \<lparr>pdata = replicate PIPESIZE 0, nread = 0, nwrite = 0, readopen = False, writeopen = False\<rparr>),
     ticks = 0, trampoline = 0x80007000, etext = 0x80008000, sym = (\<lambda>_. 0x80000000), garbage = (\<lambda>_. 0), first_fork = False, hartid = 0,
     scause = 0, stval = 0, sepc = 0, sstatus = 0, stvec = 0, satp = 0, stimecmp = 0, time = 0, tlog = []\<rparr>"

section \<open>Properties\<close>





text \<open>
  C36: After \<open>reparent\<close> no process has the exiting one as its parent: its children belong to
  the init process, and all other parents are unchanged.
\<close>

theorem reparent_to_init:
  assumes "i < length (procs s)" and "k \<noteq> initproc s"
  shows "parent (procs (reparent k s) ! i) = (if parent (procs s ! i) = Some k then Some (initproc s) else parent (procs s ! i)) \<and>
    length (procs (reparent k s)) = length (procs s)"
  using reparent_fold [of "[0..<length (procs s)]" s k] assms by (simp add: reparent_def)

theorem reparent_to_init_witness:
  "parent (procs (reparent 1 (sample_kst [sample_proc, sample_proc, sample_proc\<lparr>parent := Some 1\<rparr>])) ! 2) = Some 0"
  using reparent_to_init [of 2 "sample_kst [sample_proc, sample_proc, sample_proc\<lparr>parent := Some 1\<rparr>]" 1]
  by (simp add: sample_kst_def)


end
