(* ===== verification/Paging.thy ===== *)
theory Paging
  imports Sched
begin

text \<open>
  The demand pager (kernel/vm.c): swap slots, the resident set with its FIFO
  replacement, \<open>evict_page\<close> and \<open>handle_pgfault\<close>; the copies between kernel and user
  memory that fault pages in; and the lazy mapping of an executable
  (\<open>ulazymalloc\<close>, \<open>flags2perm\<close> of kernel/exec.c). The process that faults is the
  current one. A call of \<open>kexit\<close> is the outcome \<open>Exit\<close>. Lines that the pager prints are events.
\<close>

unbundle bit_operations_syntax

section \<open>Swap slots and the resident set\<close>

definition swap_allocated_slot :: "proc \<Rightarrow> nat option \<times> proc" where
  "swap_allocated_slot p =
     (case find (\<lambda>i. \<not> swap_slots p ! i) [0..<MAX_SWAP_PAGES] of
        Some i \<Rightarrow> (Some i, p\<lparr>swap_slots := (swap_slots p)[i := True]\<rparr>)
      | None \<Rightarrow> (None, p))"

text \<open>The kernel addresses physical memory directly.\<close>

definition phys_source :: "u64 \<Rightarrow> 'a kst_scheme source" where
  "phys_source pa tot m s = Ret (True, mread (phys s) (pa + ucast tot) (unat m)) s"

definition phys_sink :: "u64 \<Rightarrow> (unit, 'a kst_scheme) sink" where
  "phys_sink pa u tot bs s = Ret (Some ()) (s\<lparr>phys := mwrite (phys s) (pa + ucast tot) bs\<rparr>)"

definition swap_write_page :: "nat \<Rightarrow> u64 \<Rightarrow> 'a kst_scheme \<Rightarrow> (int, 'a kst_scheme) outcome" where
  "swap_write_page sl page_content s =
     (case swap_file (myproc s) of
        None \<Rightarrow> Ret (-1) s
      | Some f \<Rightarrow>
          let ip = fip (ftable s ! f) in
          bindo (ilock ip s) (\<lambda>_ s.
          bindo (writei (phys_source page_content) ip (of_nat (sl * 4096)) 4096 s) (\<lambda>result s.
          bindo (iunlock ip s) (\<lambda>_ s.
          Ret (if result = 4096 then 0 else -1) s))))"

definition resident_add :: "u64 \<Rightarrow> bool \<Rightarrow> proc \<Rightarrow> proc" where
  "resident_add va swapped p =
     (let seq = next_fifo_seq p + 1 in
      p\<lparr>resident_pages := (resident_pages p)(nat (num_resident p) := \<lparr>rva = va, rseq = seq, rdirty = swapped\<rparr>),
        next_fifo_seq := seq, num_resident := num_resident p + 1\<rparr>)"

definition add_to_resident_set :: "u64 \<Rightarrow> bool \<Rightarrow> 'a kst_scheme \<Rightarrow> (unit, 'a kst_scheme) outcome" where
  "add_to_resident_set va swapped s =
     (if num_resident (myproc s) \<ge> MAX_RESIDENT_PAGES then Exit (-1) s
      else let s = upd_cur (resident_add va swapped) s in
        Ret () (log_event (RESIDENT (pid (myproc s)) va (next_fifo_seq (myproc s))) s))"

text \<open>The loop of \<open>evict_page\<close>: the index of the page with the smallest sequence number.\<close>

definition victim_index :: "proc \<Rightarrow> nat" where
  "victim_index p =
     foldl (\<lambda>v i. if rseq (resident_pages p i) < rseq (resident_pages p v) then i else v) 0 [1..<nat (num_resident p)]"

definition resident_drop :: "nat \<Rightarrow> proc \<Rightarrow> proc" where
  "resident_drop v p =
     p\<lparr>resident_pages := (resident_pages p)(v := resident_pages p (nat (num_resident p - 1))),
       num_resident := num_resident p - 1\<rparr>"

definition swapped_add :: "u64 \<Rightarrow> nat \<Rightarrow> proc \<Rightarrow> proc" where
  "swapped_add va sl p =
     p\<lparr>swapped_pages := (swapped_pages p)(nat (num_swapped p) := \<lparr>sva = va, sslot = sl\<rparr>),
       num_swapped := num_swapped p + 1\<rparr>"

text \<open>A dirty victim is written to a swap slot; running out of slots ends the process.\<close>

definition swap_out :: "nat \<Rightarrow> 'a kst_scheme \<Rightarrow> (unit, 'a kst_scheme) outcome" where
  "swap_out v s =
     (let p = myproc s; va = rva (resident_pages p v) in
      if rdirty (resident_pages p v)
      then case swap_allocated_slot p of
          (None, _) \<Rightarrow> Exit (-1) (log_event (SWAPFULL (pid p)) s)
        | (Some sl, p') \<Rightarrow>
            let s = log_event (SWAPOUT (pid p) va sl) (upd_cur (\<lambda>_. p') s) in
            bindo (walkaddr (pagetable p) va s) (\<lambda>pa s.
            bindo (begin_op s) (\<lambda>_ s.
            bindo (swap_write_page sl pa s) (\<lambda>r s.
            bindo (end_op s) (\<lambda>_ s.
            if r \<noteq> 0 then Exit (-1) s else Ret () (upd_cur (swapped_add va sl) s)))))
      else Ret () s)"

text \<open>
  With an empty resident set the last statement reads \<open>resident_pages[-1]\<close>, which has
  no defined meaning.
\<close>

definition evict_page :: "'a kst_scheme \<Rightarrow> (int, 'a kst_scheme) outcome" where
  "evict_page s =
     (let p = myproc s; v = victim_index p; va = rva (resident_pages p v);
          s = log_event (VICTIM (pid p) va (rseq (resident_pages p v))) (log_event (MEMFULL (pid p)) s);
          s = log_event (EVICT (pid p) va (rdirty (resident_pages p v))) s in
      bindo (swap_out v s) (\<lambda>_ s.
      bindo (uvmunmap (pagetable (myproc s)) va 1 True s) (\<lambda>_ s.
      if num_resident (myproc s) < 1 then Panic ''undefined: resident_pages[-1]''
      else Ret 0 (upd_cur (resident_drop v) s))))"

section \<open>Page faults\<close>

text \<open>The swap table lookup of \<open>handle_pgfault\<close>: a page found there is taken out and its slot freed.\<close>

definition take_swapped :: "u64 \<Rightarrow> proc \<Rightarrow> nat option \<times> proc" where
  "take_swapped va p =
     (case find (\<lambda>i. sva (swapped_pages p i) = va) [0..<nat (num_swapped p)] of
        None \<Rightarrow> (None, p)
      | Some i \<Rightarrow>
          let sl = sslot (swapped_pages p i) in
          (Some sl, p\<lparr>swapped_pages := (swapped_pages p)(i := swapped_pages p (nat (num_swapped p - 1))),
             num_swapped := num_swapped p - 1, swap_slots := (swap_slots p)[sl := False]\<rparr>))"

definition flags2perm :: "u32 \<Rightarrow> u64" where
  "flags2perm flags =
     (let perm = (if flags AND 1 \<noteq> 0 then PTE_X else 0);
          perm = (if flags AND 2 \<noteq> 0 then perm OR PTE_W else perm)
      in if flags AND ELF_PROG_FLAG_READ \<noteq> 0 then perm OR PTE_R else perm)"

text \<open>The loop over the program headers: the segment that contains \<open>va\<close>, if any.\<close>

fun find_segment :: "nat \<Rightarrow> u64 \<Rightarrow> u32 \<Rightarrow> nat \<Rightarrow> u8 list \<Rightarrow> 'a kst_scheme \<Rightarrow> (proghdr option, 'a kst_scheme) outcome" where
  "find_segment ip va off 0 ph s = Ret None s"
| "find_segment ip va off (Suc k) ph s =
     bindo (readi kernel_sink ip off 56 ph s) (\<lambda>(_, ph) s.
     let h = get_proghdr ph in
     if ptype h = ELF_PROG_LOAD \<and> va \<ge> vaddr h \<and> va < vaddr h + memsz h then Ret (Some h) s
     else find_segment ip va (off + 56) k ph s)"

definition fault_alloc :: "'a kst_scheme \<Rightarrow> (u64, 'a kst_scheme) outcome" where
  "fault_alloc s =
     bindo (kalloc s) (\<lambda>mem s.
     if mem \<noteq> 0 then Ret mem s
     else bindo (evict_page s) (\<lambda>r s.
       if r < 0 then Ret 0 (setkilled (cur s) s)
       else bindo (kalloc s) (\<lambda>mem s.
         if mem = 0 then Panic ''kalloc failed after eviction'' else Ret mem s)))"

definition map_or_free :: "u64 \<Rightarrow> u64 \<Rightarrow> u64 \<Rightarrow> u64 \<Rightarrow> 'a kst_scheme \<Rightarrow> (int, 'a kst_scheme) outcome" where
  "map_or_free pt va mem perm s =
     bindo (mappages pt va PGSIZE mem perm s) (\<lambda>r s.
     if r \<noteq> 0 then bindo (kfree mem s) (\<lambda>_ s. Ret (-1) s) else Ret 0 s)"

definition swap_in :: "u64 \<Rightarrow> nat \<Rightarrow> 'a kst_scheme \<Rightarrow> (unit, 'a kst_scheme) outcome" where
  "swap_in mem sl s =
     (case swap_file (myproc s) of
        None \<Rightarrow> Panic ''undefined: swap_file''
      | Some f \<Rightarrow>
          let ip = fip (ftable s ! f) in
          bindo (begin_op s) (\<lambda>_ s.
          bindo (ilock ip s) (\<lambda>_ s.
          bindo (readi (phys_sink mem) ip (of_nat (sl * 4096)) 4096 () s) (\<lambda>(r, _) s.
          bindo (iunlock ip s) (\<lambda>_ s.
          bindo (end_op s) (\<lambda>_ s.
          if r \<noteq> 4096 then Panic ''swap_read_page failed'' else Ret () s))))))"

definition load_page :: "u64 \<Rightarrow> u64 \<Rightarrow> u64 \<Rightarrow> string \<Rightarrow> 'a kst_scheme \<Rightarrow> (int, 'a kst_scheme) outcome" where
  "load_page pt va mem access s =
     (let p = myproc s in
      if \<not> va < heap_start p \<and> \<not> (va \<ge> heap_start p \<and> va < psz p) then Ret (-1) s
      else case exec_ip p of
        None \<Rightarrow> Panic ''undefined: exec_ip''
      | Some ip \<Rightarrow>
        bindo (readi kernel_sink ip 0 64 (local_buf 64 s) s) (\<lambda>(_, elf) s.
        bindo (find_segment ip va (ucast (phoff (get_elfhdr elf))) (unat (phnum (get_elfhdr elf))) (local_buf 56 s) s) (\<lambda>seg s.
        case seg of
          Some ph \<Rightarrow>
            let s = log_event (LOADEXEC (pid p) va) (log_event (PAGEFAULT (pid p) va access ''exec'') s);
                file_offset = ucast (poff ph + (va - vaddr ph)) :: u32;
                to_read = (if filesz ph > va - vaddr ph then ucast (filesz ph - (va - vaddr ph)) else 0) :: u32;
                to_read = (if to_read > 4096 then 4096 else to_read) in
            bindo (readi (phys_sink mem) ip file_offset to_read () s) (\<lambda>(r, _) s.
            if r \<noteq> to_read then bindo (kfree mem s) (\<lambda>_ s. Ret (-1) s)
            else map_or_free pt va mem (flags2perm (pflags ph) OR PTE_U) s)
        | None \<Rightarrow>
            if va < psz p \<or> (va \<ge> tf_get (cur s) TF_sp s - PGSIZE \<and> va < MAXVA)
            then let s = log_event (ALLOC (pid p) va)
                       (log_event (PAGEFAULT (pid p) va access (if va < psz p then ''heap'' else ''stack'')) s) in
              map_or_free pt va mem (PTE_U OR PTE_R) s
            else bindo (kfree mem s) (\<lambda>_ s. Ret (-1) s))))"

text \<open>The part after the allocation: the page is filled from the swap file or by \<open>load_page\<close> and becomes resident.\<close>

definition fill_page :: "u64 \<Rightarrow> u64 \<Rightarrow> u64 \<Rightarrow> string \<Rightarrow> 'a kst_scheme \<Rightarrow> (int, 'a kst_scheme) outcome" where
  "fill_page pt va mem access s =
     (let s = zero_page mem s; (slo, p) = take_swapped va (myproc s); s = upd_cur (\<lambda>_. p) s in
      bindo
        (case slo of
           Some sl \<Rightarrow>
             bindo (swap_in mem sl (log_event (SWAPIN (pid p) va sl) (log_event (PAGEFAULT (pid p) va access ''swap'') s))) (\<lambda>_ s.
             map_or_free pt va mem (PTE_U OR PTE_R) s)
         | None \<Rightarrow> load_page pt va mem access s) (\<lambda>r s.
      if r < 0 then Ret (-1) s
      else bindo (add_to_resident_set va (slo \<noteq> None) s) (\<lambda>_ s. Ret 0 s)))"

definition handle_pgfault :: "u64 \<Rightarrow> u64 \<Rightarrow> string \<Rightarrow> 'a kst_scheme \<Rightarrow> (int, 'a kst_scheme) outcome" where
  "handle_pgfault pt va access s =
     (if va \<ge> MAXVA then Ret (-1) s
      else let va = PGROUNDDOWN va in
        bindo (fault_alloc s) (\<lambda>mem s. if mem = 0 then Ret (-1) s else fill_page pt va mem access s))"

definition vmfault :: "u64 \<Rightarrow> u64 \<Rightarrow> 'a kst_scheme \<Rightarrow> (u64, 'a kst_scheme) outcome" where
  "vmfault pt va s =
     (if va \<ge> psz (myproc s) then Ret 0 s
      else let va = PGROUNDDOWN va in
        bindo (ismapped pt va s) (\<lambda>m s.
        if m then Ret 0 s
        else bindo (kalloc s) (\<lambda>mem s.
          if mem = 0 then Ret 0 s
          else bindo (mappages (pagetable (myproc s)) va PGSIZE mem (PTE_W OR PTE_U OR PTE_R) (zero_page mem s)) (\<lambda>r s.
            if r \<noteq> 0 then bindo (kfree mem s) (\<lambda>_ s. Ret 0 s) else Ret mem s))))"

section \<open>Copies between kernel and user memory\<close>

definition access_type :: "'a kst_scheme \<Rightarrow> string" where
  "access_type s = (if scause s = 12 then ''exec'' else if scause s = 13 then ''read'' else ''write'')"

text \<open>The physical address of a user page, faulted in when it is not there; 0 on failure.\<close>

definition user_page :: "u64 \<Rightarrow> u64 \<Rightarrow> 'a kst_scheme \<Rightarrow> (u64, 'a kst_scheme) outcome" where
  "user_page pt va0 s =
     bindo (walkaddr pt va0 s) (\<lambda>pa0 s.
     if pa0 \<noteq> 0 then Ret pa0 s
     else bindo (handle_pgfault pt va0 (access_type s) s) (\<lambda>r s.
       if r \<noteq> 0 then Ret 0 s else walkaddr pt va0 s))"

definition page_part :: "u64 \<Rightarrow> nat \<Rightarrow> nat" where
  "page_part va len = min (4096 - unat (va - PGROUNDDOWN va)) len"

lemma page_part_pos: "0 < len \<Longrightarrow> 0 < page_part va len"
proof -
  have "unat (va - PGROUNDDOWN va) < 4096" using PGROUNDDOWN_in_page [of va] by (simp add: in_page_def)
  then show "0 < len \<Longrightarrow> 0 < page_part va len" by (simp add: page_part_def)
qed

function copyout :: "u64 \<Rightarrow> u64 \<Rightarrow> u8 list \<Rightarrow> 'a kst_scheme \<Rightarrow> (int, 'a kst_scheme) outcome" where
  "copyout pt dstva src s =
     (if src = [] then Ret 0 s
      else let va0 = PGROUNDDOWN dstva in
        if va0 \<ge> MAXVA then Ret (-1) s
        else bindo (user_page pt va0 s) (\<lambda>pa0 s.
          if pa0 = 0 then Ret (-1) s
          else bindo (walk pt va0 False s) (\<lambda>pte s.
            if load64 (phys s) pte AND PTE_W = 0 then Ret (-1) s
            else let k = page_part dstva (length src) in
              copyout pt (va0 + PGSIZE) (drop k src) (s\<lparr>phys := mwrite (phys s) (pa0 + (dstva - va0)) (take k src)\<rparr>))))"
  by pat_completeness auto
termination
  by (relation "measure (\<lambda>(_, _, src, _). length src)") (auto simp: page_part_pos)

text \<open>\<open>copyin\<close> answers with the bytes it has stored, also when it fails.\<close>

function copyin :: "u64 \<Rightarrow> u64 \<Rightarrow> nat \<Rightarrow> 'a kst_scheme \<Rightarrow> (int \<times> u8 list, 'a kst_scheme) outcome" where
  "copyin pt srcva len s =
     (if len = 0 then Ret (0, []) s
      else let va0 = PGROUNDDOWN srcva in
        bindo (user_page pt va0 s) (\<lambda>pa0 s.
        if pa0 = 0 then Ret (-1, []) s
        else let k = page_part srcva len; bs = mread (phys s) (pa0 + (srcva - va0)) k in
          bindo (copyin pt (va0 + PGSIZE) (len - k) s) (\<lambda>(r, rest) s. Ret (r, bs @ rest) s)))"
  by pat_completeness auto
termination
  by (relation "measure (\<lambda>(_, _, len, _). len)") (auto simp: page_part_pos)

text \<open>\<open>copyinstr\<close> never faults a page in: the statement after \<open>return -1\<close> is dead.\<close>

function copyinstr :: "u64 \<Rightarrow> u64 \<Rightarrow> nat \<Rightarrow> 'a kst_scheme \<Rightarrow> (int \<times> u8 list, 'a kst_scheme) outcome" where
  "copyinstr pt srcva mx s =
     (if mx = 0 then Ret (-1, []) s
      else let va0 = PGROUNDDOWN srcva in
        bindo (walkaddr pt va0 s) (\<lambda>pa0 s.
        if pa0 = 0 then Ret (-1, []) s
        else let k = page_part srcva mx; bs = mread (phys s) (pa0 + (srcva - va0)) k;
                 str = takeWhile (\<lambda>b. b \<noteq> 0) bs in
          if length str < k then Ret (0, str @ [0]) s
          else bindo (copyinstr pt (va0 + PGSIZE) (mx - k) s) (\<lambda>(r, rest) s. Ret (r, bs @ rest) s)))"
  by pat_completeness auto
termination
  by (relation "measure (\<lambda>(_, _, mx, _). mx)") (auto simp: page_part_pos)

declare copyout.simps [simp del] copyin.simps [simp del] copyinstr.simps [simp del]

definition either_copyout :: "bool \<Rightarrow> u64 \<Rightarrow> u8 list \<Rightarrow> 'a kst_scheme \<Rightarrow> (int, 'a kst_scheme) outcome" where
  "either_copyout user_dst dst src s =
     (if user_dst then copyout (pagetable (myproc s)) dst src s
      else Ret 0 (s\<lparr>phys := mwrite (phys s) dst src\<rparr>))"

definition either_copyin :: "bool \<Rightarrow> u64 \<Rightarrow> nat \<Rightarrow> 'a kst_scheme \<Rightarrow> (int \<times> u8 list, 'a kst_scheme) outcome" where
  "either_copyin user_src src len s =
     (if user_src then copyin (pagetable (myproc s)) src len s
      else Ret (0, mread (phys s) src len) s)"

text \<open>The copy routines that the system calls pass to \<open>readi\<close> and \<open>writei\<close>.\<close>

definition user_sink :: "u64 \<Rightarrow> (unit, 'a kst_scheme) sink" where
  "user_sink dst u tot bs s =
     bindo (either_copyout True (dst + ucast tot) bs s) (\<lambda>r s. Ret (if r = -1 then None else Some ()) s)"

definition user_source :: "u64 \<Rightarrow> 'a kst_scheme source" where
  "user_source src tot m s =
     bindo (either_copyin True (src + ucast tot) (unat m) s) (\<lambda>(r, bs) s. Ret (r \<noteq> -1, bs) s)"

section \<open>Address spaces of processes and of the kernel\<close>

function ulazymalloc_from :: "u64 \<Rightarrow> u64 \<Rightarrow> u64 \<Rightarrow> u64 \<Rightarrow> 'a kst_scheme \<Rightarrow> (u64, 'a kst_scheme) outcome" where
  "ulazymalloc_from pt a va_end xperm s =
     (if a < va_end
      then bindo (walk pt a True s) (\<lambda>pte s.
        if pte = 0 then Ret 0 s
        else ulazymalloc_from pt (a + PGSIZE) va_end xperm (put64 pte (PTE_U OR xperm) s))
      else Ret va_end s)"
  by pat_completeness auto
termination
  by (relation "measure (\<lambda>(pt, a, e, x, s). unat MAXVA - unat a)")
    (auto simp only: in_measure wf_measure split_conv intro: next_page_measure dest: walk_Ret_less)

declare ulazymalloc_from.simps [simp del]

definition ulazymalloc :: "u64 \<Rightarrow> u64 \<Rightarrow> u64 \<Rightarrow> u64 \<Rightarrow> 'a kst_scheme \<Rightarrow> (u64, 'a kst_scheme) outcome" where
  "ulazymalloc pt va_start va_end xperm s =
     (if va_end < va_start then Ret va_start s
      else ulazymalloc_from pt (PGROUNDUP va_start) va_end xperm s)"

definition proc_pagetable :: "nat \<Rightarrow> 'a kst_scheme \<Rightarrow> (u64, 'a kst_scheme) outcome" where
  "proc_pagetable k s =
     bindo (uvmcreate s) (\<lambda>pt s.
     if pt = 0 then Ret 0 s
     else bindo (mappages pt TRAMPOLINE PGSIZE (trampoline s) (PTE_R OR PTE_X) s) (\<lambda>r s.
       if r < 0 then bindo (uvmfree pt 0 s) (\<lambda>_ s. Ret 0 s)
       else bindo (mappages pt TRAPFRAME PGSIZE (trapframe (procs s ! k)) (PTE_R OR PTE_W) s) (\<lambda>r s.
         if r < 0
         then bindo (uvmunmap pt TRAMPOLINE 1 False s) (\<lambda>_ s. bindo (uvmfree pt 0 s) (\<lambda>_ s. Ret 0 s))
         else Ret pt s)))"

definition proc_freepagetable :: "u64 \<Rightarrow> u64 \<Rightarrow> 'a kst_scheme \<Rightarrow> (unit, 'a kst_scheme) outcome" where
  "proc_freepagetable pt sz s =
     bindo (uvmunmap pt TRAMPOLINE 1 False s) (\<lambda>_ s.
     bindo (uvmunmap pt TRAPFRAME 1 False s) (\<lambda>_ s. uvmfree pt sz s))"

definition UART0 :: u64 where "UART0 = 0x10000000"
definition VIRTIO0 :: u64 where "VIRTIO0 = 0x10001000"
definition PLIC :: u64 where "PLIC = 0x0c000000"

definition kvmmap :: "u64 \<Rightarrow> u64 \<Rightarrow> u64 \<Rightarrow> u64 \<Rightarrow> u64 \<Rightarrow> 'a kst_scheme \<Rightarrow> (unit, 'a kst_scheme) outcome" where
  "kvmmap kpgtbl va pa sz perm s =
     bindo (mappages kpgtbl va sz pa perm s) (\<lambda>r s. if r \<noteq> 0 then Panic ''kvmmap'' else Ret () s)"

definition proc_mapstacks :: "u64 \<Rightarrow> 'a kst_scheme \<Rightarrow> (unit, 'a kst_scheme) outcome" where
  "proc_mapstacks kpgtbl s =
     forM [0..<NPROC] (\<lambda>k s.
       bindo (kalloc s) (\<lambda>pa s.
       if pa = 0 then Panic ''kalloc'' else kvmmap kpgtbl (KSTACK (of_nat k)) pa PGSIZE (PTE_R OR PTE_W) s)) s"

definition kvmmake :: "'a kst_scheme \<Rightarrow> (u64, 'a kst_scheme) outcome" where
  "kvmmake s =
     bindo (kalloc s) (\<lambda>kpgtbl s.
     bindo (kvmmap kpgtbl UART0 UART0 PGSIZE (PTE_R OR PTE_W) (zero_page kpgtbl s)) (\<lambda>_ s.
     bindo (kvmmap kpgtbl VIRTIO0 VIRTIO0 PGSIZE (PTE_R OR PTE_W) s) (\<lambda>_ s.
     bindo (kvmmap kpgtbl PLIC PLIC 0x4000000 (PTE_R OR PTE_W) s) (\<lambda>_ s.
     bindo (kvmmap kpgtbl KERNBASE KERNBASE (etext s - KERNBASE) (PTE_R OR PTE_X) s) (\<lambda>_ s.
     bindo (kvmmap kpgtbl (etext s) (etext s) (PHYSTOP - etext s) (PTE_R OR PTE_W) s) (\<lambda>_ s.
     bindo (kvmmap kpgtbl TRAMPOLINE (trampoline s) PGSIZE (PTE_R OR PTE_X) s) (\<lambda>_ s.
     bindo (proc_mapstacks kpgtbl s) (\<lambda>_ s.
     Ret kpgtbl s))))))))"

end
