(* ===== verification/Frame.thy ===== *)
theory Frame
  imports Paging
begin

text \<open>
  What the lower layers leave alone. A predicate on the kernel's state that does not
  look at memory, buffers, disk, log or inodes survives every operation of the
  allocator, the page tables, the buffer cache, the log and the file system, whatever its
  outcome; if it also tolerates the bookkeeping of the pager, it survives page faults
  and copies to user memory. Clients instantiate the two contracts with their invariants.
\<close>

section \<open>A predicate that holds in whatever state a call ends\<close>

definition stays :: "('s \<Rightarrow> bool) \<Rightarrow> ('b, 's) outcome \<Rightarrow> bool" where
  "stays P m = (case m of Ret _ t \<Rightarrow> P t | Exit _ t \<Rightarrow> P t | Sleep _ t \<Rightarrow> P t | _ \<Rightarrow> True)"

named_theorems stay \<open>calls after which the invariant still holds\<close>

lemma stays_simps [simp]:
  "stays P (Ret x s) = P s" "stays P (Exit c s) = P s" "stays P (Sleep ch s) = P s" "stays P (Panic m)" "stays P NoFuel"
  by (simp_all add: stays_def)

lemma stays_bindo [stay]: "stays P m \<Longrightarrow> (\<And>x t. m = Ret x t \<Longrightarrow> P t \<Longrightarrow> stays P (k x t)) \<Longrightarrow> stays P (bindo m k)"
  by (cases m) auto

lemma stays_if [stay]: "(b \<Longrightarrow> stays P x) \<Longrightarrow> (\<not> b \<Longrightarrow> stays P y) \<Longrightarrow> stays P (if b then x else y)"
  by simp

lemma stays_option [stay]: "(x = None \<Longrightarrow> stays P a) \<Longrightarrow> (\<And>y. x = Some y \<Longrightarrow> stays P (f y)) \<Longrightarrow> stays P (case x of None \<Rightarrow> a | Some y \<Rightarrow> f y)"
  by (cases x) auto

lemma stays_prod [stay]: "(\<And>a b. x = (a, b) \<Longrightarrow> stays P (f a b)) \<Longrightarrow> stays P (case x of (a, b) \<Rightarrow> f a b)"
  by (cases x) auto

lemma stays_Let [stay]: "stays P (f x) \<Longrightarrow> stays P (Let x f)"
  by simp

lemma stays_forM [stay]: "P s \<Longrightarrow> (\<And>i t. P t \<Longrightarrow> stays P (f i t)) \<Longrightarrow> stays P (forM xs f s)"
  by (induction xs arbitrary: s) (auto intro!: stays_bindo)

lemma stays_Ret: "stays P m \<Longrightarrow> m = Ret x t \<Longrightarrow> P t"
  by simp

section \<open>Memory, disk and file system\<close>

locale low_frame =
  fixes P :: "'a kst_scheme \<Rightarrow> bool"
  assumes P_phys [simp]: "P (s\<lparr>phys := m\<rparr>) = P s" and P_freelist [simp]: "P (s\<lparr>freelist := fl\<rparr>) = P s"
    and P_bufs [simp]: "P (s\<lparr>bufs := bs\<rparr>) = P s" and P_lru [simp]: "P (s\<lparr>lru := l\<rparr>) = P s"
    and P_disk [simp]: "P (s\<lparr>disk := d\<rparr>) = P s" and P_dwrites [simp]: "P (s\<lparr>dwrites := w\<rparr>) = P s"
    and P_lg [simp]: "P (s\<lparr>lg := g\<rparr>) = P s" and P_itable [simp]: "P (s\<lparr>itable := it\<rparr>) = P s"
begin

lemma P_mem [simp]: "P (put64 a v s) = P s" "P (zero_page a s) = P s" "P (tf_put k r v s) = P s"
  by (simp_all add: put64_def zero_page_def tf_put_def)

lemma P_buf [simp]: "P (upd_buf i f s) = P s" "P (set_data i bs s) = P s" "P (bpin i s) = P s" "P (bunpin i s) = P s"
    "P (disk_rw i wr s) = P s"
  by (simp_all add: upd_buf_def set_data_def bpin_def bunpin_def disk_rw_def Let_def)

lemma P_ino [simp]: "P (upd_inode i g s) = P s" "P (upd_din i h s) = P s" "P (idup i s) = P s" "P (clear_head s) = P s"
  by (simp_all add: upd_inode_def upd_din_def idup_def clear_head_def)

lemma kalloc_stays [stay]: "P s \<Longrightarrow> stays P (kalloc s)"
  unfolding kalloc_def by (auto intro!: stay)

lemma kfree_stays [stay]: "P s \<Longrightarrow> stays P (kfree pa s)"
  unfolding kfree_def by (auto intro!: stay)

lemma walk_level_stays [stay]: "P s \<Longrightarrow> stays P (walk_level l pt va al s)"
  by (induction l arbitrary: pt s) (auto intro!: stay)

lemma walk_stays [stay]: "P s \<Longrightarrow> stays P (walk pt va al s)"
  unfolding walk_def by (auto intro!: stay)

lemma walkaddr_stays [stay]: "P s \<Longrightarrow> stays P (walkaddr pt va s)"
  unfolding walkaddr_def by (auto intro!: stay)

lemma mappages_from_stays [stay]: "P s \<Longrightarrow> stays P (mappages_from pt a la pa perm s)"
proof (induction pt a la pa perm s rule: mappages_from.induct)
  case (1 pt a la pa perm s)
  then show ?case unfolding mappages_from.simps [of pt a] by (auto intro!: stay)
qed

lemma mappages_stays [stay]: "P s \<Longrightarrow> stays P (mappages pt va sz pa perm s)"
  unfolding mappages_def by (auto intro!: stay)

lemma uvmunmap_page_stays [stay]: "P s \<Longrightarrow> stays P (uvmunmap_page pt a fr s)"
  unfolding uvmunmap_page_def by (auto intro!: stay)

lemma uvmunmap_from_stays [stay]: "P s \<Longrightarrow> stays P (uvmunmap_from pt a lim fr s)"
proof (induction pt a lim fr s rule: uvmunmap_from.induct)
  case (1 pt a lim fr s)
  then show ?case unfolding uvmunmap_from.simps [of pt a] by (auto intro!: stay)
qed

lemma uvmunmap_stays [stay]: "P s \<Longrightarrow> stays P (uvmunmap pt va np fr s)"
  unfolding uvmunmap_def by (auto intro!: stay)

lemma bget_stays [stay]: "P s \<Longrightarrow> stays P (bget d bn s)"
  unfolding bget_def lock_buf_def by (auto intro!: stay)

lemma bread_stays [stay]: "P s \<Longrightarrow> stays P (bread d bn s)"
  unfolding bread_def by (auto intro!: stay)

lemma bwrite_stays [stay]: "P s \<Longrightarrow> stays P (bwrite i s)"
  unfolding bwrite_def by (auto intro!: stay)

lemma brelse_stays [stay]: "P s \<Longrightarrow> stays P (brelse i s)"
  unfolding brelse_def by (auto intro!: stay)

lemma install_trans_stays [stay]: "P s \<Longrightarrow> stays P (install_trans r s)"
  unfolding install_trans_def install_step_def by (auto intro!: stay)

lemma write_head_stays [stay]: "P s \<Longrightarrow> stays P (write_head s)"
  unfolding write_head_def by (auto intro!: stay)

lemma write_log_stays [stay]: "P s \<Longrightarrow> stays P (write_log s)"
  unfolding write_log_def write_step_def by (auto intro!: stay)

lemma commit_stays [stay]: "P s \<Longrightarrow> stays P (commit s)"
  unfolding commit_def by (auto intro!: stay)

lemma begin_op_stays [stay]: "P s \<Longrightarrow> stays P (begin_op s)"
  unfolding begin_op_def by (auto intro!: stay)

lemma end_op_stays [stay]: "P s \<Longrightarrow> stays P (end_op s)"
  unfolding end_op_def by (auto intro!: stay)

lemma log_write_stays [stay]: "P s \<Longrightarrow> stays P (log_write b s)"
  unfolding log_write_def by (auto intro!: stay)

lemma bzero_stays [stay]: "P s \<Longrightarrow> stays P (bzero d b s)"
  unfolding bzero_def by (auto intro!: stay)

lemma balloc_from_stays [stay]: "P s \<Longrightarrow> stays P (balloc_from d bs s)"
  by (induction bs arbitrary: s) (auto intro!: stay)

lemma balloc_stays [stay]: "P s \<Longrightarrow> stays P (balloc d s)"
  unfolding balloc_def by (auto intro!: stay)

lemma bfree_stays [stay]: "P s \<Longrightarrow> stays P (bfree d b s)"
  unfolding bfree_def by (auto intro!: stay)

lemma iget_stays [stay]: "P s \<Longrightarrow> stays P (iget d i s)"
  unfolding iget_def by (auto intro!: stay)

lemma ialloc_from_stays [stay]: "P s \<Longrightarrow> stays P (ialloc_from d ty is s)"
  by (induction "is" arbitrary: s) (auto intro!: stay)

lemma ialloc_stays [stay]: "P s \<Longrightarrow> stays P (ialloc d ty s)"
  unfolding ialloc_def by (auto intro!: stay)

lemma iupdate_stays [stay]: "P s \<Longrightarrow> stays P (iupdate ip s)"
  unfolding iupdate_def by (auto intro!: stay)

lemma ilock_stays [stay]: "P s \<Longrightarrow> stays P (ilock ip s)"
  unfolding ilock_def by (auto intro!: stay)

lemma iunlock_stays [stay]: "P s \<Longrightarrow> stays P (iunlock ip s)"
  unfolding iunlock_def by (auto intro!: stay)

lemma itrunc_stays [stay]: "P s \<Longrightarrow> stays P (itrunc ip s)"
  unfolding itrunc_def free_direct_def free_entry_def by (auto intro!: stay)

lemma iput_stays [stay]: "P s \<Longrightarrow> stays P (iput ip s)"
  unfolding iput_def by (auto intro!: stay)

lemma iunlockput_stays [stay]: "P s \<Longrightarrow> stays P (iunlockput ip s)"
  unfolding iunlockput_def by (auto intro!: stay)

lemma bmap_stays [stay]: "P s \<Longrightarrow> stays P (bmap ip bn s)"
  unfolding bmap_def by (auto intro!: stay)

lemma readi_loop_stays:
  assumes "\<And>acc tot bs t. P t \<Longrightarrow> stays P (sink acc tot bs t)"
  shows "P s \<Longrightarrow> stays P (readi_loop sink ip off k tot acc s)"
  using assms
proof (induction sink ip off k tot acc s rule: readi_loop.induct)
  case (1 sink ip off k tot acc s)
  show ?case unfolding readi_loop.simps [of sink ip off k tot] using 1(2,3) by (auto intro!: stay 1(1))
qed

lemma readi_stays [stay]:
  "P s \<Longrightarrow> (\<And>acc tot bs t. P t \<Longrightarrow> stays P (sink acc tot bs t)) \<Longrightarrow> stays P (readi sink ip off k acc s)"
  unfolding readi_def by (auto intro!: stay readi_loop_stays)

lemma writei_loop_stays:
  assumes "\<And>tot m t. P t \<Longrightarrow> stays P (src tot m t)"
  shows "P s \<Longrightarrow> stays P (writei_loop src ip off k tot s)"
  using assms
proof (induction src ip off k tot s rule: writei_loop.induct)
  case (1 src ip off k tot s)
  show ?case unfolding writei_loop.simps [of src ip off k tot] using 1(2,3) by (auto intro!: stay 1(1))
qed

lemma writei_stays [stay]:
  "P s \<Longrightarrow> (\<And>tot m t. P t \<Longrightarrow> stays P (src tot m t)) \<Longrightarrow> stays P (writei src ip off k s)"
  unfolding writei_def by (auto intro!: stay writei_loop_stays)

lemma buffers_stay [stay]:
  "P s \<Longrightarrow> stays P (kernel_sink acc tot bs s)" "P s \<Longrightarrow> stays P (kernel_source xs tot' m s)"
  "P s \<Longrightarrow> stays P (phys_sink pa u tot bs s)" "P s \<Longrightarrow> stays P (phys_source pa tot' m s)"
  by (simp_all add: kernel_sink_def kernel_source_def phys_sink_def phys_source_def)

lemma read_dirent_stays [stay]: "P s \<Longrightarrow> stays P (read_dirent msg dp off de s)"
  unfolding read_dirent_def by (auto intro!: stay)

lemma dirlookup_from_stays [stay]: "P s \<Longrightarrow> stays P (dirlookup_from dp name offs de s)"
  by (induction offs arbitrary: de s) (auto intro!: stay)

lemma dirlookup_stays [stay]: "P s \<Longrightarrow> stays P (dirlookup dp name s)"
  unfolding dirlookup_def by (auto intro!: stay)

lemma free_dirent_from_stays [stay]: "P s \<Longrightarrow> stays P (free_dirent_from dp offs e de s)"
  by (induction offs arbitrary: de s) (auto intro!: stay)

lemma dirlink_stays [stay]: "P s \<Longrightarrow> stays P (dirlink dp name i s)"
  unfolding dirlink_def by (auto intro!: stay)

lemma namex_loop_stays [stay]: "P s \<Longrightarrow> stays P (namex_loop ip path np name s)"
proof (induction ip path np name s rule: namex_loop.induct)
  case (1 ip path np name s)
  show ?case unfolding namex_loop.simps [of ip path] using 1(2) by (auto intro!: stay 1(1))
qed

lemma namex_stays [stay]: "P s \<Longrightarrow> stays P (namex c path np name s)"
  unfolding namex_def by (auto intro!: stay)

lemma namei_stays [stay]: "P s \<Longrightarrow> stays P (namei c path s)"
  unfolding namei_def by (auto intro!: stay)

lemma nameiparent_stays [stay]: "P s \<Longrightarrow> stays P (nameiparent c path name s)"
  unfolding nameiparent_def by (auto intro!: stay)

lemma uvmcreate_stays [stay]: "P s \<Longrightarrow> stays P (uvmcreate s)"
  unfolding uvmcreate_def by (auto intro!: stay)

lemma uvmdealloc_stays [stay]: "P s \<Longrightarrow> stays P (uvmdealloc pt a b s)"
  unfolding uvmdealloc_def by (auto intro!: stay)

lemma uvmalloc_from_stays [stay]: "P s \<Longrightarrow> stays P (uvmalloc_from pt a o' n' x s)"
proof (induction pt a o' n' x s rule: uvmalloc_from.induct)
  case (1 pt a o' n' x s)
  then show ?case unfolding uvmalloc_from.simps [of pt a] by (auto intro!: stay)
qed

lemma uvmalloc_stays [stay]: "P s \<Longrightarrow> stays P (uvmalloc pt a b x s)"
  unfolding uvmalloc_def by (auto intro!: stay)

lemma freewalk_stays [stay]: "P s \<Longrightarrow> stays P (freewalk d pt s)"
  by (induction d arbitrary: pt s) (auto intro!: stay)

lemma uvmfree_stays [stay]: "P s \<Longrightarrow> stays P (uvmfree pt sz s)"
  unfolding uvmfree_def by (auto intro!: stay)

lemma uvmcopy_from_stays [stay]: "P s \<Longrightarrow> stays P (uvmcopy_from old new i sz s)"
proof (induction old new i sz s rule: uvmcopy_from.induct)
  case (1 old new i sz s)
  then show ?case unfolding uvmcopy_from.simps [of old new i] by (auto intro!: stay)
qed

lemma uvmcopy_stays [stay]: "P s \<Longrightarrow> stays P (uvmcopy old new sz s)"
  unfolding uvmcopy_def by (auto intro!: stay)

lemma uvmclear_stays [stay]: "P s \<Longrightarrow> stays P (uvmclear pt va s)"
  unfolding uvmclear_def by (auto intro!: stay)

lemma ulazymalloc_from_stays [stay]: "P s \<Longrightarrow> stays P (ulazymalloc_from pt a e x s)"
proof (induction pt a e x s rule: ulazymalloc_from.induct)
  case (1 pt a e x s)
  then show ?case unfolding ulazymalloc_from.simps [of pt a] by (auto intro!: stay)
qed

lemma ulazymalloc_stays [stay]: "P s \<Longrightarrow> stays P (ulazymalloc pt a e x s)"
  unfolding ulazymalloc_def by (auto intro!: stay)

lemma proc_pagetable_stays [stay]: "P s \<Longrightarrow> stays P (proc_pagetable k s)"
  unfolding proc_pagetable_def by (auto intro!: stay)

lemma proc_freepagetable_stays [stay]: "P s \<Longrightarrow> stays P (proc_freepagetable pt sz s)"
  unfolding proc_freepagetable_def by (auto intro!: stay)

lemma swap_write_page_stays [stay]: "P s \<Longrightarrow> stays P (swap_write_page sl pg s)"
  unfolding swap_write_page_def by (auto intro!: stay)

lemma swap_in_stays [stay]: "P s \<Longrightarrow> stays P (swap_in mem sl s)"
  unfolding swap_in_def by (auto intro!: stay)

lemma find_segment_stays [stay]: "P s \<Longrightarrow> stays P (find_segment ip va off k ph s)"
  by (induction k arbitrary: off ph s) (auto intro!: stay)

lemma map_or_free_stays [stay]: "P s \<Longrightarrow> stays P (map_or_free pt va mem perm s)"
  unfolding map_or_free_def by (auto intro!: stay)

end

section \<open>The pager\<close>

text \<open>The fields of a process that the pager keeps to itself.\<close>

definition core :: "proc \<Rightarrow> proc" where
  "core p = p\<lparr>killed_flag := False, swap_slots := [], resident_pages := (\<lambda>_. \<lparr>rva = 0, rseq = 0, rdirty = False\<rparr>),
     swapped_pages := (\<lambda>_. \<lparr>sva = 0, sslot = 0\<rparr>), num_resident := 0, next_fifo_seq := 0, num_swapped := 0\<rparr>"

lemma core_updates [simp]:
  "core (p\<lparr>killed_flag := k\<rparr>) = core p" "core (resident_add va sw p) = core p" "core (resident_drop v p) = core p"
  "core (swapped_add va sl p) = core p"
  by (simp_all add: core_def resident_add_def resident_drop_def swapped_add_def Let_def)

lemma core_take_swapped: "take_swapped va p = (r, p') \<Longrightarrow> core p' = core p"
  by (auto simp: take_swapped_def core_def Let_def split: option.splits)

lemma core_swap_slot: "swap_allocated_slot p = (r, p') \<Longrightarrow> core p' = core p"
  by (auto simp: swap_allocated_slot_def core_def split: option.splits)

lemma myproc_log_event [simp]: "myproc (log_event e s) = myproc s" "cur (log_event e s) = cur s"
  by (simp_all add: log_event_def myproc_def)

lemma procs_log_event [simp]: "procs (log_event e s) = procs s"
  by (simp_all add: log_event_def)

lemma myproc_upd_cur: "cur s < length (procs s) \<Longrightarrow> myproc (upd_cur f s) = f (myproc s)"
  by (simp add: myproc_def upd_cur_def upd_proc_def)

lemma cur_upd_cur [simp]: "cur (upd_cur f s) = cur s" "length (procs (upd_cur f s)) = length (procs s)"
  by (simp_all add: upd_cur_def)

locale page_frame = low_frame +
  assumes P_tlog [simp]: "P (s\<lparr>tlog := l\<rparr>) = P s"
    and P_core: "core (f (procs s ! k)) = core (procs s ! k) \<Longrightarrow> P s \<Longrightarrow> P (upd_proc k f s)"
begin

lemma P_log_event [simp]: "P (log_event e s) = P s"
  by (simp add: log_event_def)

lemma P_upd_cur: "P s \<Longrightarrow> core (f (myproc s)) = core (myproc s) \<Longrightarrow> P (upd_cur f s)"
  by (simp add: upd_cur_def myproc_def P_core)

lemma P_setkilled: "P s \<Longrightarrow> P (setkilled k s)"
  by (simp add: setkilled_def P_core)

lemma swap_out_stays [stay]: "P s \<Longrightarrow> stays P (swap_out v s)"
  unfolding swap_out_def Let_def by (auto intro!: stay P_upd_cur) (erule core_swap_slot)

lemma evict_page_stays [stay]: "P s \<Longrightarrow> stays P (evict_page s)"
  unfolding evict_page_def Let_def by (auto intro!: stay P_upd_cur)

lemma fault_alloc_stays [stay]: "P s \<Longrightarrow> stays P (fault_alloc s)"
  unfolding fault_alloc_def by (auto intro!: stay P_setkilled)

lemma load_page_stays [stay]: "P s \<Longrightarrow> stays P (load_page pt va mem acc s)"
  unfolding load_page_def by (auto intro!: stay)

lemma add_to_resident_set_stays [stay]: "P s \<Longrightarrow> stays P (add_to_resident_set va sw s)"
  unfolding add_to_resident_set_def by (auto intro!: stay P_upd_cur)

lemma fill_page_stays [stay]: "P s \<Longrightarrow> stays P (fill_page pt va mem acc s)"
  unfolding fill_page_def by (auto intro!: stay P_upd_cur intro: core_take_swapped)

lemma handle_pgfault_stays [stay]: "P s \<Longrightarrow> stays P (handle_pgfault pt va acc s)"
  unfolding handle_pgfault_def by (auto intro!: stay)

lemma user_page_stays [stay]: "P s \<Longrightarrow> stays P (user_page pt va s)"
  unfolding user_page_def by (auto intro!: stay)

lemma copyout_stays [stay]: "P s \<Longrightarrow> stays P (copyout pt va bs s)"
proof (induction pt va bs s rule: copyout.induct)
  case (1 pt va bs s)
  then show ?case unfolding copyout.simps [of pt va] by (auto intro!: stay)
qed

lemma copyin_stays [stay]: "P s \<Longrightarrow> stays P (copyin pt va len s)"
proof (induction pt va len s rule: copyin.induct)
  case (1 pt va len s)
  then show ?case unfolding copyin.simps [of pt va] by (auto intro!: stay)
qed

lemma copyinstr_stays [stay]: "P s \<Longrightarrow> stays P (copyinstr pt va mx s)"
proof (induction pt va mx s rule: copyinstr.induct)
  case (1 pt va mx s)
  then show ?case unfolding copyinstr.simps [of pt va] by (auto intro!: stay)
qed

lemma user_buffers_stay [stay]:
  "P s \<Longrightarrow> stays P (user_sink dst u tot bs s)" "P s \<Longrightarrow> stays P (user_source src tot m s)"
  unfolding user_sink_def user_source_def either_copyout_def either_copyin_def by (auto intro!: stay)

end

end
