(* ===== verification/File.thy ===== *)
theory File
  imports Frame Fifo
begin

text \<open>
  Open files and pipes: kernel/file.c and kernel/pipe.c. A pipe is a ring of
  PIPESIZE bytes with 32-bit counters that wrap around. A read or write that
  has to wait returns \<open>Blocked i\<close>: it sleeps with \<open>i\<close> bytes done and continues from
  there. The device table is a parameter.
\<close>

unbundle bit_operations_syntax

section \<open>Pipe buffers\<close>

definition pipe_full :: "pipe \<Rightarrow> bool" where
  "pipe_full p \<longleftrightarrow> nwrite p = nread p + of_nat PIPESIZE"

definition pipe_empty :: "pipe \<Rightarrow> bool" where
  "pipe_empty p \<longleftrightarrow> nread p = nwrite p"

definition pipe_put :: "u8 \<Rightarrow> pipe \<Rightarrow> pipe" where
  "pipe_put ch p = p\<lparr>pdata := (pdata p)[unat (nwrite p) mod PIPESIZE := ch], nwrite := nwrite p + 1\<rparr>"

definition pipe_peek :: "pipe \<Rightarrow> u8" where
  "pipe_peek p = pdata p ! (unat (nread p) mod PIPESIZE)"

definition pipe_skip :: "pipe \<Rightarrow> pipe" where
  "pipe_skip p = p\<lparr>nread := nread p + 1\<rparr>"

section \<open>The file table\<close>

definition filealloc :: "'a kst_scheme \<Rightarrow> nat option \<times> 'a kst_scheme" where
  "filealloc s =
     (case find (\<lambda>f. fref (ftable s ! f) = 0) [0..<NFILE] of
        None \<Rightarrow> (None, s)
      | Some f \<Rightarrow> (Some f, upd_file f (\<lambda>e. e\<lparr>fref := 1\<rparr>) s))"

definition filedup :: "nat \<Rightarrow> 'a kst_scheme \<Rightarrow> (nat, 'a kst_scheme) outcome" where
  "filedup f s =
     (if fref (ftable s ! f) < 1 then Panic ''filedup''
      else Ret f (upd_file f (\<lambda>e. e\<lparr>fref := fref e + 1\<rparr>) s))"

definition pipeclose :: "u64 \<Rightarrow> bool \<Rightarrow> 'a kst_scheme \<Rightarrow> (unit, 'a kst_scheme) outcome" where
  "pipeclose pi wr s =
     (let s = (if wr then wakeup (PipeRead pi) (upd_pipe pi (\<lambda>p. p\<lparr>writeopen := False\<rparr>) s)
               else wakeup (PipeWrite pi) (upd_pipe pi (\<lambda>p. p\<lparr>readopen := False\<rparr>) s)) in
      if \<not> readopen (pipes s pi) \<and> \<not> writeopen (pipes s pi) then kfree pi s else Ret () s)"

definition fileclose :: "nat \<Rightarrow> 'a kst_scheme \<Rightarrow> (unit, 'a kst_scheme) outcome" where
  "fileclose f s =
     (let ff = ftable s ! f in
      if fref ff < 1 then Panic ''fileclose''
      else if fref ff - 1 > 0 then Ret () (upd_file f (\<lambda>e. e\<lparr>fref := fref e - 1\<rparr>) s)
      else let s = upd_file f (\<lambda>e. e\<lparr>fref := 0, ftyp := FD_NONE\<rparr>) s in
        (case ftyp ff of
           FD_PIPE \<Rightarrow> pipeclose (fpipe ff) (writable ff) s
         | FD_NONE \<Rightarrow> Ret () s
         | _ \<Rightarrow> bindo (begin_op s) (\<lambda>_ s. bindo (iput (fip ff) s) (\<lambda>_ s. end_op s))))"

definition close_opt :: "nat option \<Rightarrow> 'a kst_scheme \<Rightarrow> (unit, 'a kst_scheme) outcome" where
  "close_opt f s = (case f of None \<Rightarrow> Ret () s | Some f \<Rightarrow> fileclose f s)"

definition pipe_setup :: "nat \<Rightarrow> nat \<Rightarrow> u64 \<Rightarrow> 'a kst_scheme \<Rightarrow> 'a kst_scheme" where
  "pipe_setup a b pi s =
     (let s = upd_pipe pi (\<lambda>p. p\<lparr>readopen := True, writeopen := True, nwrite := 0, nread := 0\<rparr>) s;
          s = upd_file a (\<lambda>e. e\<lparr>ftyp := FD_PIPE, readable := True, writable := False, fpipe := pi\<rparr>) s
      in upd_file b (\<lambda>e. e\<lparr>ftyp := FD_PIPE, readable := False, writable := True, fpipe := pi\<rparr>) s)"

definition pipealloc :: "'a kst_scheme \<Rightarrow> ((nat \<times> nat) option, 'a kst_scheme) outcome" where
  "pipealloc s =
     (let (f0, s) = filealloc s;
          (f1, s) = (if f0 = None then (None, s) else filealloc s);
          bad = (\<lambda>s. bindo (close_opt f0 s) (\<lambda>_ s. bindo (close_opt f1 s) (\<lambda>_ s. Ret None s))) in
      case (f0, f1) of
        (Some a, Some b) \<Rightarrow>
          bindo (kalloc s) (\<lambda>pi s.
          if pi = 0 then bad s else Ret (Some (a, b)) (pipe_setup a b pi s))
      | _ \<Rightarrow> bad s)"

section \<open>Reading and writing\<close>

datatype io_result = Finished int | Blocked nat

fun pipewrite_from :: "u64 \<Rightarrow> u64 \<Rightarrow> nat \<Rightarrow> nat \<Rightarrow> 'a kst_scheme \<Rightarrow> (io_result, 'a kst_scheme) outcome" where
  "pipewrite_from pi addr 0 i s = Ret (Finished (int i)) (wakeup (PipeRead pi) s)"
| "pipewrite_from pi addr (Suc k) i s =
     (if \<not> readopen (pipes s pi) \<or> killed (cur s) s then Ret (Finished (-1)) s
      else if pipe_full (pipes s pi) then Ret (Blocked i) (sleeping (PipeWrite pi) (wakeup (PipeRead pi) s))
      else bindo (copyin (pagetable (myproc s)) (addr + of_nat i) 1 s) (\<lambda>(r, bs) s.
        if r = -1 then Ret (Finished (int i)) (wakeup (PipeRead pi) s)
        else pipewrite_from pi addr k (Suc i) (upd_pipe pi (pipe_put (bs ! 0)) s)))"

text \<open>\<open>pipewrite\<close> of \<open>k\<close> bytes, called with \<open>i = 0\<close> or resumed after \<open>i\<close> bytes.\<close>

definition pipewrite :: "u64 \<Rightarrow> u64 \<Rightarrow> int \<Rightarrow> nat \<Rightarrow> 'a kst_scheme \<Rightarrow> (io_result, 'a kst_scheme) outcome" where
  "pipewrite pi addr k i s = pipewrite_from pi addr (nat k - i) i s"

fun piperead_from :: "u64 \<Rightarrow> u64 \<Rightarrow> nat \<Rightarrow> nat \<Rightarrow> 'a kst_scheme \<Rightarrow> (io_result, 'a kst_scheme) outcome" where
  "piperead_from pi addr 0 i s = Ret (Finished (int i)) (wakeup (PipeWrite pi) s)"
| "piperead_from pi addr (Suc k) i s =
     (if pipe_empty (pipes s pi) then Ret (Finished (int i)) (wakeup (PipeWrite pi) s)
      else bindo (copyout (pagetable (myproc s)) (addr + of_nat i) [pipe_peek (pipes s pi)] s) (\<lambda>r s.
        if r = -1 then Ret (Finished (if i = 0 then -1 else int i)) (wakeup (PipeWrite pi) s)
        else piperead_from pi addr k (Suc i) (upd_pipe pi pipe_skip s)))"

definition piperead :: "u64 \<Rightarrow> u64 \<Rightarrow> int \<Rightarrow> 'a kst_scheme \<Rightarrow> (io_result, 'a kst_scheme) outcome" where
  "piperead pi addr k s =
     (if pipe_empty (pipes s pi) \<and> writeopen (pipes s pi)
      then if killed (cur s) s then Ret (Finished (-1)) s else Ret (Blocked 0) (sleeping (PipeRead pi) s)
      else piperead_from pi addr (nat k) 0 s)"

text \<open>A device: its read and write routines, called as \<open>read(1, addr, n)\<close>.\<close>

type_synonym 's device = "u64 \<Rightarrow> int \<Rightarrow> 's \<Rightarrow> (io_result, 's) outcome"

text \<open>The bytes of a \<open>struct stat\<close>; the compiler leaves four bytes of padding before \<open>size\<close>.\<close>

definition stat_bytes :: "u8 list \<Rightarrow> stat \<Rightarrow> u8 list" where
  "stat_bytes pad st = le_bytes 4 (st_dev st) @ le_bytes 4 (st_ino st) @ le_bytes 2 (st_type st) @ le_bytes 2 (st_nlink st) @
     pad @ le_bytes 8 (st_size st)"

definition filestat :: "nat \<Rightarrow> u64 \<Rightarrow> 'a kst_scheme \<Rightarrow> (int, 'a kst_scheme) outcome" where
  "filestat f addr s =
     (let e = ftable s ! f in
      if ftyp e = FD_INODE \<or> ftyp e = FD_DEVICE
      then bindo (ilock (fip e) s) (\<lambda>_ s.
           let st = stati (fip e) s in
           bindo (iunlock (fip e) s) (\<lambda>_ s.
           bindo (copyout (pagetable (myproc s)) addr (stat_bytes (local_buf 4 s) st) s) (\<lambda>r s. Ret (if r < 0 then -1 else 0) s)))
      else Ret (-1) s)"

definition fileread :: "(nat \<Rightarrow> 'a kst_scheme device option) \<Rightarrow> nat \<Rightarrow> u64 \<Rightarrow> int \<Rightarrow> 'a kst_scheme \<Rightarrow> (io_result, 'a kst_scheme) outcome" where
  "fileread devsw f addr k s =
     (let e = ftable s ! f in
      if \<not> readable e then Ret (Finished (-1)) s
      else case ftyp e of
        FD_PIPE \<Rightarrow> piperead (fpipe e) addr k s
      | FD_DEVICE \<Rightarrow>
          if sint (fmajor e) < 0 \<or> sint (fmajor e) \<ge> NDEV then Ret (Finished (-1)) s
          else (case devsw (unat (fmajor e)) of None \<Rightarrow> Ret (Finished (-1)) s | Some rd \<Rightarrow> rd addr k s)
      | FD_INODE \<Rightarrow>
          bindo (ilock (fip e) s) (\<lambda>_ s.
          bindo (readi (user_sink addr) (fip e) (foff e) (of_int k) () s) (\<lambda>(r, _) s.
          let s = (if sint r > 0 then upd_file f (\<lambda>e. e\<lparr>foff := foff e + r\<rparr>) s else s) in
          bindo (iunlock (fip e) s) (\<lambda>_ s. Ret (Finished (sint r)) s)))
      | FD_NONE \<Rightarrow> Panic ''fileread'')"

text \<open>The loop of \<open>filewrite\<close>: at most \<open>max\<close> bytes in one transaction.\<close>

definition write_max :: int where
  "write_max = int ((MAXOPBLOCKS - 1 - 1 - 2) div 2 * BSIZE)"

function filewrite_from :: "nat \<Rightarrow> u64 \<Rightarrow> int \<Rightarrow> int \<Rightarrow> 'a kst_scheme \<Rightarrow> (int, 'a kst_scheme) outcome" where
  "filewrite_from f addr k i s =
     (if i < k
      then let n1 = min (k - i) write_max; ip = fip (ftable s ! f) in
        bindo (begin_op s) (\<lambda>_ s.
        bindo (ilock ip s) (\<lambda>_ s.
        bindo (writei (user_source (addr + of_int i)) ip (foff (ftable s ! f)) (of_int n1) s) (\<lambda>r s.
        let s = (if sint r > 0 then upd_file f (\<lambda>e. e\<lparr>foff := foff e + r\<rparr>) s else s) in
        bindo (iunlock ip s) (\<lambda>_ s.
        bindo (end_op s) (\<lambda>_ s.
        if sint r \<noteq> n1 then Ret i s else filewrite_from f addr k (i + n1) s)))))
      else Ret i s)"
  by pat_completeness auto
termination
  by (relation "measure (\<lambda>(_, _, k, i, _). nat (k - i))") (auto simp: write_max_def MAXOPBLOCKS_def BSIZE_def)

declare filewrite_from.simps [simp del]

definition filewrite :: "(nat \<Rightarrow> 'a kst_scheme device option) \<Rightarrow> nat \<Rightarrow> u64 \<Rightarrow> int \<Rightarrow> 'a kst_scheme \<Rightarrow> (io_result, 'a kst_scheme) outcome" where
  "filewrite devsw f addr k s =
     (let e = ftable s ! f in
      if \<not> writable e then Ret (Finished (-1)) s
      else case ftyp e of
        FD_PIPE \<Rightarrow> pipewrite (fpipe e) addr k 0 s
      | FD_DEVICE \<Rightarrow>
          if sint (fmajor e) < 0 \<or> sint (fmajor e) \<ge> NDEV then Ret (Finished (-1)) s
          else (case devsw (unat (fmajor e)) of None \<Rightarrow> Ret (Finished (-1)) s | Some wr \<Rightarrow> wr addr k s)
      | FD_INODE \<Rightarrow>
          bindo (filewrite_from f addr k 0 s) (\<lambda>i s. Ret (Finished (if i = k then k else -1)) s)
      | FD_NONE \<Rightarrow> Panic ''filewrite'')"

section \<open>A pipe is a bounded queue\<close>

definition pipe_inv :: "pipe \<Rightarrow> bool" where
  "pipe_inv p \<longleftrightarrow> length (pdata p) = PIPESIZE \<and> unat (nwrite p - nread p) \<le> PIPESIZE"

definition pipe_bytes :: "pipe \<Rightarrow> u8 list" where
  "pipe_bytes p = ring (pdata p) (unat (nread p)) (unat (nwrite p - nread p))"

lemma pipe_full_iff: "pipe_full p \<longleftrightarrow> length (pipe_bytes p) = PIPESIZE"
proof -
  have "pipe_full p \<longleftrightarrow> nwrite p - nread p = 512" by (auto simp: pipe_full_def PIPESIZE_def algebra_simps)
  also have "\<dots> \<longleftrightarrow> unat (nwrite p - nread p) = unat (512 :: u32)" by (rule word_unat_eq_iff)
  finally show ?thesis by (simp add: pipe_bytes_def PIPESIZE_def)
qed

lemma pipe_empty_iff: "pipe_empty p \<longleftrightarrow> pipe_bytes p = []"
proof -
  have "pipe_empty p \<longleftrightarrow> nwrite p - nread p = 0" by (auto simp: pipe_empty_def)
  also have "\<dots> \<longleftrightarrow> length (pipe_bytes p) = 0" by (simp add: pipe_bytes_def unat_eq_0)
  finally show ?thesis by simp
qed

lemma unat_Suc_small: "unat x < 512 \<Longrightarrow> unat (x + 1 :: u32) = Suc (unat x)"
  by (simp add: unat_word_ariths)

lemma pipe_index: "unat (nwrite p) mod PIPESIZE = (unat (nread p) + unat (nwrite p - nread p)) mod PIPESIZE"
proof -
  have "unat (nwrite p) = unat (nread p + (nwrite p - nread p))" by simp
  also have "\<dots> = (unat (nread p) + unat (nwrite p - nread p)) mod 2 ^ 32" by (simp only: unat_word_ariths(1)) simp
  finally have "unat (nwrite p) = (unat (nread p) + unat (nwrite p - nread p)) mod 2 ^ 32" .
  then show ?thesis by (simp add: PIPESIZE_def mod_mod_cancel)
qed

lemma pipe_put_bytes:
  assumes "pipe_inv p" "\<not> pipe_full p"
  shows "pipe_inv (pipe_put c p)" "pipe_bytes (pipe_put c p) = pipe_bytes p @ [c]"
proof -
  let ?k = "unat (nwrite p - nread p)"
  have k: "?k < 512" using assms by (simp add: pipe_inv_def pipe_full_iff pipe_bytes_def PIPESIZE_def)
  have e: "nwrite p + 1 - nread p = (nwrite p - nread p) + 1" by simp
  have u: "unat (nwrite p + 1 - nread p) = Suc ?k" unfolding e by (rule unat_Suc_small [OF k])
  show "pipe_inv (pipe_put c p)" using assms k u by (simp add: pipe_inv_def pipe_put_def PIPESIZE_def)
  have "length (pdata p) = 512" using assms(1) by (simp add: pipe_inv_def PIPESIZE_def)
  then show "pipe_bytes (pipe_put c p) = pipe_bytes p @ [c]"
    using ring_put [of ?k "pdata p" "unat (nread p)" c] k pipe_index [of p]
    by (simp add: pipe_bytes_def pipe_put_def u PIPESIZE_def)
qed

lemma pipe_skip_bytes:
  assumes "pipe_inv p" "\<not> pipe_empty p"
  shows "pipe_inv (pipe_skip p)" "pipe_bytes p = pipe_peek p # pipe_bytes (pipe_skip p)"
proof -
  define k where "k = unat (nwrite p - (nread p + 1))"
  have d: "nwrite p - nread p \<noteq> 0" using assms(2) by (auto simp: pipe_empty_def)
  have "nwrite p - (nread p + 1) = nwrite p - nread p - 1" by (rule diff_diff_eq [symmetric])
  then have "k = unat (nwrite p - nread p) - 1" unfolding k_def using d by (simp only: unat_minus_one not_False_eq_True)
  moreover have "0 < unat (nwrite p - nread p)" using d by (simp only: unat_gt_0 not_False_eq_True)
  ultimately have k: "unat (nwrite p - nread p) = Suc k" by linarith
  have l: "length (pdata p) = 512" using assms(1) by (simp add: pipe_inv_def PIPESIZE_def)
  show "pipe_inv (pipe_skip p)" using assms(1) k by (simp add: pipe_inv_def pipe_skip_def k_def [symmetric])
  have "unat (nread p + 1) mod 512 = Suc (unat (nread p)) mod 512" by (simp add: unat_word_ariths mod_mod_cancel)
  then have "ring (pdata p) (unat (nread p + 1)) k = ring (pdata p) (Suc (unat (nread p))) k"
    by (metis l ring_mod)
  then show "pipe_bytes p = pipe_peek p # pipe_bytes (pipe_skip p)"
    by (simp add: pipe_bytes_def k ring_Suc pipe_peek_def pipe_skip_def k_def [symmetric] l PIPESIZE_def)
qed

definition pipe_blank :: pipe where
  "pipe_blank = \<lparr>pdata = replicate PIPESIZE 0, nread = 0, nwrite = 0, readopen = True, writeopen = True\<rparr>"

definition pipe_enq :: "u8 \<Rightarrow> pipe \<Rightarrow> pipe option" where
  "pipe_enq c p = (if pipe_full p then None else Some (pipe_put c p))"

definition pipe_deq :: "pipe \<Rightarrow> (u8 \<times> pipe) option" where
  "pipe_deq p = (if pipe_empty p then None else Some (pipe_peek p, pipe_skip p))"

interpretation pq: bounded_fifo pipe_blank pipe_enq pipe_deq pipe_inv pipe_bytes PIPESIZE
proof (unfold_locales, goal_cases)
  case 1
  show ?case by (simp add: pipe_inv_def pipe_bytes_def pipe_blank_def ring_def)
next
  case (2 q x)
  then show ?case by (simp add: pipe_enq_def pipe_full_iff)
next
  case (3 q x)
  then show ?case by (simp add: pipe_enq_def pipe_full_iff pipe_put_bytes)
next
  case (4 q)
  then show ?case by (simp add: pipe_deq_def pipe_empty_iff)
next
  case (5 q x xs)
  then show ?case using pipe_skip_bytes [of q] by (simp add: pipe_deq_def pipe_empty_iff)
next
  case (6 q)
  then show ?case by (simp add: pipe_inv_def pipe_bytes_def)
qed

section \<open>Transfers through a pipe\<close>

interpretation pipes_frame: page_frame "\<lambda>t. pipes t = v" for v
  by unfold_locales (simp_all add: upd_proc_def)

lemma pipes_simps [simp]:
  "pipes (wakeup ch s) = pipes s" "pipes (sleeping ch s) = pipes s" "pipes (upd_pipe pi f s) pi = f (pipes s pi)"
  by (simp_all add: wakeup_def sleeping_def upd_cur_def upd_proc_def upd_pipe_def)

lemma copyin_pipes: "copyin pt va k s = Ret x t \<Longrightarrow> pipes t = pipes s"
  using pipes_frame.copyin_stays [of s "pipes s" pt va k] by auto

lemma copyout_pipes: "copyout pt va bs s = Ret x t \<Longrightarrow> pipes t = pipes s"
  using pipes_frame.copyout_stays [of s "pipes s" pt va bs] by auto

definition moved :: "io_result \<Rightarrow> nat \<Rightarrow> bool" where
  "moved r j \<longleftrightarrow> r = Finished (-1) \<or> r = Finished (int j) \<or> r = Blocked j"

lemma pipewrite_from_appends:
  assumes "pipe_inv (pipes s pi)" "pipewrite_from pi addr k i s = Ret r t"
  shows "\<exists>bs. pipe_bytes (pipes t pi) = pipe_bytes (pipes s pi) @ bs \<and> pipe_inv (pipes t pi) \<and> length bs \<le> k \<and>
    moved r (i + length bs) \<and> (r = Blocked (i + length bs) \<longrightarrow> length (pipe_bytes (pipes t pi)) = PIPESIZE)"
  using assms
proof (induction pi addr k i s rule: pipewrite_from.induct)
  case (1 pi addr i s)
  then show ?case by (auto simp: moved_def)
next
  case (2 pi addr k i s)
  let ?pt = "pagetable (myproc s)" and ?a = "addr + of_nat i"
  consider (shut) "\<not> readopen (pipes s pi) \<or> killed (cur s) s" | (full) "readopen (pipes s pi)" "\<not> killed (cur s) s" "pipe_full (pipes s pi)"
    | (room) "readopen (pipes s pi)" "\<not> killed (cur s) s" "\<not> pipe_full (pipes s pi)" by blast
  then show ?case
  proof cases
    case room
    then obtain r0 bs0 u where c: "copyin ?pt ?a 1 s = Ret (r0, bs0) u"
      using 2(3) by (auto simp: bindo_Ret_iff)
    note pu = copyin_pipes [OF c]
    show ?thesis
    proof (cases "r0 = -1")
      case True
      then show ?thesis using 2(2,3) room c pu by (auto simp: moved_def)
    next
      case False
      let ?u = "upd_pipe pi (pipe_put (bs0 ! 0)) u"
      have w: "pipewrite_from pi addr k (Suc i) ?u = Ret r t" using 2(3) room c False by simp
      have i: "pipe_inv (pipes ?u pi)" "pipe_bytes (pipes ?u pi) = pipe_bytes (pipes s pi) @ [bs0 ! 0]"
        using pipe_put_bytes [of "pipes s pi" "bs0 ! 0"] 2(2) room(3) pu by simp_all
      obtain bs where bs: "pipe_bytes (pipes t pi) = pipe_bytes (pipes ?u pi) @ bs" "pipe_inv (pipes t pi)" "length bs \<le> k"
        "moved r (Suc i + length bs)" "r = Blocked (Suc i + length bs) \<longrightarrow> length (pipe_bytes (pipes t pi)) = PIPESIZE"
        using 2(1) [OF _ _ c refl False i(1) w] room by auto
      show ?thesis by (rule exI [of _ "bs0 ! 0 # bs"]) (use bs i(2) in auto)
    qed
  qed (use 2(2,3) in \<open>auto simp: moved_def pipe_full_iff\<close>)
qed


text \<open>A full pipe whose counters are about to wrap around.\<close>

definition full_pipe :: kst where
  "full_pipe = (sample_kst [sample_proc])\<lparr>pipes := (\<lambda>_. \<lparr>pdata = replicate PIPESIZE 7, nread = 0xFFFFFF00, nwrite = 0x100,
     readopen = True, writeopen = True\<rparr>)\<rparr>"


lemma piperead_from_takes:
  assumes "pipe_inv (pipes s pi)" "piperead_from pi addr k i s = Ret r t"
  shows "\<exists>bs. pipe_bytes (pipes s pi) = bs @ pipe_bytes (pipes t pi) \<and> pipe_inv (pipes t pi) \<and> length bs \<le> k \<and>
    (r = Finished (int (i + length bs)) \<or> r = Finished (-1) \<and> bs = [] \<and> i = 0)"
  using assms
proof (induction pi addr k i s rule: piperead_from.induct)
  case (2 pi addr k i s)
  let ?pt = "pagetable (myproc s)" and ?a = "addr + of_nat i" and ?c = "pipe_peek (pipes s pi)"
  show ?case
  proof (cases "pipe_empty (pipes s pi)")
    case False
    then obtain r0 u where c: "copyout ?pt ?a [?c] s = Ret r0 u" using 2(3) by (auto simp: bindo_Ret_iff)
    note pu = copyout_pipes [OF c]
    show ?thesis
    proof (cases "r0 = -1")
      case True
      then show ?thesis using 2(2,3) False c pu by (auto split: if_splits)
    next
      case no: False
      let ?u = "upd_pipe pi pipe_skip u"
      have w: "piperead_from pi addr k (Suc i) ?u = Ret r t" using 2(3) False c no by simp
      have i: "pipe_inv (pipes ?u pi)" "pipe_bytes (pipes s pi) = ?c # pipe_bytes (pipes ?u pi)"
        using pipe_skip_bytes [of "pipes s pi"] 2(2) False pu by simp_all
      obtain bs where bs: "pipe_bytes (pipes ?u pi) = bs @ pipe_bytes (pipes t pi)" "pipe_inv (pipes t pi)" "length bs \<le> k"
        "r = Finished (int (Suc i + length bs))"
        using 2(1) [OF False c no i(1) w] by auto
      show ?thesis by (rule exI [of _ "?c # bs"]) (use bs i(2) in auto)
    qed
  qed (use 2(2,3) in auto)
qed auto

text \<open>
  C13: \<open>piperead\<close> takes from the front of the pipe exactly as many bytes as it reports, and reports
  end of file (zero bytes) for a positive count only when the pipe is empty and its write end is closed.
\<close>

theorem piperead_takes:
  assumes "pipe_inv (pipes s pi)" and "piperead pi addr k s = Ret (Finished v) t"
  shows "\<exists>bs. pipe_bytes (pipes s pi) = bs @ pipe_bytes (pipes t pi) \<and> pipe_inv (pipes t pi) \<and> length bs \<le> nat k \<and>
    (v = int (length bs) \<or> v = -1 \<and> bs = []) \<and>
    (v = 0 \<and> 0 < k \<longrightarrow> pipe_bytes (pipes s pi) = [] \<and> \<not> writeopen (pipes s pi))"
proof (cases "pipe_empty (pipes s pi) \<and> writeopen (pipes s pi)")
  case True
  then show ?thesis using assms by (auto simp: piperead_def split: if_splits)
next
  case False
  then have w: "piperead_from pi addr (nat k) 0 s = Ret (Finished v) t"
    using assms(2) by (auto simp: piperead_def split: if_splits)
  obtain bs where bs: "pipe_bytes (pipes s pi) = bs @ pipe_bytes (pipes t pi)" "pipe_inv (pipes t pi)" "length bs \<le> nat k"
    "v = int (length bs) \<or> v = -1 \<and> bs = []" using piperead_from_takes [OF assms(1) w] by auto
  have "pipe_empty (pipes s pi)" if v0: "v = 0" and k0: "0 < k"
  proof (rule ccontr)
    assume ne: "\<not> pipe_empty (pipes s pi)"
    obtain j where j: "nat k = Suc j" using k0 by (cases "nat k") auto
    obtain r0 u where c: "copyout (pagetable (myproc s)) (addr + of_nat 0) [pipe_peek (pipes s pi)] s = Ret r0 u"
      using w ne by (auto simp: j bindo_Ret_iff)
    show False
    proof (cases "r0 = -1")
      case True
      then show False using w ne c v0 by (simp add: j)
    next
      case no: False
      have "pipe_inv (pipes (upd_pipe pi pipe_skip u) pi)"
        using pipe_skip_bytes [of "pipes s pi"] assms(1) ne copyout_pipes [OF c] by simp
      moreover have "piperead_from pi addr j (Suc 0) (upd_pipe pi pipe_skip u) = Ret (Finished v) t" using w ne c no by (simp add: j)
      ultimately show False using piperead_from_takes [of "upd_pipe pi pipe_skip u" pi addr j "Suc 0"] v0 by auto
    qed
  qed
  then show ?thesis using bs False by (auto simp: pipe_empty_iff)
qed

theorem piperead_takes_witness:
  "\<exists>t bs. piperead 0 0 8 ((sample_kst [sample_proc])\<lparr>pipes := (\<lambda>_. pipe_blank\<lparr>writeopen := False\<rparr>)\<rparr>) = Ret (Finished 0) t \<and>
    pipe_inv (pipes t 0) \<and> bs @ pipe_bytes (pipes t 0) = []"
proof -
  let ?s = "(sample_kst [sample_proc])\<lparr>pipes := (\<lambda>_. pipe_blank\<lparr>writeopen := False\<rparr>)\<rparr>"
  have i: "pipe_inv (pipes ?s 0)" by (simp add: pipe_inv_def pipe_blank_def PIPESIZE_def)
  have "piperead_from 0 0 (Suc 7) 0 ?s = Ret (Finished 0) (wakeup (PipeWrite 0) ?s)"
    by (subst piperead_from.simps) (simp add: pipe_empty_def pipe_blank_def)
  then have w: "piperead 0 0 8 ?s = Ret (Finished 0) (wakeup (PipeWrite 0) ?s)" by (simp add: piperead_def pipe_blank_def)
  show ?thesis using piperead_takes [OF i w] w by auto
qed

end
