(* ===== verification/Proc.thy ===== *)
theory Proc
  imports File
begin

text \<open>
  The life of a process (kernel/proc.c): allocation and release of its entry in the
  table, \<open>fork\<close>, \<open>exit\<close> and \<open>wait\<close>. \<open>kexit\<close> runs up to the final call of \<open>sched\<close>, after which
  the process never runs again.
\<close>

definition freeproc :: "nat \<Rightarrow> 'a kst_scheme \<Rightarrow> (unit, 'a kst_scheme) outcome" where
  "freeproc k s =
     (let p = procs s ! k in
      bindo (if trapframe p \<noteq> 0 then kfree (trapframe p) s else Ret () s) (\<lambda>_ s.
      let s = upd_proc k (\<lambda>p. p\<lparr>trapframe := 0\<rparr>) s in
      bindo (if pagetable p \<noteq> 0 then proc_freepagetable (pagetable p) (psz p) s else Ret () s) (\<lambda>_ s.
      let s = upd_proc k (\<lambda>p. p\<lparr>pagetable := 0, psz := 0, pid := 0, parent := None, pname := (pname p)[0 := 0],
            pchan := NoChan, killed_flag := False, xstate := 0, pstate := UNUSED\<rparr>) s in
      case exec_ip p of None \<Rightarrow> Ret () s | Some ip \<Rightarrow> iput ip s)))"

definition allocproc :: "'a kst_scheme \<Rightarrow> (nat option, 'a kst_scheme) outcome" where
  "allocproc s =
     (case find (\<lambda>k. pstate (procs s ! k) = UNUSED) [0..<length (procs s)] of
        None \<Rightarrow> Ret None s
      | Some k \<Rightarrow>
          let (pd, s) = allocpid s;
              s = upd_proc k (\<lambda>p. p\<lparr>pid := pd, pstate := USED, next_fifo_seq := 0, num_resident := 0, num_swapped := 0,
                swap_path := (swap_path p)[0 := 0], text_end := 0, text_start := 0, data_start := 0, data_end := 0,
                stack_top := 0, num_phdrs := 0, swap_slots := replicate MAX_SWAP_PAGES False\<rparr>) s in
          bindo (kalloc s) (\<lambda>tf s.
          let s = upd_proc k (\<lambda>p. p\<lparr>trapframe := tf\<rparr>) s in
          if tf = 0 then bindo (freeproc k s) (\<lambda>_ s. Ret None s)
          else bindo (proc_pagetable k s) (\<lambda>pt s.
            let s = upd_proc k (\<lambda>p. p\<lparr>pagetable := pt\<rparr>) s in
            if pt = 0 then bindo (freeproc k s) (\<lambda>_ s. Ret None s)
            else Ret (Some k) (upd_proc k (\<lambda>p. p\<lparr>context_regs := [sym s ''forkret'', kstack p + PGSIZE] @ replicate 12 0\<rparr>) s))))"

definition userinit :: "'a kst_scheme \<Rightarrow> (unit, 'a kst_scheme) outcome" where
  "userinit s =
     bindo (allocproc s) (\<lambda>p s.
     case p of
       None \<Rightarrow> Panic ''undefined: allocproc''
     | Some k \<Rightarrow>
         let s = s\<lparr>initproc := k\<rparr> in
         bindo (namei 0 [slash] s) (\<lambda>ip s. Ret () (upd_proc k (\<lambda>p. p\<lparr>cwd := ip, pstate := RUNNABLE\<rparr>) s)))"

definition growproc :: "int \<Rightarrow> 'a kst_scheme \<Rightarrow> (int, 'a kst_scheme) outcome" where
  "growproc k s =
     (let p = myproc s; sz = psz p in
      if k > 0 then
        if sz + of_int k > TRAPFRAME then Ret (-1) s
        else bindo (uvmalloc (pagetable p) sz (sz + of_int k) PTE_W s) (\<lambda>sz s.
          if sz = 0 then Ret (-1) s else Ret 0 (upd_cur (\<lambda>p. p\<lparr>psz := sz\<rparr>) s))
      else if k < 0 then
        bindo (uvmdealloc (pagetable p) sz (sz + of_int k) s) (\<lambda>sz s. Ret 0 (upd_cur (\<lambda>p. p\<lparr>psz := sz\<rparr>) s))
      else Ret 0 (upd_cur (\<lambda>p. p\<lparr>psz := sz\<rparr>) s))"

section \<open>Fork\<close>

text \<open>The fields \<open>kfork\<close> copies, and the duplicated file descriptors.\<close>

definition fork_copy :: "proc \<Rightarrow> proc \<Rightarrow> proc" where
  "fork_copy p np = np\<lparr>psz := psz p, heap_start := heap_start p, num_resident := num_resident p,
     next_fifo_seq := next_fifo_seq p, num_swapped := num_swapped p,
     resident_pages := (\<lambda>i. if i < nat (num_resident p) then resident_pages p i else resident_pages np i),
     swapped_pages := (\<lambda>i. if i < nat (num_swapped p) then swapped_pages p i else swapped_pages np i),
     swap_slots := swap_slots p\<rparr>"

definition fork_file :: "nat \<Rightarrow> nat \<Rightarrow> 'a kst_scheme \<Rightarrow> (unit, 'a kst_scheme) outcome" where
  "fork_file k i s =
     (case ofile (myproc s) ! i of
        None \<Rightarrow> Ret () s
      | Some f \<Rightarrow> bindo (filedup f s) (\<lambda>f s. Ret () (upd_proc k (\<lambda>np. np\<lparr>ofile := (ofile np)[i := Some f]\<rparr>) s)))"

definition kfork :: "'a kst_scheme \<Rightarrow> (int, 'a kst_scheme) outcome" where
  "kfork s =
     bindo (allocproc s) (\<lambda>np s.
     case np of
       None \<Rightarrow> Ret (-1) s
     | Some k \<Rightarrow>
         let p = myproc s in
         bindo (uvmcopy (pagetable p) (pagetable (procs s ! k)) (psz p) s) (\<lambda>r s.
         if r < 0 then bindo (freeproc k s) (\<lambda>_ s. Ret (-1) s)
         else
           let s = s\<lparr>phys := mwrite (phys s) (trapframe (procs s ! k)) (mread (phys s) (trapframe p) 288)\<rparr>;
               s = tf_put k TF_a0 0 (upd_proc k (fork_copy p) s) in
           bindo (forM [0..<NOFILE] (fork_file k) s) (\<lambda>_ s.
           case cwd p of
             None \<Rightarrow> Panic ''undefined: cwd''
           | Some c \<Rightarrow>
               let s = upd_proc k (\<lambda>np. np\<lparr>cwd := Some c\<rparr>) (idup c s);
                   s = (case exec_ip p of None \<Rightarrow> s | Some e \<Rightarrow> upd_proc k (\<lambda>np. np\<lparr>exec_ip := Some e\<rparr>) (idup e s));
                   s = upd_proc k (\<lambda>np. np\<lparr>pname := blk_put (pname np) 0 (safestrcpy (cptr_of (pname p)) 16),
                         parent := Some (cur s), pstate := RUNNABLE\<rparr>) s in
               Ret (pid (procs s ! k)) s)))"

section \<open>Exit and wait\<close>

definition close_fd :: "nat \<Rightarrow> 'a kst_scheme \<Rightarrow> (unit, 'a kst_scheme) outcome" where
  "close_fd fd s =
     (case ofile (myproc s) ! fd of
        None \<Rightarrow> Ret () s
      | Some f \<Rightarrow> bindo (fileclose f s) (\<lambda>_ s. Ret () (upd_cur (\<lambda>p. p\<lparr>ofile := (ofile p)[fd := None]\<rparr>) s)))"

definition drop_swap_file :: "'a kst_scheme \<Rightarrow> (unit, 'a kst_scheme) outcome" where
  "drop_swap_file s =
     (let p = myproc s in
      case swap_file p of
        None \<Rightarrow> Ret () s
      | Some f \<Rightarrow>
          bindo (begin_op (log_event (SWAPCLEANUP (pid p) (num_swapped p)) s)) (\<lambda>_ s.
          bindo (itrunc (fip (ftable s ! f)) s) (\<lambda>_ s.
          bindo (fileclose f s) (\<lambda>_ s.
          end_op (upd_cur (\<lambda>p. p\<lparr>swap_file := None\<rparr>) s)))))"

definition chan_of :: "nat option \<Rightarrow> chan" where
  "chan_of p = (case p of None \<Rightarrow> NoChan | Some k \<Rightarrow> ProcChan k)"

definition kexit :: "int \<Rightarrow> 'a kst_scheme \<Rightarrow> (unit, 'a kst_scheme) outcome" where
  "kexit status s =
     (if cur s = initproc s then Panic ''init exiting''
      else
        bindo (forM [0..<NOFILE] close_fd s) (\<lambda>_ s.
        bindo (drop_swap_file s) (\<lambda>_ s.
        bindo (begin_op s) (\<lambda>_ s.
        case cwd (myproc s) of
          None \<Rightarrow> Panic ''undefined: cwd''
        | Some c \<Rightarrow>
            bindo (iput c s) (\<lambda>_ s.
            bindo (end_op s) (\<lambda>_ s.
            let s = reparent (cur s) (upd_cur (\<lambda>p. p\<lparr>cwd := None\<rparr>) s);
                s = wakeup (chan_of (parent (myproc s))) s in
            Ret () (upd_cur (\<lambda>p. p\<lparr>xstate := status, pstate := ZOMBIE\<rparr>) s)))))))"

text \<open>
  One round of \<open>kwait\<close>: it ends with a child collected, with an error, or asleep
  until a child exits, when it starts again.
\<close>

definition kwait :: "u64 \<Rightarrow> 'a kst_scheme \<Rightarrow> (int, 'a kst_scheme) outcome" where
  "kwait addr s =
     (let me = cur s; kids = filter (\<lambda>k. parent (procs s ! k) = Some me) [0..<length (procs s)] in
      case find (\<lambda>k. pstate (procs s ! k) = ZOMBIE) kids of
        Some k \<Rightarrow>
          let pd = pid (procs s ! k) in
          bindo (if addr \<noteq> 0 then copyout (pagetable (myproc s)) addr (le_bytes 4 (of_int (xstate (procs s ! k)) :: u32)) s
                 else Ret 0 s) (\<lambda>r s.
          if r < 0 then Ret (-1) s
          else bindo (freeproc k s) (\<lambda>_ s. Ret pd s))
      | None \<Rightarrow>
          if kids = [] \<or> killed me s then Ret (-1) s
          else sleep_on (ProcChan me) s)"

end
