(* ===== verification/Sysfile.thy ===== *)
theory Sysfile
  imports Proc
begin

text \<open>
  The arguments of system calls (kernel/syscall.c) and the file-system calls of
  kernel/sysfile.c, \<open>sys_exec\<close> apart. A system call returns \<open>Finished\<close> with its value, or \<open>Blocked\<close> when a
  pipe or a device makes it wait.
\<close>

unbundle bit_operations_syntax

section \<open>Arguments\<close>

definition fetchaddr :: "u64 \<Rightarrow> 'a kst_scheme \<Rightarrow> (u64 option, 'a kst_scheme) outcome" where
  "fetchaddr addr s =
     (let p = myproc s in
      if addr \<ge> psz p \<or> addr + 8 > psz p then Ret None s
      else bindo (copyin (pagetable p) addr 8 s) (\<lambda>(r, bs) s. Ret (if r \<noteq> 0 then None else Some (le_word bs)) s))"

text \<open>The length of the string or -1, and the bytes stored in the buffer.\<close>

definition fetchstr :: "u64 \<Rightarrow> nat \<Rightarrow> 'a kst_scheme \<Rightarrow> (int \<times> u8 list, 'a kst_scheme) outcome" where
  "fetchstr addr mx s =
     bindo (copyinstr (pagetable (myproc s)) addr mx s) (\<lambda>(r, bs) s.
     Ret (if r < 0 then -1 else int (length (str_of bs)), bs) s)"

definition argraw :: "nat \<Rightarrow> 'a kst_scheme \<Rightarrow> u64" where
  "argraw i s = tf_get (cur s) ([TF_a0, TF_a1, TF_a2, TF_a3, TF_a4, TF_a5] ! i) s"

definition argint :: "nat \<Rightarrow> 'a kst_scheme \<Rightarrow> int" where
  "argint i s = sint (ucast (argraw i s) :: u32)"

definition argaddr :: "nat \<Rightarrow> 'a kst_scheme \<Rightarrow> u64" where
  "argaddr i s = argraw i s"

definition argstr :: "nat \<Rightarrow> nat \<Rightarrow> 'a kst_scheme \<Rightarrow> (int \<times> u8 list, 'a kst_scheme) outcome" where
  "argstr i mx s = fetchstr (argaddr i s) mx s"

definition argfd :: "nat \<Rightarrow> 'a kst_scheme \<Rightarrow> (nat \<times> nat) option" where
  "argfd i s =
     (let fd = argint i s in
      if fd < 0 \<or> fd \<ge> int NOFILE then None
      else case ofile (myproc s) ! nat fd of None \<Rightarrow> None | Some f \<Rightarrow> Some (nat fd, f))"

definition fdalloc :: "nat \<Rightarrow> 'a kst_scheme \<Rightarrow> nat option \<times> 'a kst_scheme" where
  "fdalloc f s =
     (case find (\<lambda>fd. ofile (myproc s) ! fd = None) [0..<NOFILE] of
        None \<Rightarrow> (None, s)
      | Some fd \<Rightarrow> (Some fd, upd_cur (\<lambda>p. p\<lparr>ofile := (ofile p)[fd := Some f]\<rparr>) s))"

abbreviation fin :: "int \<Rightarrow> 's \<Rightarrow> (io_result, 's) outcome" where
  "fin v s \<equiv> Ret (Finished v) s"

section \<open>Calls on descriptors\<close>

definition sys_dup :: "'a kst_scheme \<Rightarrow> (io_result, 'a kst_scheme) outcome" where
  "sys_dup s =
     (case argfd 0 s of
        None \<Rightarrow> fin (-1) s
      | Some (_, f) \<Rightarrow>
          (case fdalloc f s of
             (None, s) \<Rightarrow> fin (-1) s
           | (Some fd, s) \<Rightarrow> bindo (filedup f s) (\<lambda>_ s. fin (int fd) s)))"

definition sys_read :: "(nat \<Rightarrow> 'a kst_scheme device option) \<Rightarrow> 'a kst_scheme \<Rightarrow> (io_result, 'a kst_scheme) outcome" where
  "sys_read devsw s =
     (case argfd 0 s of None \<Rightarrow> fin (-1) s | Some (_, f) \<Rightarrow> fileread devsw f (argaddr 1 s) (argint 2 s) s)"

definition sys_write :: "(nat \<Rightarrow> 'a kst_scheme device option) \<Rightarrow> 'a kst_scheme \<Rightarrow> (io_result, 'a kst_scheme) outcome" where
  "sys_write devsw s =
     (case argfd 0 s of None \<Rightarrow> fin (-1) s | Some (_, f) \<Rightarrow> filewrite devsw f (argaddr 1 s) (argint 2 s) s)"

definition sys_close :: "'a kst_scheme \<Rightarrow> (io_result, 'a kst_scheme) outcome" where
  "sys_close s =
     (case argfd 0 s of
        None \<Rightarrow> fin (-1) s
      | Some (fd, f) \<Rightarrow>
          bindo (fileclose f (upd_cur (\<lambda>p. p\<lparr>ofile := (ofile p)[fd := None]\<rparr>) s)) (\<lambda>_ s. fin 0 s))"

definition sys_fstat :: "'a kst_scheme \<Rightarrow> (io_result, 'a kst_scheme) outcome" where
  "sys_fstat s =
     (case argfd 0 s of
        None \<Rightarrow> fin (-1) s
      | Some (_, f) \<Rightarrow> bindo (filestat f (argaddr 1 s) s) (\<lambda>r s. fin r s))"

definition clear_fd :: "nat \<Rightarrow> 'a kst_scheme \<Rightarrow> 'a kst_scheme" where
  "clear_fd fd s = upd_cur (\<lambda>p. p\<lparr>ofile := (ofile p)[fd := None]\<rparr>) s"

definition close_both :: "nat \<Rightarrow> nat \<Rightarrow> string \<Rightarrow> 'a kst_scheme \<Rightarrow> (io_result, 'a kst_scheme) outcome" where
  "close_both rf wfl msg s =
     bindo (fileclose rf s) (\<lambda>_ s. bindo (fileclose wfl s) (\<lambda>_ s. fin (-1) (log_event (MESSAGE msg) s)))"

text \<open>The part of \<open>sys_pipe\<close> after the pipe is made: two descriptors, stored at \<open>fdarray\<close>.\<close>

definition pipe_fds :: "u64 \<Rightarrow> nat \<Rightarrow> nat \<Rightarrow> 'a kst_scheme \<Rightarrow> (io_result, 'a kst_scheme) outcome" where
  "pipe_fds fdarray rf wfl s =
     (case fdalloc rf s of
        (None, s) \<Rightarrow> close_both rf wfl ''Fd alloc failed'' s
      | (Some fd0, s) \<Rightarrow>
          (case fdalloc wfl s of
             (None, s) \<Rightarrow> close_both rf wfl ''Fd alloc failed'' (clear_fd fd0 s)
           | (Some fd1, s) \<Rightarrow>
               bindo (copyout (pagetable (myproc s)) fdarray (le_bytes 4 (of_nat fd0 :: u32)) s) (\<lambda>r0 s.
               bindo (if r0 < 0 then Ret r0 s
                      else copyout (pagetable (myproc s)) (fdarray + 4) (le_bytes 4 (of_nat fd1 :: u32)) s) (\<lambda>r1 s.
               if r1 < 0 then close_both rf wfl ''copyout failed'' (clear_fd fd1 (clear_fd fd0 s))
               else fin 0 s))))"

definition sys_pipe :: "'a kst_scheme \<Rightarrow> (io_result, 'a kst_scheme) outcome" where
  "sys_pipe s =
     (let fdarray = argaddr 0 s in
      bindo (pipealloc s) (\<lambda>r s.
      case r of
        None \<Rightarrow> fin (-1) (log_event (MESSAGE ''pipealloc failed'') s)
      | Some (rf, wfl) \<Rightarrow> pipe_fds fdarray rf wfl s))"

section \<open>Calls on paths\<close>

abbreviation itype :: "nat \<Rightarrow> 'a fsst_scheme \<Rightarrow> u16" where
  "itype ip s \<equiv> dtype (din (itable s ! ip))"

definition end_with :: "int \<Rightarrow> 'a kst_scheme \<Rightarrow> (io_result, 'a kst_scheme) outcome" where
  "end_with v s = bindo (end_op s) (\<lambda>_ s. fin v s)"

definition drop_ip :: "nat \<Rightarrow> 'a kst_scheme \<Rightarrow> (io_result, 'a kst_scheme) outcome" where
  "drop_ip ip s = bindo (iunlockput ip s) (\<lambda>_ s. end_with (-1) s)"

definition sys_link :: "'a kst_scheme \<Rightarrow> (io_result, 'a kst_scheme) outcome" where
  "sys_link s =
     (let bad = (\<lambda>ip s.
            bindo (ilock ip s) (\<lambda>_ s.
            bindo (iupdate ip (upd_din ip (\<lambda>d. d\<lparr>dnlink := dnlink d - 1\<rparr>) s)) (\<lambda>_ s. drop_ip ip s))) in
      bindo (argstr 0 MAXPATH s) (\<lambda>(r, old) s.
      if r < 0 then fin (-1) s
      else bindo (argstr 1 MAXPATH s) (\<lambda>(r, new) s.
      if r < 0 then fin (-1) s
      else bindo (begin_op s) (\<lambda>_ s.
      bindo (from_cwd (str_of old) (\<lambda>c. namei c (str_of old)) s) (\<lambda>ipo s.
      case ipo of
        None \<Rightarrow> end_with (-1) s
      | Some ip \<Rightarrow>
          bindo (ilock ip s) (\<lambda>_ s.
          if itype ip s = T_DIR then drop_ip ip s
          else bindo (iupdate ip (upd_din ip (\<lambda>d. d\<lparr>dnlink := dnlink d + 1\<rparr>) s)) (\<lambda>_ s.
          bindo (iunlock ip s) (\<lambda>_ s.
          bindo (from_cwd (str_of new) (\<lambda>c. nameiparent c (str_of new) (local_buf DIRSIZ s)) s) (\<lambda>(dpo, name) s.
          case dpo of
            None \<Rightarrow> bad ip s
          | Some dp \<Rightarrow>
              bindo (ilock dp s) (\<lambda>_ s.
              bindo (if idev (itable s ! dp) \<noteq> idev (itable s ! ip) then Ret (-1) s
                     else dirlink dp name (inum (itable s ! ip)) s) (\<lambda>r s.
              bindo (iunlockput dp s) (\<lambda>_ s.
              if r < 0 then bad ip s else bindo (iput ip s) (\<lambda>_ s. end_with 0 s)))))))))))))"

fun isdirempty_from :: "nat \<Rightarrow> u32 list \<Rightarrow> u8 list \<Rightarrow> 'a fsst_scheme \<Rightarrow> (bool, 'a fsst_scheme) outcome" where
  "isdirempty_from dp [] de s = Ret True s"
| "isdirempty_from dp (off # offs) de s =
     bindo (read_dirent ''isdirempty: readi'' dp off de s) (\<lambda>de s.
     if de_inum de \<noteq> 0 then Ret False s else isdirempty_from dp offs de s)"

definition isdirempty :: "nat \<Rightarrow> 'a kst_scheme \<Rightarrow> (bool, 'a kst_scheme) outcome" where
  "isdirempty dp s = isdirempty_from dp (drop 2 (dirent_offs (dsize (din (itable s ! dp))))) (local_buf 16 s) s"

definition sys_unlink :: "'a kst_scheme \<Rightarrow> (io_result, 'a kst_scheme) outcome" where
  "sys_unlink s =
     bindo (argstr 0 MAXPATH s) (\<lambda>(r, path) s.
     if r < 0 then fin (-1) s
     else bindo (begin_op s) (\<lambda>_ s.
     bindo (from_cwd (str_of path) (\<lambda>c. nameiparent c (str_of path) (local_buf DIRSIZ s)) s) (\<lambda>(dpo, name) s.
     case dpo of
       None \<Rightarrow> end_with (-1) s
     | Some dp \<Rightarrow>
         bindo (ilock dp s) (\<lambda>_ s.
         if namecmp name [46] = 0 \<or> namecmp name [46, 46] = 0 then drop_ip dp s
         else bindo (dirlookup dp name s) (\<lambda>e s.
         case e of
           None \<Rightarrow> drop_ip dp s
         | Some (ip, off) \<Rightarrow>
             bindo (ilock ip s) (\<lambda>_ s.
             if sint (dnlink (din (itable s ! ip))) < 1 then Panic ''unlink: nlink < 1''
             else bindo (if itype ip s = T_DIR then isdirempty ip s else Ret True s) (\<lambda>empty s.
             if \<not> empty then bindo (iunlockput ip s) (\<lambda>_ s. drop_ip dp s)
             else bindo (writei (kernel_source (replicate 16 0)) dp off 16 s) (\<lambda>r s.
             if r \<noteq> 16 then Panic ''unlink: writei''
             else bindo (if itype ip s = T_DIR then iupdate dp (upd_din dp (\<lambda>d. d\<lparr>dnlink := dnlink d - 1\<rparr>) s) else Ret () s) (\<lambda>_ s.
             bindo (iunlockput dp s) (\<lambda>_ s.
             bindo (iupdate ip (upd_din ip (\<lambda>d. d\<lparr>dnlink := dnlink d - 1\<rparr>) s)) (\<lambda>_ s.
             bindo (iunlockput ip s) (\<lambda>_ s. end_with 0 s))))))))))))"

text \<open>The end of \<open>create\<close>: link the new inode, or undo it.\<close>

definition create_link :: "nat \<Rightarrow> nat \<Rightarrow> u8 list \<Rightarrow> u16 \<Rightarrow> 'a kst_scheme \<Rightarrow> (nat option, 'a kst_scheme) outcome" where
  "create_link dp ip name ty s =
     bindo (if ty = T_DIR
            then bindo (dirlink ip [46] (inum (itable s ! ip)) s) (\<lambda>r s.
              if r < 0 then Ret r s else dirlink ip [46, 46] (inum (itable s ! dp)) s)
            else Ret 0 s) (\<lambda>r s.
     bindo (if r < 0 then Ret r s else dirlink dp name (inum (itable s ! ip)) s) (\<lambda>r s.
     if r < 0
     then bindo (iupdate ip (upd_din ip (\<lambda>d. d\<lparr>dnlink := 0\<rparr>) s)) (\<lambda>_ s.
       bindo (iunlockput ip s) (\<lambda>_ s. bindo (iunlockput dp s) (\<lambda>_ s. Ret None s)))
     else bindo (if ty = T_DIR then iupdate dp (upd_din dp (\<lambda>d. d\<lparr>dnlink := dnlink d + 1\<rparr>) s) else Ret () s) (\<lambda>_ s.
       bindo (iunlockput dp s) (\<lambda>_ s. Ret (Some ip) s))))"

definition create :: "u8 list \<Rightarrow> u16 \<Rightarrow> u16 \<Rightarrow> u16 \<Rightarrow> 'a kst_scheme \<Rightarrow> (nat option, 'a kst_scheme) outcome" where
  "create path ty mj mn s =
     bindo (from_cwd path (\<lambda>c. nameiparent c path (local_buf DIRSIZ s)) s) (\<lambda>(dpo, name) s.
     case dpo of
       None \<Rightarrow> Ret None s
     | Some dp \<Rightarrow>
         bindo (ilock dp s) (\<lambda>_ s.
         bindo (dirlookup dp name s) (\<lambda>e s.
         case e of
           Some (ip, _) \<Rightarrow>
             bindo (iunlockput dp s) (\<lambda>_ s.
             bindo (ilock ip s) (\<lambda>_ s.
             if ty = T_FILE \<and> (itype ip s = T_FILE \<or> itype ip s = T_DEVICE) then Ret (Some ip) s
             else bindo (iunlockput ip s) (\<lambda>_ s. Ret None s)))
         | None \<Rightarrow>
             bindo (ialloc (idev (itable s ! dp)) ty s) (\<lambda>ipo s.
             case ipo of
               None \<Rightarrow> bindo (iunlockput dp s) (\<lambda>_ s. Ret None s)
             | Some ip \<Rightarrow>
                 bindo (ilock ip s) (\<lambda>_ s.
                 bindo (iupdate ip (upd_din ip (\<lambda>d. d\<lparr>dmajor := mj, dminor := mn, dnlink := 1\<rparr>) s)) (\<lambda>_ s.
                 create_link dp ip name ty s))))))"

definition O_RDONLY :: u32 where "O_RDONLY = 0x000"
definition O_WRONLY :: u32 where "O_WRONLY = 0x001"
definition O_RDWR :: u32 where "O_RDWR = 0x002"
definition O_CREATE :: u32 where "O_CREATE = 0x200"
definition O_TRUNC :: u32 where "O_TRUNC = 0x400"

text \<open>The first part of \<open>sys_open\<close>: the locked inode, if the path and the mode allow it.\<close>

definition open_inode :: "u8 list \<Rightarrow> u32 \<Rightarrow> 'a kst_scheme \<Rightarrow> (nat option, 'a kst_scheme) outcome" where
  "open_inode path omode s =
     (if omode AND O_CREATE \<noteq> 0 then create path T_FILE 0 0 s
      else bindo (from_cwd path (\<lambda>c. namei c path) s) (\<lambda>ipo s.
        case ipo of
          None \<Rightarrow> Ret None s
        | Some ip \<Rightarrow>
            bindo (ilock ip s) (\<lambda>_ s.
            if itype ip s = T_DIR \<and> omode \<noteq> O_RDONLY then bindo (iunlockput ip s) (\<lambda>_ s. Ret None s)
            else Ret (Some ip) s)))"

definition open_file :: "nat \<Rightarrow> u32 \<Rightarrow> inode \<Rightarrow> kfile \<Rightarrow> kfile" where
  "open_file ip omode i f =
     (if dtype (din i) = T_DEVICE then f\<lparr>ftyp := FD_DEVICE, fmajor := dmajor (din i)\<rparr> else f\<lparr>ftyp := FD_INODE, foff := 0\<rparr>)
       \<lparr>fip := ip, readable := (omode AND O_WRONLY = 0), writable := (omode AND O_WRONLY \<noteq> 0 \<or> omode AND O_RDWR \<noteq> 0)\<rparr>"

text \<open>The last part, with the file entry \<open>f\<close> for the locked inode: a descriptor for it.\<close>

definition open_fd :: "nat \<Rightarrow> nat \<Rightarrow> u32 \<Rightarrow> 'a kst_scheme \<Rightarrow> (io_result, 'a kst_scheme) outcome" where
  "open_fd f ip omode s =
     (case fdalloc f s of
        (None, s) \<Rightarrow> bindo (fileclose f s) (\<lambda>_ s. drop_ip ip s)
      | (Some fd, s) \<Rightarrow>
          let s = upd_file f (open_file ip omode (itable s ! ip)) s in
          bindo (if omode AND O_TRUNC \<noteq> 0 \<and> itype ip s = T_FILE then itrunc ip s else Ret () s) (\<lambda>_ s.
          bindo (iunlock ip s) (\<lambda>_ s. end_with (int fd) s)))"

definition sys_open :: "'a kst_scheme \<Rightarrow> (io_result, 'a kst_scheme) outcome" where
  "sys_open s =
     (let omode = of_int (argint 1 s) in
      bindo (argstr 0 MAXPATH s) (\<lambda>(r, path) s.
      if r < 0 then fin (-1) s
      else bindo (begin_op s) (\<lambda>_ s.
      bindo (open_inode (str_of path) omode s) (\<lambda>ipo s.
      case ipo of
        None \<Rightarrow> end_with (-1) s
      | Some ip \<Rightarrow>
          let mj = sint (dmajor (din (itable s ! ip))) in
          if itype ip s = T_DEVICE \<and> (mj < 0 \<or> mj \<ge> NDEV) then drop_ip ip s
          else (case filealloc s of
              (None, s) \<Rightarrow> drop_ip ip s
            | (Some f, s) \<Rightarrow> open_fd f ip omode s)))))"

text \<open>\<open>sys_mkdir\<close> and \<open>sys_mknod\<close> differ in the type and the device numbers.\<close>

definition make_node :: "u16 \<Rightarrow> u16 \<Rightarrow> u16 \<Rightarrow> 'a kst_scheme \<Rightarrow> (io_result, 'a kst_scheme) outcome" where
  "make_node ty mj mn s =
     bindo (argstr 0 MAXPATH s) (\<lambda>(r, path) s.
     if r < 0 then end_with (-1) s
     else bindo (create (str_of path) ty mj mn s) (\<lambda>ipo s.
       case ipo of
         None \<Rightarrow> end_with (-1) s
       | Some ip \<Rightarrow> bindo (iunlockput ip s) (\<lambda>_ s. end_with 0 s)))"

definition sys_mkdir :: "'a kst_scheme \<Rightarrow> (io_result, 'a kst_scheme) outcome" where
  "sys_mkdir s = bindo (begin_op s) (\<lambda>_ s. make_node T_DIR 0 0 s)"

definition sys_mknod :: "'a kst_scheme \<Rightarrow> (io_result, 'a kst_scheme) outcome" where
  "sys_mknod s = bindo (begin_op s) (\<lambda>_ s. make_node T_DEVICE (of_int (argint 1 s)) (of_int (argint 2 s)) s)"

definition sys_chdir :: "'a kst_scheme \<Rightarrow> (io_result, 'a kst_scheme) outcome" where
  "sys_chdir s =
     bindo (begin_op s) (\<lambda>_ s.
     bindo (argstr 0 MAXPATH s) (\<lambda>(r, path) s.
     if r < 0 then end_with (-1) s
     else bindo (from_cwd (str_of path) (\<lambda>c. namei c (str_of path)) s) (\<lambda>ipo s.
     case ipo of
       None \<Rightarrow> end_with (-1) s
     | Some ip \<Rightarrow>
         bindo (ilock ip s) (\<lambda>_ s.
         if itype ip s \<noteq> T_DIR then drop_ip ip s
         else bindo (iunlock ip s) (\<lambda>_ s.
         case cwd (myproc s) of
           None \<Rightarrow> Panic ''undefined: cwd''
         | Some c \<Rightarrow>
             bindo (iput c s) (\<lambda>_ s.
             bindo (end_op s) (\<lambda>_ s. fin 0 (upd_cur (\<lambda>p. p\<lparr>cwd := Some ip\<rparr>) s))))))))"

end
