(* ===== verification/Exec.thy ===== *)
theory Exec
  imports Sysfile
begin

text \<open>
  \<open>kexec\<close> (kernel/exec.c): the swap file of the process, the lazily mapped segments of the
  executable, the stack with the arguments, and the switch to the new image; and
  \<open>sys_exec\<close> (kernel/sysfile.c). Argument strings are given without their NUL.
\<close>

unbundle bit_operations_syntax

text \<open>The bounds that \<open>kexec\<close> collects while it maps the segments.\<close>

record image =
  isz :: u64
  itext_start :: u64
  itext_end :: u64
  idata_start :: u64
  idata_end :: u64

definition note_segment :: "proghdr \<Rightarrow> image \<Rightarrow> image" where
  "note_segment h im =
     (let e = vaddr h + memsz h in
      if pflags h AND ELF_PROG_FLAG_EXEC \<noteq> 0
      then im\<lparr>itext_start := (if itext_start im = -1 \<or> vaddr h < itext_start im then vaddr h else itext_start im),
              itext_end := (if e > itext_end im then e else itext_end im)\<rparr>
      else im\<lparr>idata_start := (if idata_start im = -1 \<or> vaddr h < idata_start im then vaddr h else idata_start im),
              idata_end := (if e > idata_end im then e else idata_end im)\<rparr>)"

text \<open>The loop over the program headers; \<open>False\<close> stands for \<open>goto bad\<close>.\<close>

fun exec_segments :: "nat \<Rightarrow> u64 \<Rightarrow> u32 \<Rightarrow> nat \<Rightarrow> u8 list \<Rightarrow> image \<Rightarrow> 'a kst_scheme \<Rightarrow> (bool \<times> image, 'a kst_scheme) outcome" where
  "exec_segments ip pt off 0 ph im s = Ret (True, im) s"
| "exec_segments ip pt off (Suc k) ph im s =
     bindo (readi kernel_sink ip off 56 ph s) (\<lambda>(r, ph) s.
     let h = get_proghdr ph; e = vaddr h + memsz h in
     if r \<noteq> 56 then Ret (False, im) s
     else if ptype h \<noteq> ELF_PROG_LOAD then exec_segments ip pt (off + 56) k ph im s
     else if memsz h < filesz h then Ret (False, im) s
     else if e < vaddr h then Ret (False, im) s
     else if vaddr h mod PGSIZE \<noteq> 0 then Ret (False, im) s
     else
       let im = note_segment h im in
       bindo (ulazymalloc pt (vaddr h) e (flags2perm (pflags h)) s) (\<lambda>r s.
       if r = 0 then Ret (False, im) s
       else exec_segments ip pt (off + 56) k ph (if e > isz im then im\<lparr>isz := e\<rparr> else im) s))"

definition exec_bad :: "u64 \<Rightarrow> u64 \<Rightarrow> nat option \<Rightarrow> 'a kst_scheme \<Rightarrow> (int, 'a kst_scheme) outcome" where
  "exec_bad pt sz ipo s =
     bindo (if pt \<noteq> 0 then proc_freepagetable pt sz s else Ret () s) (\<lambda>_ s.
     case ipo of
       None \<Rightarrow> Ret (-1) s
     | Some ip \<Rightarrow> bindo (iunlockput ip s) (\<lambda>_ s. bindo (end_op s) (\<lambda>_ s. Ret (-1) s)))"

text \<open>Pushing the argument strings; the result is the stack pointer and the pointers pushed.\<close>

fun push_args :: "u64 \<Rightarrow> u64 \<Rightarrow> u8 list list \<Rightarrow> u64 \<Rightarrow> u64 list \<Rightarrow> 'a kst_scheme \<Rightarrow> ((u64 \<times> u64 list) option, 'a kst_scheme) outcome" where
  "push_args pt stackbase [] sp ustack s = Ret (Some (sp, ustack)) s"
| "push_args pt stackbase (a # argv) sp ustack s =
     (if length ustack \<ge> MAXARG then Ret None s
      else
        let sp = sp - of_nat (length a + 1); sp = sp - sp mod 16 in
        if sp < stackbase then Ret None s
        else bindo (copyout pt sp (a @ [0]) s) (\<lambda>r s.
          if r < 0 then Ret None s
          else push_args pt stackbase argv sp (ustack @ [sp]) (log_event (STACKARG sp stackbase) s)))"

definition trunc_int :: "u64 \<Rightarrow> int" where
  "trunc_int x = sint (ucast x :: u32)"

definition basename :: "u8 list \<Rightarrow> u8 list" where
  "basename path = rev (takeWhile (\<lambda>c. c \<noteq> slash) (rev path))"

text \<open>The part of \<open>kexec\<close> after the file is closed: stack, arguments and commit.\<close>

definition exec_commit :: "u8 list \<Rightarrow> u64 \<Rightarrow> elfhdr \<Rightarrow> u64 \<Rightarrow> u64 \<Rightarrow> nat \<Rightarrow> 'a kst_scheme \<Rightarrow> (int, 'a kst_scheme) outcome" where
  "exec_commit path pt elf sz sp argc s =
     (let s = tf_put (cur s) TF_a1 sp s; oldpagetable = pagetable (myproc s); oldsz = psz (myproc s);
          s = upd_cur (\<lambda>p. p\<lparr>pname := blk_put (pname p) 0 (safestrcpy (cptr_of (basename path)) 16),
                num_resident := 0, next_fifo_seq := 0, pagetable := pt, psz := sz\<rparr>) s;
          s = tf_put (cur s) TF_sp sp (tf_put (cur s) TF_epc (entry elf) s) in
      bindo (proc_freepagetable oldpagetable oldsz s) (\<lambda>_ s. Ret (int argc) s))"

definition exec_stack :: "u8 list \<Rightarrow> u8 list list \<Rightarrow> u64 \<Rightarrow> elfhdr \<Rightarrow> image \<Rightarrow> 'a kst_scheme \<Rightarrow> (int, 'a kst_scheme) outcome" where
  "exec_stack path argv pt elf im s =
     (let s = upd_cur (\<lambda>p. p\<lparr>heap_start := isz im\<rparr>) s; sz = PGROUNDUP (isz im) in
      bindo (uvmalloc pt sz (sz + (USERSTACK + 1) * PGSIZE) PTE_W s) (\<lambda>sz1 s.
      if sz1 = 0 then exec_bad pt sz None s
      else bindo (uvmclear pt (sz1 - (USERSTACK + 1) * PGSIZE) s) (\<lambda>_ s.
        let stackbase = sz1 - USERSTACK * PGSIZE;
            s = upd_cur (\<lambda>p. p\<lparr>text_start := trunc_int (itext_start im), text_end := trunc_int (itext_end im),
                  data_start := trunc_int (idata_start im), data_end := trunc_int (idata_end im), stack_top := trunc_int sz1\<rparr>) s;
            s = log_event (INITMAP (pid (myproc s)) (itext_start im) (itext_end im) (idata_start im) (idata_end im)
                  (heap_start (myproc s)) sz1) s in
        bindo (push_args pt stackbase argv sz1 [] s) (\<lambda>r s.
        case r of
          None \<Rightarrow> exec_bad pt sz1 None s
        | Some (sp, ustack) \<Rightarrow>
            let argc = length ustack; sp = sp - of_nat ((argc + 1) * 8); sp = sp - sp mod 16 in
            if argc \<ge> MAXARG then Panic ''undefined: ustack''
            else if sp < stackbase then exec_bad pt sz1 None s
            else bindo (copyout pt sp (concat (map (le_bytes 8) (ustack @ [0]))) s) (\<lambda>r s.
              if r < 0 then exec_bad pt sz1 None s else exec_commit path pt elf sz1 sp argc s)))))"

text \<open>The part that reads the executable, with its inode locked.\<close>

definition exec_load :: "u8 list \<Rightarrow> u8 list list \<Rightarrow> nat \<Rightarrow> 'a kst_scheme \<Rightarrow> (int, 'a kst_scheme) outcome" where
  "exec_load path argv ip s =
     bindo (readi kernel_sink ip 0 64 (local_buf 64 s) s) (\<lambda>(r, eb) s.
     let elf = get_elfhdr eb in
     if r \<noteq> 64 \<or> emagic elf \<noteq> ELF_MAGIC then exec_bad 0 0 (Some ip) s
     else bindo (proc_pagetable (cur s) s) (\<lambda>pt s.
     if pt = 0 then exec_bad 0 0 (Some ip) s
     else bindo (exec_segments ip pt (ucast (phoff elf)) (unat (phnum elf)) (local_buf 56 s)
       \<lparr>isz = 0, itext_start = -1, itext_end = 0, idata_start = -1, idata_end = 0\<rparr> s) (\<lambda>(ok, im) s.
     if \<not> ok then exec_bad pt (isz im) (Some ip) s
     else
       let s = upd_cur (\<lambda>p. p\<lparr>exec_ip := Some ip, num_phdrs := uint (phnum elf)\<rparr>) (idup ip s) in
       if phnum elf > 16 then Panic ''undefined: phdrs''
       else bindo (readi kernel_sink ip (ucast (phoff elf)) (56 * ucast (phnum elf)) (phdrs (myproc s)) s) (\<lambda>(r, phs) s.
         let s = upd_cur (\<lambda>p. p\<lparr>phdrs := phs\<rparr>) s in
         if r \<noteq> 56 * ucast (phnum elf) then exec_bad pt (isz im) (Some ip) s
         else bindo (iunlockput ip s) (\<lambda>_ s. bindo (end_op s) (\<lambda>_ s. exec_stack path argv pt elf im s))))))"

text \<open>The name of the swap file, \<open>/pgswp\<close> and the process number with at least five digits.\<close>

definition pgswp :: "u8 list" where
  "pgswp = [47, 112, 103, 115, 119, 112]"

definition swap_name :: "int \<Rightarrow> u8 list \<Rightarrow> u8 list" where
  "swap_name pd buf = strcat (blk_put buf 0 (safestrcpy (cptr_of pgswp) 32)) (itoa pd 5)"

text \<open>
  When no file entry is free, the code drops the inode of the swap file and then
  drops it again at \<open>bad\<close>.
\<close>

definition kexec :: "u8 list \<Rightarrow> u8 list list \<Rightarrow> 'a kst_scheme \<Rightarrow> (int, 'a kst_scheme) outcome" where
  "kexec path argv s =
     (let name = str_of (swap_name (pid (myproc s)) (local_buf 32 s));
          s = upd_cur (\<lambda>p. p\<lparr>swap_path := blk_put (swap_path p) 0 (safestrcpy (cptr_of pgswp) 32)\<rparr>) s in
      bindo (begin_op s) (\<lambda>_ s.
      bindo (create name T_FILE 0 0 s) (\<lambda>ipo s.
      case ipo of
        None \<Rightarrow> bindo (end_op s) (\<lambda>_ s. exec_bad 0 0 None s)
      | Some sip \<Rightarrow>
          (case filealloc s of
             (None, s) \<Rightarrow>
               bindo (iunlockput sip (upd_cur (\<lambda>p. p\<lparr>swap_file := None\<rparr>) s)) (\<lambda>_ s.
               bindo (end_op s) (\<lambda>_ s. exec_bad 0 0 (Some sip) s))
           | (Some f, s) \<Rightarrow>
               let s = upd_cur (\<lambda>p. p\<lparr>swap_file := Some f\<rparr>) s;
                   s = upd_file f (\<lambda>e. e\<lparr>ftyp := FD_INODE, fip := sip, readable := True, writable := True\<rparr>) s in
               bindo (iunlock sip s) (\<lambda>_ s.
               bindo (end_op s) (\<lambda>_ s.
               bindo (begin_op s) (\<lambda>_ s.
               bindo (from_cwd path (\<lambda>c. namei c path) s) (\<lambda>ipo s.
               case ipo of
                 None \<Rightarrow> bindo (end_op s) (\<lambda>_ s. Ret (-1) (log_event NAMEIFAIL s))
               | Some ip \<Rightarrow> bindo (ilock ip s) (\<lambda>_ s. exec_load path argv ip s)))))))))"

section \<open>The system call\<close>

text \<open>Copying the argument vector: one page for each string.\<close>

fun fetch_args :: "u64 \<Rightarrow> nat \<Rightarrow> u64 list \<Rightarrow> 'a kst_scheme \<Rightarrow> (bool \<times> u64 list, 'a kst_scheme) outcome" where
  "fetch_args uargv 0 pages s = Ret (False, pages) s"
| "fetch_args uargv (Suc k) pages s =
     bindo (fetchaddr (uargv + of_nat (8 * length pages)) s) (\<lambda>u s.
     case u of
       None \<Rightarrow> Ret (False, pages) s
     | Some uarg \<Rightarrow>
         if uarg = 0 then Ret (True, pages) s
         else bindo (kalloc s) (\<lambda>pg s.
           if pg = 0 then Ret (False, pages) s
           else bindo (fetchstr uarg 4096 s) (\<lambda>(r, bs) s.
             let s = s\<lparr>phys := mwrite (phys s) pg bs\<rparr> in
             if r < 0 then Ret (False, pages @ [pg]) s else fetch_args uargv k (pages @ [pg]) s)))"

definition sys_exec :: "'a kst_scheme \<Rightarrow> (io_result, 'a kst_scheme) outcome" where
  "sys_exec s =
     (let uargv = argaddr 1 s in
      bindo (argstr 0 MAXPATH s) (\<lambda>(r, path) s.
      if r < 0 then fin (-1) s
      else bindo (fetch_args uargv MAXARG [] s) (\<lambda>(ok, pages) s.
        bindo (if ok then kexec (str_of path) (map (\<lambda>pg. str_of (mread (phys s) pg 4096)) pages) s else Ret (-1) s) (\<lambda>ret s.
        bindo (forM pages kfree s) (\<lambda>_ s. fin ret s)))))"

end
