(* ===== verification/Printf.thy ===== *)
theory Printf
  imports Cstring
begin

text \<open>
  The two formatters: kernel/printf.c, which prints to the console, and
  user/printf.c, which writes to a descriptor. Both share the conversions; they
  differ in the table of digits, in how one character is sent, and in the loop
  over the format. A format is given without its NUL. A conversion that asks for an
  argument that is not there, or of the wrong kind, has no defined result: \<open>None\<close>.
\<close>

unbundle bit_operations_syntax

datatype parg = PInt u64 | PStr "u8 list option"

section \<open>Numbers\<close>

definition kdigits :: "u8 list" where
  "kdigits = [48, 49, 50, 51, 52, 53, 54, 55, 56, 57, 97, 98, 99, 100, 101, 102]"

definition udigits :: "u8 list" where
  "udigits = [48, 49, 50, 51, 52, 53, 54, 55, 56, 57, 65, 66, 67, 68, 69, 70]"

text \<open>The \<open>do ... while\<close> loop: the digits of \<open>x\<close>, last one first.\<close>

function digits_from :: "nat \<Rightarrow> nat \<Rightarrow> nat list" where
  "digits_from base x = x mod base # (if base > 1 \<and> x div base \<noteq> 0 then digits_from base (x div base) else [])"
  by pat_completeness auto
termination
  by (relation "measure snd") (auto intro!: div_less_dividend Nat.gr0I)

declare digits_from.simps [simp del]

definition printint_buf :: "u8 list \<Rightarrow> u64 \<Rightarrow> nat \<Rightarrow> bool \<Rightarrow> u8 list" where
  "printint_buf tab xx base sign =
     (let neg = (sign \<and> sint xx < 0); x = (if neg then - xx else xx) in
      map (\<lambda>d. tab ! d) (digits_from base (unat x)) @ (if neg then [45] else []))"

definition printint :: "u8 list \<Rightarrow> u64 \<Rightarrow> nat \<Rightarrow> bool \<Rightarrow> u8 list" where
  "printint tab xx base sign = rev (printint_buf tab xx base sign)"

fun ptr_digits :: "u8 list \<Rightarrow> nat \<Rightarrow> u64 \<Rightarrow> u8 list" where
  "ptr_digits tab 0 x = []"
| "ptr_digits tab (Suc k) x = tab ! unat (drop_bit 60 x) # ptr_digits tab k (push_bit 4 x)"

definition printptr :: "u8 list \<Rightarrow> u64 \<Rightarrow> u8 list" where
  "printptr tab x = [48, 120] @ ptr_digits tab 16 x"

section \<open>Conversions\<close>

definition va_num :: "(u64 \<Rightarrow> u8 list) \<Rightarrow> parg list \<Rightarrow> (u8 list \<times> parg list) option" where
  "va_num f args = (case args of PInt w # as \<Rightarrow> Some (f w, as) | _ \<Rightarrow> None)"

definition va_str :: "parg list \<Rightarrow> (u8 list \<times> parg list) option" where
  "va_str args = (case args of PStr None # as \<Rightarrow> Some ([40, 110, 117, 108, 108, 41], as)
     | PStr (Some t) # as \<Rightarrow> Some (str_of t, as) | _ \<Rightarrow> None)"

definition int_arg :: "u64 \<Rightarrow> u64" where
  "int_arg w = scast (ucast w :: u32)"

definition uint_arg :: "u64 \<Rightarrow> u64" where
  "uint_arg w = ucast (ucast w :: u32)"

text \<open>
  A conversion: how many format characters it takes after the first, what it
  prints and the arguments that remain. \<open>l\<close> is 108, \<open>d\<close> 100, \<open>u\<close> 117, \<open>x\<close> 120, \<open>p\<close> 112,
  \<open>c\<close> 99, \<open>s\<close> 115 and \<open>%\<close> 37.
\<close>

definition convert :: "u8 list \<Rightarrow> (u32 \<Rightarrow> u8 list) \<Rightarrow> u8 \<Rightarrow> u8 \<Rightarrow> u8 \<Rightarrow> parg list \<Rightarrow> (nat \<times> u8 list \<times> parg list) option" where
  "convert tab pc c0 c1 c2 args =
     (let num = (\<lambda>skip conv base sign. map_option (Pair skip) (va_num (\<lambda>w. printint tab (conv w) base sign) args)) in
      if c0 = 100 then num 0 int_arg 10 True
      else if c0 = 108 \<and> c1 = 100 then num 1 id 10 True
      else if c0 = 108 \<and> c1 = 108 \<and> c2 = 100 then num 2 id 10 True
      else if c0 = 117 then num 0 uint_arg 10 False
      else if c0 = 108 \<and> c1 = 117 then num 1 id 10 False
      else if c0 = 108 \<and> c1 = 108 \<and> c2 = 117 then num 2 id 10 False
      else if c0 = 120 then num 0 uint_arg 16 False
      else if c0 = 108 \<and> c1 = 120 then num 1 id 16 False
      else if c0 = 108 \<and> c1 = 108 \<and> c2 = 120 then num 2 id 16 False
      else if c0 = 112 then map_option (Pair 0) (va_num (printptr tab) args)
      else if c0 = 99 then map_option (Pair 0) (va_num (\<lambda>w. pc (ucast w)) args)
      else if c0 = 115 then map_option (Pair 0) (va_str args)
      else if c0 = 37 then Some (0, [37], args)
      else Some (0, [37, c0], args))"

definition char_at :: "u8 list \<Rightarrow> nat \<Rightarrow> u8" where
  "char_at f i = (if i < length f then f ! i else 0)"

section \<open>The two loops\<close>

function printf_with :: "u8 list \<Rightarrow> (u32 \<Rightarrow> u8 list) \<Rightarrow> u8 list \<Rightarrow> parg list \<Rightarrow> u8 list option" where
  "printf_with tab pc [] args = Some []"
| "printf_with tab pc (cx # f) args =
     (if cx \<noteq> 37 then map_option (\<lambda>out. cx # out) (printf_with tab pc f args)
      else case f of
        [] \<Rightarrow> Some []
      | c0 # f' \<Rightarrow>
          (case convert tab pc c0 (char_at f' 0) (if char_at f' 0 = 0 then 0 else char_at f' 1) args of
             None \<Rightarrow> None
           | Some (skip, out, args) \<Rightarrow> map_option (\<lambda>rest. out @ rest) (printf_with tab pc (drop skip f') args)))"
  by pat_completeness auto
termination
  by (relation "measure (\<lambda>(_, _, f, _). length f)") auto

text \<open>What the kernel sends to the console for one character; \<open>0x100\<close> is a backspace.\<close>

definition consputc :: "u32 \<Rightarrow> u8 list" where
  "consputc c = (if c = 0x100 then [8, 32, 8] else [ucast c])"

definition kprintf :: "u8 list \<Rightarrow> parg list \<Rightarrow> u8 list option" where
  "kprintf fmt args = printf_with kdigits consputc fmt args"

text \<open>The state of \<open>vprintf\<close> says whether the last character was a percent sign.\<close>

function vprintf_with :: "u8 list \<Rightarrow> (u32 \<Rightarrow> u8 list) \<Rightarrow> bool \<Rightarrow> u8 list \<Rightarrow> parg list \<Rightarrow> u8 list option" where
  "vprintf_with tab pc st [] args = Some []"
| "vprintf_with tab pc st (c0 # f) args =
     (if \<not> st then
        if c0 = 37 then vprintf_with tab pc True f args
        else map_option (\<lambda>out. c0 # out) (vprintf_with tab pc False f args)
      else
        case convert tab pc c0 (char_at f 0) (if char_at f 0 = 0 then 0 else char_at f 1) args of
          None \<Rightarrow> None
        | Some (skip, out, args) \<Rightarrow> map_option (\<lambda>rest. out @ rest) (vprintf_with tab pc False (drop skip f) args))"
  by pat_completeness auto
termination
  by (relation "measure (\<lambda>(_, _, _, f, _). length f)") auto

definition vprintf :: "u8 list \<Rightarrow> parg list \<Rightarrow> u8 list option" where
  "vprintf fmt args = vprintf_with udigits (\<lambda>c. [ucast c]) False fmt args"

section \<open>Properties\<close>


fun from_digits :: "nat \<Rightarrow> nat list \<Rightarrow> nat" where
  "from_digits base [] = 0"
| "from_digits base (d # ds) = d + base * from_digits base ds"

lemma digits_from_value: "base > 1 \<Longrightarrow> from_digits base (digits_from base x) = x"
proof (induction base x rule: digits_from.induct)
  case (1 base x)
  then show ?case by (subst digits_from.simps) (auto simp: div_eq_0_iff)
qed

lemma digits_from_length: "base > 1 \<Longrightarrow> k > 0 \<Longrightarrow> x < base ^ k \<Longrightarrow> length (digits_from base x) \<le> k"
proof (induction base x arbitrary: k rule: digits_from.induct)
  case (1 base x)
  show ?case
  proof (cases "x div base = 0")
    case True
    then show ?thesis using 1(3) by (subst digits_from.simps) auto
  next
    case False
    have "k \<noteq> 1" using False 1(4) by auto
    then have "k > 1" using 1(3) by simp
    moreover have "x div base < base ^ (k - 1)"
      using 1(2,4) \<open>k > 1\<close> by (cases k) (auto simp: less_mult_imp_div_less mult.commute)
    ultimately have "length (digits_from base (x div base)) \<le> k - 1" using 1(1) [of "k - 1"] 1(2) False by auto
    then show ?thesis using False \<open>k > 1\<close> by (subst digits_from.simps) auto
  qed
qed

lemma digits_from_less: "base > 1 \<Longrightarrow> d \<in> set (digits_from base x) \<Longrightarrow> d < base"
proof (induction base x rule: digits_from.induct)
  case (1 base x)
  then show ?case by (subst (asm) (2) digits_from.simps) (auto split: if_splits)
qed

lemma uint_nonneg:
  fixes x :: u64
  assumes "0 \<le> sint x"
  shows "uint x = sint x"
proof -
  have "uint x = uint (word_of_int (sint x) :: u64)" by simp
  also have "\<dots> = sint x mod 2 ^ 64" by (simp only: uint_word_of_int) simp
  also have "\<dots> = sint x" using assms sint_lt [of x] by (intro mod_pos_pos_trivial) auto
  finally show ?thesis .
qed

lemma uint_minus_neg:
  fixes x :: u64
  assumes "sint x < 0"
  shows "uint (- x) = - sint x"
proof -
  have "uint (- x) = uint (word_of_int (- sint x) :: u64)" by simp
  also have "\<dots> = - sint x mod 2 ^ 64" by (simp only: uint_word_of_int) simp
  also have "\<dots> = - sint x" using assms sint_ge [of x] by (intro mod_pos_pos_trivial) auto
  finally show ?thesis .
qed

lemma kdigits_decimal: "list_all (\<lambda>d. d < 10) ds \<Longrightarrow> map (\<lambda>d. kdigits ! d) ds = map (\<lambda>d. 48 + of_nat d) ds"
proof (induction ds)
  case (Cons d ds)
  then have "d \<in> {0, 1, 2, 3, 4, 5, 6, 7, 8, 9}" by auto
  then have "kdigits ! d = 48 + of_nat d" by (auto simp: kdigits_def)
  then show ?case using Cons by simp
qed simp


end
