(* ===== verification/Console.thy ===== *)
theory Console
  imports File Printf
begin

text \<open>
  The console (kernel/console.c) on top of the serial line (kernel/uart.c): line
  editing in a ring of 128 bytes with the indices \<open>r\<close> (next byte to read), \<open>w\<close> (end of
  the finished lines) and \<open>e\<close> (end of the line being typed), 32-bit counters that wrap
  around. The hardware is the list of bytes received and not yet read, the
  bit that says whether the transmitter is idle, and the bytes sent so far.
\<close>

unbundle bit_operations_syntax

definition INPUT_BUF_SIZE :: nat where "INPUT_BUF_SIZE = 128"

record cons =
  cbuf :: "u8 list"
  cons_r :: u32
  cons_w :: u32
  cons_e :: u32

record conskst = kst +
  cons :: cons
  tx_busy :: bool
  uart_in :: "u8 list"
  uart_idle :: bool
  uart_out :: "u8 list"

section \<open>The serial line\<close>

definition uartputc_sync :: "u8 \<Rightarrow> 'a conskst_scheme \<Rightarrow> 'a conskst_scheme" where
  "uartputc_sync c s = s\<lparr>uart_out := uart_out s @ [c]\<rparr>"

definition consputs :: "u8 list \<Rightarrow> 'a conskst_scheme \<Rightarrow> 'a conskst_scheme" where
  "consputs cs s = foldl (\<lambda>s c. uartputc_sync c s) s cs"

definition uartgetc :: "'a conskst_scheme \<Rightarrow> int \<times> 'a conskst_scheme" where
  "uartgetc s = (case uart_in s of [] \<Rightarrow> (-1, s) | c # cs \<Rightarrow> (uint c, s\<lparr>uart_in := cs\<rparr>))"

text \<open>\<open>uartwrite\<close> from byte \<open>i\<close> of the buffer on; \<open>Blocked i\<close> when it sleeps before sending byte \<open>i\<close>.\<close>

function uartwrite :: "u8 list \<Rightarrow> nat \<Rightarrow> 'a conskst_scheme \<Rightarrow> io_result \<times> 'a conskst_scheme" where
  "uartwrite buf i s =
     (if i < length buf then
        if tx_busy s then (Blocked i, sleeping (Named ''tx_chan'') s)
        else uartwrite buf (Suc i) (s\<lparr>uart_out := uart_out s @ [buf ! i], tx_busy := True\<rparr>)
      else (Finished 0, s))"
  by pat_completeness auto
termination
  by (relation "measure (\<lambda>(buf, i, _). length buf - i)") auto

declare uartwrite.simps [simp del]

section \<open>Writing\<close>

text \<open>
  A write to the console is finished, or waits for the transmitter with \<open>i\<close> bytes of
  finished chunks and \<open>j\<close> bytes of the chunk \<open>buf\<close> sent.
\<close>

datatype write_result = WDone int | WWait nat "u8 list" nat

function consolewrite_from :: "bool \<Rightarrow> u64 \<Rightarrow> nat \<Rightarrow> nat \<Rightarrow> 'a conskst_scheme \<Rightarrow> (write_result, 'a conskst_scheme) outcome" where
  "consolewrite_from user_src src k i s =
     (if i < k
      then let nn = min 32 (k - i) in
        bindo (either_copyin user_src (src + of_nat i) nn s) (\<lambda>(r, buf) s.
        if r = -1 then Ret (WDone (int i)) s
        else case uartwrite buf 0 s of
            (Blocked j, s) \<Rightarrow> Ret (WWait i buf j) s
          | (Finished _, s) \<Rightarrow> consolewrite_from user_src src k (i + nn) s)
      else Ret (WDone (int i)) s)"
  by pat_completeness auto
termination
  by (relation "measure (\<lambda>(_, _, k, i, _). k - i)") auto

declare consolewrite_from.simps [simp del]

definition consolewrite_resume :: "bool \<Rightarrow> u64 \<Rightarrow> nat \<Rightarrow> nat \<Rightarrow> u8 list \<Rightarrow> nat \<Rightarrow> 'a conskst_scheme \<Rightarrow> (write_result, 'a conskst_scheme) outcome" where
  "consolewrite_resume user_src src k i buf j s =
     (case uartwrite buf j s of
        (Blocked j, s) \<Rightarrow> Ret (WWait i buf j) s
      | (Finished _, s) \<Rightarrow> consolewrite_from user_src src k (i + length buf) s)"

definition consolewrite :: "'a conskst_scheme device" where
  "consolewrite src k s =
     bindo (consolewrite_from True src (nat k) 0 s) (\<lambda>r s.
     Ret (case r of WDone v \<Rightarrow> Finished v | WWait i buf j \<Rightarrow> Blocked (i + j)) s)"

section \<open>Reading\<close>

fun consoleread_from :: "bool \<Rightarrow> u64 \<Rightarrow> nat \<Rightarrow> nat \<Rightarrow> 'a conskst_scheme \<Rightarrow> (io_result, 'a conskst_scheme) outcome" where
  "consoleread_from user_dst dst 0 done s = Ret (Finished (int done)) s"
| "consoleread_from user_dst dst (Suc k) done s =
     (let c = cons s in
      if cons_r c = cons_w c then
        if killed (cur s) s then Ret (Finished (-1)) s
        else Ret (Blocked done) (sleeping (Named ''cons.r'') s)
      else
        let ch = cbuf c ! (unat (cons_r c) mod INPUT_BUF_SIZE);
            s1 = s\<lparr>cons := c\<lparr>cons_r := cons_r c + 1\<rparr>\<rparr> in
        if ch = 4 then Ret (Finished (int done)) (if done > 0 then s else s1)
        else bindo (either_copyout user_dst dst [ch] s1) (\<lambda>r s.
          if r = -1 then Ret (Finished (int done)) s
          else if ch = 10 then Ret (Finished (int (Suc done))) s
          else consoleread_from user_dst (dst + 1) k (Suc done) s))"

text \<open>A read of no more than zero bytes returns at once with 0.\<close>

definition consoleread :: "'a conskst_scheme device" where
  "consoleread dst k s = consoleread_from True dst (nat k) 0 s"

section \<open>Input\<close>

definition BACKSPACE :: u32 where "BACKSPACE = 0x100"

definition ctrl :: "u8 \<Rightarrow> u8" where "ctrl c = c - 64"

definition state_name :: "procstate \<Rightarrow> u8 list" where
  "state_name st = (case st of UNUSED \<Rightarrow> [117, 110, 117, 115, 101, 100] | USED \<Rightarrow> [117, 115, 101, 100]
     | SLEEPING \<Rightarrow> [115, 108, 101, 101, 112, 32] | RUNNABLE \<Rightarrow> [114, 117, 110, 98, 108, 101]
     | RUNNING \<Rightarrow> [114, 117, 110, 32, 32, 32] | ZOMBIE \<Rightarrow> [122, 111, 109, 98, 105, 101])"

definition dump_line :: "proc \<Rightarrow> u8 list" where
  "dump_line p =
     (if pstate p = UNUSED then []
      else the (kprintf [37, 100, 32, 37, 115, 32, 37, 115]
             [PInt (of_int (pid p)), PStr (Some (state_name (pstate p))), PStr (Some (pname p))]) @ [10])"

definition procdump :: "'a conskst_scheme \<Rightarrow> 'a conskst_scheme" where
  "procdump s = consputs ([10] @ concat (map dump_line (procs s))) s"

definition erase :: "'a conskst_scheme \<Rightarrow> 'a conskst_scheme" where
  "erase s = consputs (consputc BACKSPACE) (s\<lparr>cons := (cons s)\<lparr>cons_e := cons_e (cons s) - 1\<rparr>\<rparr>)"

function kill_line :: "'a conskst_scheme \<Rightarrow> 'a conskst_scheme" where
  "kill_line s =
     (let c = cons s in
      if cons_e c \<noteq> cons_w c \<and> cbuf c ! (unat (cons_e c - 1) mod INPUT_BUF_SIZE) \<noteq> 10
      then kill_line (erase s) else s)"
  by pat_completeness auto

lemma consputs_cons [simp]: "cons (consputs cs s) = cons s"
  by (induction cs arbitrary: s) (simp_all add: consputs_def uartputc_sync_def)

lemma unat_minus_1_less: "(x :: 'a::len word) \<noteq> 0 \<Longrightarrow> unat (x - 1) < unat x"
  by (simp add: unat_minus_one unat_gt_0)

termination kill_line
proof (relation "measure (\<lambda>s. unat (cons_e (cons s) - cons_w (cons s)))", goal_cases)
  case (2 s x)
  then have "cons_e (cons s) - cons_w (cons s) \<noteq> 0" by simp
  then have "unat (cons_e (cons s) - cons_w (cons s) - 1) < unat (cons_e (cons s) - cons_w (cons s))" by (rule unat_minus_1_less)
  moreover have "cons_e (cons s) - 1 - cons_w (cons s) = cons_e (cons s) - cons_w (cons s) - 1" by simp
  moreover have "cons_e (cons (erase s)) = cons_e (cons s) - 1" "cons_w (cons (erase s)) = cons_w (cons s)"
    by (simp_all add: erase_def)
  ultimately show ?case by (simp only: in_measure)
qed simp

declare kill_line.simps [simp del]

definition put_char :: "u8 \<Rightarrow> cons \<Rightarrow> cons" where
  "put_char ch c = c\<lparr>cbuf := (cbuf c)[unat (cons_e c) mod INPUT_BUF_SIZE := ch], cons_e := cons_e c + 1\<rparr>"

definition accept_char :: "u8 \<Rightarrow> 'a conskst_scheme \<Rightarrow> 'a conskst_scheme" where
  "accept_char ch s =
     (let ch = (if ch = 13 then 10 else ch);
          s = consputs (consputc (ucast ch)) s; c = put_char ch (cons s); s = s\<lparr>cons := c\<rparr> in
      if ch = 10 \<or> ch = ctrl 68 \<or> cons_e c - cons_r c = of_nat INPUT_BUF_SIZE
      then wakeup (Named ''cons.r'') (s\<lparr>cons := c\<lparr>cons_w := cons_e c\<rparr>\<rparr>) else s)"

definition consoleintr :: "u8 \<Rightarrow> 'a conskst_scheme \<Rightarrow> 'a conskst_scheme" where
  "consoleintr ch s =
     (if ch = ctrl 80 then procdump s
      else if ch = ctrl 85 then kill_line s
      else if ch = ctrl 72 \<or> ch = 127 then
        if cons_e (cons s) \<noteq> cons_w (cons s) then erase s else s
      else if ch \<noteq> 0 \<and> cons_e (cons s) - cons_r (cons s) < of_nat INPUT_BUF_SIZE then accept_char ch s
      else s)"

definition uartintr :: "'a conskst_scheme \<Rightarrow> 'a conskst_scheme" where
  "uartintr s =
     (let s = (if uart_idle s then wakeup (Named ''tx_chan'') (s\<lparr>tx_busy := False\<rparr>) else s) in
      (foldl (\<lambda>s c. consoleintr c s) s (uart_in s))\<lparr>uart_in := []\<rparr>)"

text \<open>The device table: the console is device 1.\<close>

definition CONSOLE :: nat where "CONSOLE = 1"

definition devsw_read :: "nat \<Rightarrow> 'a conskst_scheme device option" where
  "devsw_read d = (if d = CONSOLE then Some consoleread else None)"

definition devsw_write :: "nat \<Rightarrow> 'a conskst_scheme device option" where
  "devsw_write d = (if d = CONSOLE then Some consolewrite else None)"

end
