(* ===== verification/Virtio.thy ===== *)
theory Virtio
  imports Console
begin

text \<open>
  The disk driver (kernel/virtio_disk.c): the descriptor table, the ring of requests
  made available to the device, and the interrupt that collects finished requests.
  The device itself is not modelled: \<open>mmio_read\<close> is what it answers when a register
  is read after a history of register writes, and the used ring and the status bytes are its to change.
  A buffer is an index; pointers inside descriptors are symbolic.
\<close>

unbundle bit_operations_syntax

definition NUM :: nat where "NUM = 8"
definition VRING_DESC_F_NEXT :: u16 where "VRING_DESC_F_NEXT = 1"
definition VRING_DESC_F_WRITE :: u16 where "VRING_DESC_F_WRITE = 2"

datatype daddr = NullAddr | OpAddr nat | DataAddr nat | StatusAddr nat

record virtq_desc =
  vaddr_of :: daddr
  vlen :: u32
  vflags :: u16
  vnext :: u16

record blk_req =
  req_type :: u32
  req_sector :: u64

record vdisk =
  desc :: "virtq_desc list"
  desc_pa :: u64
  avail_pa :: u64
  used_pa :: u64
  avail_idx :: u16
  avail_ring :: "u16 list"
  dev_idx :: u16
  used_ring :: "u32 list"
  vfree :: "bool list"
  used_idx :: u16
  info_b :: "nat option list"
  info_status :: "u8 list"
  ops :: "blk_req list"
  bdisk :: "nat \<Rightarrow> bool"

record vkst = conskst +
  vd :: vdisk
  mmio_read :: "(nat \<times> u32) list \<Rightarrow> nat \<Rightarrow> u32"
  mmio :: "(nat \<times> u32) list"
  irq :: int
  plic_done :: "int list"

definition upd_vd :: "(vdisk \<Rightarrow> vdisk) \<Rightarrow> 'a vkst_scheme \<Rightarrow> 'a vkst_scheme" where
  "upd_vd f s = s\<lparr>vd := f (vd s)\<rparr>"

definition reg :: "nat \<Rightarrow> 'a vkst_scheme \<Rightarrow> u32" where
  "reg r s = mmio_read s (mmio s) r"

definition set_reg :: "nat \<Rightarrow> u32 \<Rightarrow> 'a vkst_scheme \<Rightarrow> 'a vkst_scheme" where
  "set_reg r v s = s\<lparr>mmio := mmio s @ [(r, v)]\<rparr>"

section \<open>Initialisation\<close>

definition driver_features :: "u64 \<Rightarrow> u64" where
  "driver_features f = foldl (\<lambda>f b. unset_bit b f) f [5, 7, 11, 12, 27, 29, 28]"

definition init_queue :: "u32 \<Rightarrow> 'a vkst_scheme \<Rightarrow> (unit, 'a vkst_scheme) outcome" where
  "init_queue status s =
     (let mx = reg 0x034 s in
      if reg 0x044 s \<noteq> 0 then Panic ''virtio disk should not be ready''
      else if mx = 0 then Panic ''virtio disk has no queue 0''
      else if mx < of_nat NUM then Panic ''virtio disk max queue too short''
      else bindo (kalloc s) (\<lambda>d s. bindo (kalloc s) (\<lambda>a s. bindo (kalloc s) (\<lambda>u s.
        if d = 0 \<or> a = 0 \<or> u = 0 then Panic ''virtio disk kalloc''
        else
          let s = zero_page u (zero_page a (zero_page d s));
              s = upd_vd (\<lambda>v. v\<lparr>desc_pa := d, avail_pa := a, used_pa := u,
                desc := replicate NUM \<lparr>vaddr_of = NullAddr, vlen = 0, vflags = 0, vnext = 0\<rparr>,
                avail_idx := 0, avail_ring := replicate NUM 0, dev_idx := 0, used_ring := replicate NUM 0\<rparr>) s;
              s = foldl (\<lambda>s (r, v). set_reg r v s) s
                [(0x038, of_nat NUM), (0x080, ucast d), (0x084, ucast (drop_bit 32 d)), (0x090, ucast a),
                 (0x094, ucast (drop_bit 32 a)), (0x0a0, ucast u), (0x0a4, ucast (drop_bit 32 u)), (0x044, 1)] in
          Ret () (set_reg 0x070 (status OR 4) (upd_vd (\<lambda>v. v\<lparr>vfree := replicate NUM True\<rparr>) s))))))"

definition virtio_disk_init :: "'a vkst_scheme \<Rightarrow> (unit, 'a vkst_scheme) outcome" where
  "virtio_disk_init s =
     (if reg 0x000 s \<noteq> 0x74726976 \<or> reg 0x004 s \<noteq> 2 \<or> reg 0x008 s \<noteq> 2 \<or> reg 0x00c s \<noteq> 0x554d4551
      then Panic ''could not find virtio disk''
      else
        let s = set_reg 0x070 3 (set_reg 0x070 1 (set_reg 0x070 0 s));
            s = set_reg 0x020 (ucast (driver_features (ucast (reg 0x010 s)))) s;
            s = set_reg 0x070 11 s; status = reg 0x070 s in
        if status AND 8 = 0 then Panic ''virtio disk FEATURES_OK unset''
        else init_queue status (set_reg 0x030 0 s))"

section \<open>Descriptors\<close>

definition alloc_desc :: "vdisk \<Rightarrow> nat option \<times> vdisk" where
  "alloc_desc v =
     (case find (\<lambda>i. vfree v ! i) [0..<NUM] of
        None \<Rightarrow> (None, v) | Some i \<Rightarrow> (Some i, v\<lparr>vfree := (vfree v)[i := False]\<rparr>))"

definition free_one :: "nat \<Rightarrow> vdisk \<Rightarrow> vdisk" where
  "free_one i v = v\<lparr>desc := (desc v)[i := \<lparr>vaddr_of = NullAddr, vlen = 0, vflags = 0, vnext = 0\<rparr>], vfree := (vfree v)[i := True]\<rparr>"

definition free_desc :: "nat \<Rightarrow> 'a vkst_scheme \<Rightarrow> (unit, 'a vkst_scheme) outcome" where
  "free_desc i s =
     (if i \<ge> NUM then Panic ''free_desc 1''
      else if vfree (vd s) ! i then Panic ''free_desc 2''
      else Ret () (wakeup (Named ''disk.free'') (upd_vd (free_one i) s)))"

lemma vd_wakeup [simp]: "vd (wakeup ch s) = vd s"
  by (simp add: wakeup_def)

lemma vd_upd_vd [simp]: "vd (upd_vd f s) = f (vd s)"
  by (simp add: upd_vd_def)

definition in_use :: "vdisk \<Rightarrow> nat" where
  "in_use v = length (filter (\<lambda>i. \<not> vfree v ! i) [0..<NUM])"

lemma in_use_free_one:
  assumes "i < NUM" "length (vfree v) = NUM" "\<not> vfree v ! i"
  shows "in_use (free_one i v) < in_use v"
proof -
  have "distinct (filter (\<lambda>j. \<not> vfree v ! j) [0..<NUM])" "distinct (filter (\<lambda>j. \<not> vfree (free_one i v) ! j) [0..<NUM])" by simp_all
  then have c: "in_use v = card {j. j < NUM \<and> \<not> vfree v ! j}" "in_use (free_one i v) = card {j. j < NUM \<and> \<not> vfree (free_one i v) ! j}"
    unfolding in_use_def by (subst distinct_card [symmetric]; auto intro: arg_cong [where f = card])+
  have e: "{j. j < NUM \<and> \<not> vfree (free_one i v) ! j} = {j. j < NUM \<and> \<not> vfree v ! j} - {i}"
    using assms by (auto simp: free_one_def nth_list_update)
  show ?thesis unfolding c e by (rule card_Diff1_less) (use assms in simp_all)
qed

text \<open>
  A chain is freed link by link. A link that is not in use stops the loop with a panic, so it
  ends; a table of the wrong size has no meaning.
\<close>

function free_chain :: "nat \<Rightarrow> 'a vkst_scheme \<Rightarrow> (unit, 'a vkst_scheme) outcome" where
  "free_chain i s =
     (if length (vfree (vd s)) \<noteq> NUM then Panic ''undefined: vfree''
      else let d = desc (vd s) ! i in
        if i \<ge> NUM then Panic ''free_desc 1''
        else if vfree (vd s) ! i then Panic ''free_desc 2''
        else
          let s1 = wakeup (Named ''disk.free'') (upd_vd (free_one i) s) in
          if vflags d AND VRING_DESC_F_NEXT \<noteq> 0 then free_chain (unat (vnext d)) s1 else Ret () s1)"
  by pat_completeness auto
termination
  by (relation "measure (\<lambda>(i, s). in_use (vd s))") (auto intro!: in_use_free_one)

declare free_chain.simps [simp del]

definition alloc3_desc :: "'a vkst_scheme \<Rightarrow> ((nat \<times> nat \<times> nat) option, 'a vkst_scheme) outcome" where
  "alloc3_desc s =
     (case alloc_desc (vd s) of
        (None, v) \<Rightarrow> Ret None (s\<lparr>vd := v\<rparr>)
      | (Some a, v) \<Rightarrow>
          (case alloc_desc v of
             (None, v) \<Rightarrow> bindo (free_desc a (s\<lparr>vd := v\<rparr>)) (\<lambda>_ s. Ret None s)
           | (Some b, v) \<Rightarrow>
               (case alloc_desc v of
                  (None, v) \<Rightarrow> bindo (free_desc a (s\<lparr>vd := v\<rparr>)) (\<lambda>_ s. bindo (free_desc b s) (\<lambda>_ s. Ret None s))
                | (Some c, v) \<Rightarrow> Ret (Some (a, b, c)) (s\<lparr>vd := v\<rparr>))))"

section \<open>Requests\<close>

definition format_chain :: "nat \<Rightarrow> u32 \<Rightarrow> bool \<Rightarrow> nat \<Rightarrow> nat \<Rightarrow> nat \<Rightarrow> vdisk \<Rightarrow> vdisk" where
  "format_chain b bno wr i0 i1 i2 v =
     (let v = v\<lparr>ops := (ops v)[i0 := \<lparr>req_type = (if wr then 1 else 0), req_sector = ucast (bno * 2)\<rparr>]\<rparr>;
          v = v\<lparr>desc := (desc v)
            [i0 := \<lparr>vaddr_of = OpAddr i0, vlen = 16, vflags = VRING_DESC_F_NEXT, vnext = of_nat i1\<rparr>,
             i1 := \<lparr>vaddr_of = DataAddr b, vlen = of_nat BSIZE,
               vflags = (if wr then 0 else VRING_DESC_F_WRITE) OR VRING_DESC_F_NEXT, vnext = of_nat i2\<rparr>,
             i2 := \<lparr>vaddr_of = StatusAddr i0, vlen = 1, vflags = VRING_DESC_F_WRITE, vnext = 0\<rparr>]\<rparr>;
          v = v\<lparr>info_status := (info_status v)[i0 := 0xff], bdisk := (bdisk v)(b := True), info_b := (info_b v)[i0 := Some b]\<rparr>;
          v = v\<lparr>avail_ring := (avail_ring v)[unat (avail_idx v) mod NUM := of_nat i0]\<rparr>
      in v\<lparr>avail_idx := avail_idx v + 1\<rparr>)"

text \<open>
  \<open>virtio_disk_rw\<close> up to the point where it waits for the device; it returns the head
  of its chain. Without three free descriptors it sleeps and starts again.
\<close>

definition rw_start :: "nat \<Rightarrow> u32 \<Rightarrow> bool \<Rightarrow> 'a vkst_scheme \<Rightarrow> (nat, 'a vkst_scheme) outcome" where
  "rw_start b bno wr s =
     bindo (alloc3_desc s) (\<lambda>r s.
     case r of
       None \<Rightarrow> Sleep (Named ''disk.free'') (sleeping (Named ''disk.free'') s)
     | Some (i0, i1, i2) \<Rightarrow> Ret i0 (set_reg 0x050 0 (upd_vd (format_chain b bno wr i0 i1 i2) s)))"

text \<open>The rest of \<open>virtio_disk_rw\<close>: it sleeps until the interrupt has reset the buffer's flag.\<close>

definition rw_finish :: "nat \<Rightarrow> nat \<Rightarrow> 'a vkst_scheme \<Rightarrow> (unit, 'a vkst_scheme) outcome" where
  "rw_finish b i0 s =
     (if bdisk (vd s) b then Sleep (BufChan b) (sleeping (BufChan b) s)
      else free_chain i0 (upd_vd (\<lambda>v. v\<lparr>info_b := (info_b v)[i0 := None]\<rparr>) s))"

function intr_loop :: "'a vkst_scheme \<Rightarrow> (unit, 'a vkst_scheme) outcome" where
  "intr_loop s =
     (let v = vd s in
      if used_idx v \<noteq> dev_idx v
      then let i = unat (used_ring v ! (unat (used_idx v) mod NUM)) in
        if i \<ge> NUM then Panic ''undefined: info''
        else if info_status v ! i \<noteq> 0 then Panic ''virtio_disk_intr status''
        else case info_b v ! i of
            None \<Rightarrow> Panic ''undefined: info.b''
          | Some b \<Rightarrow> intr_loop (wakeup (BufChan b) (upd_vd (\<lambda>v. v\<lparr>bdisk := (bdisk v)(b := False), used_idx := used_idx v + 1\<rparr>) s))
      else Ret () s)"
  by pat_completeness auto

lemma unat_gap_less:
  fixes x y :: u16
  assumes "x \<noteq> y"
  shows "unat (y - (x + 1)) < unat (y - x)"
proof -
  have "y - x \<noteq> 0" using assms by simp
  moreover have "y - (x + 1) = y - x - 1" by (rule diff_diff_eq [symmetric])
  ultimately show ?thesis by (simp only: unat_minus_1_less not_False_eq_True)
qed

termination intr_loop
  by (relation "measure (\<lambda>s. unat (dev_idx (vd s) - used_idx (vd s)))") (auto intro!: unat_gap_less)

declare intr_loop.simps [simp del]

definition virtio_disk_intr :: "'a vkst_scheme \<Rightarrow> (unit, 'a vkst_scheme) outcome" where
  "virtio_disk_intr s = intr_loop (set_reg 0x064 (reg 0x060 s AND 3) s)"

end
