(* ===== verification/Syscall.thy ===== *)
theory Syscall
  imports Exec Virtio
begin

text \<open>
  The process system calls (kernel/sysproc.c), the dispatch on the call number
  (kernel/syscall.c), and the traps that lead there (kernel/trap.c, \<open>forkret\<close> of kernel/proc.c).
\<close>

unbundle bit_operations_syntax

section \<open>Process calls\<close>

record page_stat =
  ps_va :: u32
  ps_state :: u32
  ps_dirty :: bool
  ps_seq :: int
  ps_slot :: int

definition MAX_PAGES_INFO :: nat where "MAX_PAGES_INFO = 128"

text \<open>What \<open>sys_memstat\<close> reports of the page at \<open>va\<close>: 0 unmapped, 1 resident, 2 swapped.\<close>

definition page_info :: "proc \<Rightarrow> u64 \<Rightarrow> page_stat" where
  "page_info p va =
     (case find (\<lambda>i. rva (resident_pages p i) = va) [0..<nat (num_resident p)] of
        Some i \<Rightarrow> \<lparr>ps_va = ucast va, ps_state = 1, ps_dirty = rdirty (resident_pages p i), ps_seq = rseq (resident_pages p i), ps_slot = -1\<rparr>
      | None \<Rightarrow>
          (case find (\<lambda>i. sva (swapped_pages p i) = va) [0..<nat (num_swapped p)] of
             Some i \<Rightarrow> \<lparr>ps_va = ucast va, ps_state = 2, ps_dirty = False, ps_seq = -1, ps_slot = int (sslot (swapped_pages p i))\<rparr>
           | None \<Rightarrow> \<lparr>ps_va = ucast va, ps_state = 0, ps_dirty = False, ps_seq = -1, ps_slot = -1\<rparr>))"

definition page_stat_bytes :: "page_stat \<Rightarrow> u8 list" where
  "page_stat_bytes i = concat (map (le_bytes 4)
     [ps_va i, ps_state i, if ps_dirty i then 1 else 0, of_int (ps_seq i), of_int (ps_slot i)])"

definition memstat_pages :: "proc \<Rightarrow> page_stat list" where
  "memstat_pages p = map (\<lambda>k. page_info p (of_nat (4096 * k)))
     [0..<min MAX_PAGES_INFO ((unat (psz p) + 4095) div 4096)]"

definition memstat_bytes :: "u8 list \<Rightarrow> proc \<Rightarrow> u8 list" where
  "memstat_bytes junk p =
     blk_put junk 0 (concat (map (le_bytes 4 :: u32 \<Rightarrow> u8 list)
       [of_int (pid p), ucast (psz p div PGSIZE), of_int (num_resident p), of_int (num_swapped p), of_int (next_fifo_seq p + 1)])
       @ concat (map page_stat_bytes (memstat_pages p)))"

definition sys_memstat :: "'a kst_scheme \<Rightarrow> (io_result, 'a kst_scheme) outcome" where
  "sys_memstat s =
     bindo (copyout (pagetable (myproc s)) (argaddr 0 s) (memstat_bytes (local_buf (20 + 20 * MAX_PAGES_INFO) s) (myproc s)) s) (\<lambda>r s.
     fin (if r < 0 then -1 else 0) s)"

definition sys_exit :: "'a kst_scheme \<Rightarrow> (io_result, 'a kst_scheme) outcome" where
  "sys_exit s = Exit (argint 0 s) s"

definition sys_getpid :: "'a kst_scheme \<Rightarrow> (io_result, 'a kst_scheme) outcome" where
  "sys_getpid s = fin (pid (myproc s)) s"

definition sys_fork :: "'a kst_scheme \<Rightarrow> (io_result, 'a kst_scheme) outcome" where
  "sys_fork s = bindo (kfork s) (\<lambda>r s. fin r s)"

definition sys_wait :: "'a kst_scheme \<Rightarrow> (io_result, 'a kst_scheme) outcome" where
  "sys_wait s = bindo (kwait (argaddr 0 s) s) (\<lambda>r s. fin r s)"

definition sys_sbrk :: "'a kst_scheme \<Rightarrow> (io_result, 'a kst_scheme) outcome" where
  "sys_sbrk s =
     (let k = argint 0 s; addr = psz (myproc s) in
      if k > 0 then
        if addr + of_int k < addr \<or> addr + of_int k > TRAPFRAME then fin (-1) s
        else fin (uint addr) (upd_cur (\<lambda>p. p\<lparr>psz := psz p + of_int k\<rparr>) s)
      else if k < 0 then
        bindo (uvmdealloc (pagetable (myproc s)) addr (addr + of_int k) s) (\<lambda>sz s.
        fin (uint addr) (upd_cur (\<lambda>p. p\<lparr>psz := sz\<rparr>) s))
      else fin (uint addr) s)"

text \<open>A round of the waiting loop of \<open>sys_pause\<close>, entered with the time \<open>ticks0\<close> of the call.\<close>

definition pause_loop :: "u32 \<Rightarrow> int \<Rightarrow> 'a kst_scheme \<Rightarrow> (io_result, 'a kst_scheme) outcome" where
  "pause_loop ticks0 k s =
     (if ticks s - ticks0 < of_int k then
        if killed (cur s) s then fin (-1) s else sleep_on (Named ''ticks'') s
      else fin 0 s)"

definition sys_pause :: "'a kst_scheme \<Rightarrow> (io_result, 'a kst_scheme) outcome" where
  "sys_pause s = (let k = argint 0 s; k = (if k < 0 then 0 else k) in pause_loop (ticks s) k s)"

definition sys_kill :: "'a kst_scheme \<Rightarrow> (io_result, 'a kst_scheme) outcome" where
  "sys_kill s = (case kkill (argint 0 s) s of (r, s) \<Rightarrow> fin r s)"

definition sys_uptime :: "'a kst_scheme \<Rightarrow> (io_result, 'a kst_scheme) outcome" where
  "sys_uptime s = fin (uint (ticks s)) s"

section \<open>Dispatch\<close>

definition syscalls :: "('a conskst_scheme \<Rightarrow> (io_result, 'a conskst_scheme) outcome) list" where
  "syscalls = [sys_fork, sys_exit, sys_wait, sys_pipe, sys_read devsw_read, sys_kill, sys_exec, sys_fstat, sys_chdir, sys_dup,
     sys_getpid, sys_sbrk, sys_pause, sys_uptime, sys_open, sys_write devsw_write, sys_mknod, sys_unlink, sys_link,
     sys_mkdir, sys_close, sys_memstat]"

definition syscall :: "'a conskst_scheme \<Rightarrow> (io_result, 'a conskst_scheme) outcome" where
  "syscall s =
     (let me = cur s; num = sint (ucast (tf_get me TF_a7 s) :: u32) in
      if num > 0 \<and> num < int (length (syscalls :: ('a conskst_scheme \<Rightarrow> _) list)) + 1
      then bindo ((syscalls ! nat (num - 1)) s) (\<lambda>r s.
        case r of Finished v \<Rightarrow> Ret r (tf_put me TF_a0 (of_int v) s) | Blocked i \<Rightarrow> Ret r s)
      else Ret (Finished (-1)) (tf_put me TF_a0 (-1) (log_event (UNKNOWNCALL (pid (myproc s)) (pname (myproc s)) num) s)))"

section \<open>Interrupts\<close>

definition SSTATUS_SPP :: u64 where "SSTATUS_SPP = push_bit 8 1"
definition SSTATUS_SPIE :: u64 where "SSTATUS_SPIE = push_bit 5 1"
definition SSTATUS_SIE :: u64 where "SSTATUS_SIE = push_bit 1 1"
definition UART0_IRQ :: int where "UART0_IRQ = 10"
definition VIRTIO0_IRQ :: int where "VIRTIO0_IRQ = 1"

definition clockintr :: "'a kst_scheme \<Rightarrow> 'a kst_scheme" where
  "clockintr s =
     (let s = (if hartid s = 0 then wakeup (Named ''ticks'') (s\<lparr>ticks := ticks s + 1\<rparr>) else s) in
      s\<lparr>stimecmp := time s + 1000000\<rparr>)"

definition plic_claim :: "'a vkst_scheme \<Rightarrow> int" where
  "plic_claim s = irq s"

definition plic_complete :: "int \<Rightarrow> 'a vkst_scheme \<Rightarrow> 'a vkst_scheme" where
  "plic_complete i s = s\<lparr>plic_done := plic_done s @ [i]\<rparr>"

definition devintr :: "'a vkst_scheme \<Rightarrow> (int, 'a vkst_scheme) outcome" where
  "devintr s =
     (if scause s = 0x8000000000000009 then
        let i = plic_claim s in
        bindo (if i = UART0_IRQ then Ret () (uartintr s)
               else if i = VIRTIO0_IRQ then virtio_disk_intr s
               else Ret () (if i \<noteq> 0 then log_event (BADIRQ i) s else s)) (\<lambda>_ s.
        Ret 1 (if i \<noteq> 0 then plic_complete i s else s))
      else if scause s = 0x8000000000000005 then Ret 2 (clockintr s)
      else Ret 0 s)"

definition kerneltrap :: "'a vkst_scheme \<Rightarrow> (unit, 'a vkst_scheme) outcome" where
  "kerneltrap s =
     (let sepc0 = sepc s; sstatus0 = sstatus s in
      if sstatus0 AND SSTATUS_SPP = 0 then Panic ''kerneltrap: not from supervisor mode''
      else if sstatus0 AND SSTATUS_SIE \<noteq> 0 then Panic ''kerneltrap: interrupts enabled''
      else bindo (devintr s) (\<lambda>which s.
        if which = 0 then Panic ''kerneltrap''
        else if which = 2 then yield s
        else Ret () (s\<lparr>sepc := sepc0, sstatus := sstatus0\<rparr>)))"

section \<open>Traps from user space\<close>

definition prepare_return :: "'a kst_scheme \<Rightarrow> 'a kst_scheme" where
  "prepare_return s =
     (let me = cur s;
          s = s\<lparr>sstatus := sstatus s AND NOT SSTATUS_SIE, stvec := TRAMPOLINE + (sym s ''uservec'' - trampoline s)\<rparr>;
          s = tf_put me TF_kernel_satp (satp s) s;
          s = tf_put me TF_kernel_sp (kstack (procs s ! me) + PGSIZE) s;
          s = tf_put me TF_kernel_trap (sym s ''usertrap'') s;
          s = tf_put me TF_kernel_hartid (of_nat (hartid s)) s;
          s = s\<lparr>sstatus := (sstatus s AND NOT SSTATUS_SPP) OR SSTATUS_SPIE\<rparr>
      in s\<lparr>sepc := tf_get me TF_epc s\<rparr>)"

text \<open>May the process write to the page? Heap and stack always; elsewhere its segment decides.\<close>

definition can_write :: "proc \<Rightarrow> u64 \<Rightarrow> bool" where
  "can_write p page_va =
     (if page_va \<ge> heap_start p then True
      else case find (\<lambda>h. page_va \<ge> vaddr h \<and> page_va < vaddr h + memsz h)
          (map (\<lambda>i. get_proghdr (drop (56 * i) (phdrs p))) [0..<nat (num_phdrs p)]) of
        None \<Rightarrow> False | Some h \<Rightarrow> pflags h AND ELF_PROG_FLAG_WRITE \<noteq> 0)"

definition mark_dirty :: "u64 \<Rightarrow> proc \<Rightarrow> proc" where
  "mark_dirty page_va p =
     (case find (\<lambda>i. rva (resident_pages p i) = page_va) [0..<nat (num_resident p)] of
        None \<Rightarrow> p
      | Some i \<Rightarrow> p\<lparr>resident_pages := (resident_pages p)(i := (resident_pages p i)\<lparr>rdirty := True\<rparr>)\<rparr>)"

definition page_fault :: "'a kst_scheme \<Rightarrow> (unit, 'a kst_scheme) outcome" where
  "page_fault s =
     (let va = stval s; p = myproc s in
      if va \<ge> MAXVA then Exit (-1) s
      else bindo (walk (pagetable p) va False s) (\<lambda>pte s.
        let e = load64 (phys s) pte in
        if scause s = 15 \<and> pte \<noteq> 0 \<and> e AND PTE_V \<noteq> 0 \<and> e AND PTE_W = 0 then
          if can_write p (PGROUNDDOWN va)
          then Ret () (upd_cur (mark_dirty (PGROUNDDOWN va)) (put64 pte (e OR PTE_W) s))
          else Ret () (setkilled (cur s) (log_event (KILLED (pid p) va ''write'') s))
        else bindo (handle_pgfault (pagetable p) va (access_type s) s) (\<lambda>r s.
          Ret () (if r < 0 then setkilled (cur s) (log_event (KILLED (pid p) va (access_type s)) s) else s))))"

text \<open>A call of \<open>kexit\<close> somewhere below ends the handler by running \<open>kexit\<close> to its end.\<close>

definition do_exit :: "('b, 'a kst_scheme) outcome \<Rightarrow> ('b, 'a kst_scheme) outcome" where
  "do_exit out =
     (case out of
        Exit c s \<Rightarrow>
          (case kexit c s of
             Ret _ s \<Rightarrow> Exit c s | Panic m \<Rightarrow> Panic m | Exit c s \<Rightarrow> Exit c s | Sleep ch s \<Rightarrow> Sleep ch s | NoFuel \<Rightarrow> NoFuel)
      | _ \<Rightarrow> out)"

definition trap_cause :: "'a vkst_scheme \<Rightarrow> (int \<times> io_result, 'a vkst_scheme) outcome" where
  "trap_cause s =
     (if scause s = 8 then
        if killed (cur s) s then Exit (-1) s
        else
          let s = tf_put (cur s) TF_epc (tf_get (cur s) TF_epc s + 4) s in
          bindo (syscall (s\<lparr>sstatus := sstatus s OR SSTATUS_SIE\<rparr>)) (\<lambda>r s. Ret (0, r) s)
      else bindo (devintr s) (\<lambda>which s.
        if which \<noteq> 0 then Ret (which, Finished 0) s
        else if scause s = 12 \<or> scause s = 15 \<or> scause s = 13
        then bindo (page_fault s) (\<lambda>_ s. Ret (0, Finished 0) s)
        else Ret (0, Finished 0) (setkilled (cur s)
          (log_event (UNEXPECTED (scause s) (pid (myproc s)) (sepc s) (stval s)) s))))"

text \<open>
  \<open>usertrap\<close>: the result is the page table to return to, or \<open>None\<close> when the system call
  waits for a pipe or a device.
\<close>

definition usertrap :: "'a vkst_scheme \<Rightarrow> (u64 option, 'a vkst_scheme) outcome" where
  "usertrap s =
     (if sstatus s AND SSTATUS_SPP \<noteq> 0 then Panic ''usertrap: not from user mode''
      else
        let s = s\<lparr>stvec := sym s ''kernelvec''\<rparr>; s = tf_put (cur s) TF_epc (sepc s) s in
        do_exit (bindo (trap_cause s) (\<lambda>(which, r) s.
        case r of
          Blocked _ \<Rightarrow> Ret None s
        | Finished _ \<Rightarrow>
            if killed (cur s) s then Exit (-1) s
            else if which = 2 then yield s
            else let s = prepare_return s in Ret (Some (MAKE_SATP (pagetable (myproc s)))) s)))"

definition forkret :: "'a kst_scheme \<Rightarrow> (u64, 'a kst_scheme) outcome" where
  "forkret s =
     bindo (if first_fork s
            then bindo (fsinit ROOTDEV s) (\<lambda>_ s.
              bindo (kexec [47, 105, 110, 105, 116] [[47, 105, 110, 105, 116]] (s\<lparr>first_fork := False\<rparr>)) (\<lambda>r s.
              let s = tf_put (cur s) TF_a0 (of_int r) s in
              if tf_get (cur s) TF_a0 s = -1 then Panic ''exec'' else Ret () s))
            else Ret () s) (\<lambda>_ s.
     let s = prepare_return s in Ret (MAKE_SATP (pagetable (myproc s))) s)"

end
