(* ===== verification/Pager.thy ===== *)
theory Pager
  imports Frame
begin

text \<open>
  The bookkeeping of the demand pager: the resident set with its FIFO sequence numbers,
  and the swap table with its slots. The invariant \<open>pager_ok\<close> says that sequence numbers
  identify resident pages, that no two swapped pages share a slot, and that slots in use are marked;
  every page fault keeps it, and the arrays of the process structure are never overrun.
\<close>

section \<open>The invariant\<close>

definition resident_ok :: "proc \<Rightarrow> bool" where
  "resident_ok p \<longleftrightarrow> 0 \<le> num_resident p \<and> inj_on (\<lambda>i. rseq (resident_pages p i)) {..<nat (num_resident p)} \<and>
     (\<forall>i<nat (num_resident p). rseq (resident_pages p i) \<le> next_fifo_seq p)"

definition swap_ok :: "proc \<Rightarrow> bool" where
  "swap_ok p \<longleftrightarrow> 0 \<le> num_swapped p \<and> length (swap_slots p) = MAX_SWAP_PAGES \<and>
     inj_on (\<lambda>i. sslot (swapped_pages p i)) {..<nat (num_swapped p)} \<and>
     (\<forall>i<nat (num_swapped p). sslot (swapped_pages p i) < MAX_SWAP_PAGES \<and> swap_slots p ! sslot (swapped_pages p i))"

definition pager_ok :: "proc \<Rightarrow> bool" where
  "pager_ok p \<longleftrightarrow> resident_ok p \<and> swap_ok p"

text \<open>\<open>swapped_pages\<close> has MAX\_SWAP\_PAGES entries.\<close>

lemma swap_ok_bound: "swap_ok p \<Longrightarrow> num_swapped p \<le> int MAX_SWAP_PAGES"
proof -
  assume a: "swap_ok p"
  let ?f = "\<lambda>i. sslot (swapped_pages p i)"
  have "?f ` {..<nat (num_swapped p)} \<subseteq> {..<MAX_SWAP_PAGES}" using a by (auto simp: swap_ok_def)
  then have "card {..<nat (num_swapped p)} \<le> card {..<MAX_SWAP_PAGES}"
    using a by (intro card_inj_on_le [where f = ?f]) (auto simp: swap_ok_def)
  then show ?thesis by simp
qed

lemma resident_ok_add: "resident_ok p \<Longrightarrow> resident_ok (resident_add va sw p)"
proof -
  assume a: "resident_ok p"
  let ?q = "resident_add va sw p" and ?n = "nat (num_resident p)"
  have n: "nat (num_resident ?q) = Suc ?n" using a by (auto simp: resident_ok_def resident_add_def Let_def nat_add_distrib)
  have old: "resident_pages ?q i = resident_pages p i" if "i < ?n" for i using that by (simp add: resident_add_def Let_def)
  have new: "rseq (resident_pages ?q ?n) = next_fifo_seq p + 1" "next_fifo_seq ?q = next_fifo_seq p + 1" "0 \<le> num_resident ?q"
    using a by (simp_all add: resident_add_def Let_def resident_ok_def)
  have le: "rseq (resident_pages p i) \<le> next_fifo_seq p" if "i < ?n" for i using a that by (simp add: resident_ok_def)
  have "inj_on (\<lambda>i. rseq (resident_pages ?q i)) {..<Suc ?n}"
    unfolding lessThan_Suc inj_on_insert
  proof (intro conjI)
    show "inj_on (\<lambda>i. rseq (resident_pages ?q i)) {..<?n}"
      using a old by (auto simp: resident_ok_def inj_on_def)
    show "rseq (resident_pages ?q ?n) \<notin> (\<lambda>i. rseq (resident_pages ?q i)) ` ({..<?n} - {?n})"
      using le old new(1) by force
  qed
  moreover have "rseq (resident_pages ?q i) \<le> next_fifo_seq ?q" if "i < Suc ?n" for i
    using that le [of i] old [of i] new by (cases "i = ?n") (auto simp: less_Suc_eq)
  ultimately show ?thesis using new(3) by (simp add: resident_ok_def n)
qed

text \<open>Removing entry \<open>v\<close> of an array by moving the last one into its place.\<close>

lemma inj_on_drop:
  fixes v n :: nat
  assumes "inj_on f {..<n}" "v < n"
  shows "inj_on (f(v := f (n - 1))) {..<n - 1}"
proof (rule inj_onI)
  fix x y
  assume xy: "x \<in> {..<n - 1}" "y \<in> {..<n - 1}" and "(f(v := f (n - 1))) x = (f(v := f (n - 1))) y"
  then have "f (if x = v then n - 1 else x) = f (if y = v then n - 1 else y)" by (auto split: if_splits)
  then have "(if x = v then n - 1 else x) = (if y = v then n - 1 else y)"
    by (rule inj_onD [OF assms(1)]) (use xy in auto)
  then show "x = y" using xy by (auto split: if_splits)
qed

lemma resident_ok_drop:
  assumes "resident_ok p" "v < nat (num_resident p)"
  shows "resident_ok (resident_drop v p)"
proof -
  let ?n = "nat (num_resident p)"
  have n: "nat (num_resident p - 1) = ?n - 1" by simp
  have e: "(\<lambda>i. rseq (((resident_pages p)(v := resident_pages p (?n - 1))) i)) =
    (\<lambda>i. rseq (resident_pages p i))(v := rseq (resident_pages p (?n - 1)))" by auto
  have "inj_on (\<lambda>i. rseq (((resident_pages p)(v := resident_pages p (?n - 1))) i)) {..<?n - 1}"
    unfolding e using assms by (intro inj_on_drop) (auto simp: resident_ok_def)
  then show ?thesis using assms by (auto simp: resident_ok_def resident_drop_def n)
qed

lemma swap_ok_slot:
  assumes "swap_ok p" "swap_allocated_slot p = (Some sl, p')"
  shows "swap_ok p'" "sl < MAX_SWAP_PAGES" "swap_slots p' ! sl" "num_swapped p' = num_swapped p" "swapped_pages p' = swapped_pages p"
    "\<forall>i<nat (num_swapped p). sslot (swapped_pages p i) \<noteq> sl"
proof -
  obtain i where i: "find (\<lambda>i. \<not> swap_slots p ! i) [0..<MAX_SWAP_PAGES] = Some i" "sl = i"
    "p' = p\<lparr>swap_slots := (swap_slots p)[i := True]\<rparr>"
    using assms(2) by (auto simp: swap_allocated_slot_def split: option.splits)
  then have f: "sl < MAX_SWAP_PAGES" "\<not> swap_slots p ! sl" by (auto simp: find_Some_iff)
  then show "sl < MAX_SWAP_PAGES" "swap_slots p' ! sl" "num_swapped p' = num_swapped p" "swapped_pages p' = swapped_pages p"
    "\<forall>i<nat (num_swapped p). sslot (swapped_pages p i) \<noteq> sl"
    using assms(1) i by (auto simp: swap_ok_def)
  show "swap_ok p'" using assms(1) i(2,3) f by (auto simp: swap_ok_def nth_list_update)
qed

lemma swap_ok_add:
  assumes "swap_ok p" "sl < MAX_SWAP_PAGES" "swap_slots p ! sl" "\<forall>i<nat (num_swapped p). sslot (swapped_pages p i) \<noteq> sl"
  shows "swap_ok (swapped_add va sl p)"
proof -
  let ?n = "nat (num_swapped p)" and ?q = "swapped_add va sl p"
  have n: "nat (num_swapped ?q) = Suc ?n" using assms(1) by (auto simp: swap_ok_def swapped_add_def nat_add_distrib)
  have old: "swapped_pages ?q i = swapped_pages p i" if "i < ?n" for i using that by (simp add: swapped_add_def)
  have new: "sslot (swapped_pages ?q ?n) = sl" "swap_slots ?q = swap_slots p" "0 \<le> num_swapped ?q"
    using assms(1) by (simp_all add: swapped_add_def swap_ok_def)
  have "inj_on (\<lambda>i. sslot (swapped_pages ?q i)) {..<Suc ?n}"
    unfolding lessThan_Suc inj_on_insert
  proof (intro conjI)
    show "inj_on (\<lambda>i. sslot (swapped_pages ?q i)) {..<?n}" using assms(1) old by (auto simp: swap_ok_def inj_on_def)
    show "sslot (swapped_pages ?q ?n) \<notin> (\<lambda>i. sslot (swapped_pages ?q i)) ` ({..<?n} - {?n})" using assms(4) old new(1) by force
  qed
  moreover have "sslot (swapped_pages ?q i) < MAX_SWAP_PAGES \<and> swap_slots ?q ! sslot (swapped_pages ?q i)" if "i < Suc ?n" for i
    using that assms(1-3) old [of i] new by (cases "i = ?n") (auto simp: swap_ok_def less_Suc_eq)
  ultimately show ?thesis using assms(1) new by (simp add: swap_ok_def n)
qed

lemma swap_ok_take:
  assumes "swap_ok p" "take_swapped va p = (r, p')"
  shows "swap_ok p'"
proof (cases "find (\<lambda>i. sva (swapped_pages p i) = va) [0..<nat (num_swapped p)]")
  case (Some v)
  let ?n = "nat (num_swapped p)" and ?f = "\<lambda>i. sslot (swapped_pages p i)"
  have v: "v < ?n" using Some by (auto simp: find_Some_iff)
  have p': "p' = p\<lparr>swapped_pages := (swapped_pages p)(v := swapped_pages p (?n - 1)), num_swapped := num_swapped p - 1,
    swap_slots := (swap_slots p)[?f v := False]\<rparr>" using assms(2) Some v by (simp add: take_swapped_def Let_def nat_diff_distrib')
  have n: "nat (num_swapped p - 1) = ?n - 1" by simp
  have e: "(\<lambda>i. sslot (((swapped_pages p)(v := swapped_pages p (?n - 1))) i)) = ?f(v := ?f (?n - 1))" by auto
  have inj: "inj_on ?f {..<?n}" using assms(1) by (simp add: swap_ok_def)
  have inj': "inj_on (\<lambda>i. sslot (((swapped_pages p)(v := swapped_pages p (?n - 1))) i)) {..<?n - 1}"
    unfolding e by (rule inj_on_drop [OF inj v])
  have ne: "?f j \<noteq> ?f v" if "j < ?n" "j \<noteq> v" for j using inj that v by (auto simp: inj_on_def)
  have s: "sslot (((swapped_pages p)(v := swapped_pages p (?n - 1))) i) < MAX_SWAP_PAGES \<and>
    (swap_slots p)[?f v := False] ! sslot (((swapped_pages p)(v := swapped_pages p (?n - 1))) i)" if "i < ?n - 1" for i
  proof -
    define j where "j = (if i = v then ?n - 1 else i)"
    have j: "j < ?n" "j \<noteq> v" using that by (auto simp: j_def)
    then have "?f j < MAX_SWAP_PAGES" "swap_slots p ! ?f j" "?f v \<noteq> ?f j" using assms(1) ne [of j] by (auto simp: swap_ok_def)
    then show ?thesis by (auto simp: j_def split: if_splits)
  qed
  show ?thesis using assms(1) v inj' s unfolding p' swap_ok_def by (simp add: n)
qed (use assms in \<open>simp add: take_swapped_def\<close>)

lemma swap_slot_fields: "swap_allocated_slot p = (r, p') \<Longrightarrow> resident_pages p' = resident_pages p \<and> num_resident p' = num_resident p \<and> next_fifo_seq p' = next_fifo_seq p"
  by (auto simp: swap_allocated_slot_def split: option.splits)

lemma take_swapped_fields: "take_swapped va p = (r, p') \<Longrightarrow> resident_pages p' = resident_pages p \<and> num_resident p' = num_resident p \<and> next_fifo_seq p' = next_fifo_seq p"
  by (auto simp: take_swapped_def Let_def split: option.splits)

lemma resident_ok_cong:
  "resident_pages p = resident_pages q \<Longrightarrow> num_resident p = num_resident q \<Longrightarrow> next_fifo_seq p = next_fifo_seq q \<Longrightarrow> resident_ok p = resident_ok q"
  by (simp add: resident_ok_def)

lemma swap_ok_cong:
  "swapped_pages p = swapped_pages q \<Longrightarrow> num_swapped p = num_swapped q \<Longrightarrow> swap_slots p = swap_slots q \<Longrightarrow> swap_ok p = swap_ok q"
  by (simp add: swap_ok_def)

section \<open>The victim\<close>

lemma victim_fold:
  "0 < n \<Longrightarrow> foldl (\<lambda>v i. if g i < g v then i else v) 0 [1..<n] < n \<and>
     (\<forall>i<n. (g (foldl (\<lambda>v i. if g i < g v then i else v) 0 [1..<n]) :: int) \<le> g i)"
proof (induction n)
  case (Suc n)
  show ?case
  proof (cases "n = 0")
    case False
    then show ?thesis using Suc.IH by (auto simp: less_Suc_eq)
  qed simp
qed simp

lemma victim_index_min:
  assumes "0 < num_resident p"
  shows "victim_index p < nat (num_resident p)"
    and "i < nat (num_resident p) \<Longrightarrow> rseq (resident_pages p (victim_index p)) \<le> rseq (resident_pages p i)"
  using victim_fold [of "nat (num_resident p)" "\<lambda>i. rseq (resident_pages p i)"] assms unfolding victim_index_def by auto

section \<open>Eviction\<close>

interpretation procs_frame: low_frame "\<lambda>t. procs t = v \<and> cur t = c" for v c
  by unfold_locales simp_all

lemma procs_kept:
  "walkaddr pt va s = Ret x t \<Longrightarrow> procs t = procs s \<and> cur t = cur s"
  "begin_op s = Ret y t \<Longrightarrow> procs t = procs s \<and> cur t = cur s"
  "end_op s = Ret y t \<Longrightarrow> procs t = procs s \<and> cur t = cur s"
  "swap_write_page sl pg s = Ret r t \<Longrightarrow> procs t = procs s \<and> cur t = cur s"
  "uvmunmap pt va np fr s = Ret y t \<Longrightarrow> procs t = procs s \<and> cur t = cur s"
  "kalloc s = Ret x t \<Longrightarrow> procs t = procs s \<and> cur t = cur s"
  "swap_in mem sl s = Ret y t \<Longrightarrow> procs t = procs s \<and> cur t = cur s"
  "map_or_free pt va mem perm s = Ret r t \<Longrightarrow> procs t = procs s \<and> cur t = cur s"
  "readi sink ip off k acc s = Ret xx t \<Longrightarrow> (\<And>acc tot bs u. stays (\<lambda>t. procs t = procs s \<and> cur t = cur s) (sink acc tot bs u)) \<Longrightarrow> procs t = procs s \<and> cur t = cur s"
  using procs_frame.walkaddr_stays [of s "procs s" "cur s" pt va] procs_frame.begin_op_stays [of s "procs s" "cur s"]
    procs_frame.end_op_stays [of s "procs s" "cur s"] procs_frame.swap_write_page_stays [of s "procs s" "cur s" sl pg]
    procs_frame.uvmunmap_stays [of s "procs s" "cur s" pt va np fr] procs_frame.kalloc_stays [of s "procs s" "cur s"]
    procs_frame.swap_in_stays [of s "procs s" "cur s" mem sl] procs_frame.map_or_free_stays [of s "procs s" "cur s" pt va mem perm]
    procs_frame.readi_stays [of s "procs s" "cur s" sink ip off k acc]
  by auto

text \<open>What an eviction that returns has done to the process: the swap table grows if the victim was dirty.\<close>

definition swap_victim :: "nat \<Rightarrow> proc \<Rightarrow> proc \<Rightarrow> bool" where
  "swap_victim v p q \<longleftrightarrow>
     (if rdirty (resident_pages p v)
      then \<exists>sl p'. swap_allocated_slot p = (Some sl, p') \<and> q = swapped_add (rva (resident_pages p v)) sl p'
      else q = p)"

lemma swap_out_myproc:
  assumes "cur s < length (procs s)" "swap_out v s = Ret x t"
  shows "cur t = cur s \<and> length (procs t) = length (procs s) \<and> swap_victim v (myproc s) (myproc t)"
proof (cases "rdirty (resident_pages (myproc s) v)")
  case False
  then show ?thesis using assms by (simp add: swap_out_def swap_victim_def)
next
  case True
  define va where "va = rva (resident_pages (myproc s) v)"
  obtain sl p' where sl: "swap_allocated_slot (myproc s) = (Some sl, p')"
    using assms(2) True by (auto simp: swap_out_def Let_def split: prod.splits option.splits)
  define s2 where "s2 = log_event (SWAPOUT (pid (myproc s)) va sl) (upd_cur (\<lambda>_. p') s)"
  have s2: "myproc s2 = p'" "cur s2 = cur s" "length (procs s2) = length (procs s)"
    using assms(1) by (simp_all add: s2_def myproc_upd_cur)
  obtain pa a b r' c d where st: "walkaddr (pagetable (myproc s)) va s2 = Ret pa a" "begin_op a = Ret () b"
    "swap_write_page sl pa b = Ret r' c" "end_op c = Ret () d" "t = upd_cur (swapped_add va sl) d"
    using assms(2) True sl by (auto simp: swap_out_def Let_def bindo_Ret_iff va_def [symmetric] s2_def [symmetric] split: if_splits)
  have d: "procs d = procs s2" "cur d = cur s2"
    using procs_kept(1) [OF st(1)] procs_kept(2) [OF st(2)] procs_kept(4) [OF st(3)] procs_kept(3) [OF st(4)] by auto
  then have "myproc d = p'" using s2 by (simp add: myproc_def)
  then show ?thesis using True sl s2 d assms(1) unfolding st(5) swap_victim_def va_def by (simp add: myproc_upd_cur)
qed

lemma evict_page_myproc:
  assumes "cur s < length (procs s)" "evict_page s = Ret r t"
  shows "r = 0 \<and> 0 < num_resident (myproc s) \<and> cur t = cur s \<and> length (procs t) = length (procs s) \<and>
    (\<exists>q. swap_victim (victim_index (myproc s)) (myproc s) q \<and> myproc t = resident_drop (victim_index (myproc s)) q)"
proof -
  let ?p = "myproc s" and ?v = "victim_index (myproc s)"
  define s1 where "s1 = log_event (EVICT (pid ?p) (rva (resident_pages ?p ?v)) (rdirty (resident_pages ?p ?v)))
    (log_event (VICTIM (pid ?p) (rva (resident_pages ?p ?v)) (rseq (resident_pages ?p ?v))) (log_event (MEMFULL (pid ?p)) s))"
  have s1: "procs s1 = procs s" "cur s1 = cur s" "myproc s1 = ?p" by (simp_all add: s1_def)
  obtain u w where u: "swap_out ?v s1 = Ret () u"
    and w: "uvmunmap (pagetable (myproc u)) (rva (resident_pages ?p ?v)) 1 True u = Ret () w"
    and last: "r = 0" "t = upd_cur (resident_drop ?v) w" "\<not> num_resident (myproc w) < 1"
    using assms(2) by (auto simp: evict_page_def Let_def bindo_Ret_iff s1_def [symmetric] split: if_splits)
  have q: "cur u = cur s" "length (procs u) = length (procs s)" "swap_victim ?v ?p (myproc u)"
    using swap_out_myproc [OF _ u] s1 assms(1) by auto
  have wu: "procs w = procs u" "cur w = cur u" using procs_kept(5) [OF w] by auto
  then have mw: "myproc w = myproc u" by (simp add: myproc_def)
  have n: "num_resident (myproc u) = num_resident ?p" using q(3) swap_slot_fields [of ?p]
    by (auto simp: swap_victim_def swapped_add_def split: if_splits)
  show ?thesis using q wu mw n last assms(1) by (auto simp: myproc_upd_cur)
qed

lemma pager_ok_victim:
  assumes "pager_ok p" "0 < num_resident p" "swap_victim (victim_index p) p q"
  shows "pager_ok (resident_drop (victim_index p) q)"
proof -
  have "pager_ok q" "num_resident q = num_resident p" "resident_pages q = resident_pages p"
  proof -
    have "swap_ok q \<and> resident_ok q \<and> num_resident q = num_resident p \<and> resident_pages q = resident_pages p"
    proof (cases "rdirty (resident_pages p (victim_index p))")
      case True
      then obtain sl p' where sl: "swap_allocated_slot p = (Some sl, p')" "q = swapped_add (rva (resident_pages p (victim_index p))) sl p'"
        using assms(3) by (auto simp: swap_victim_def)
      have sp: "swap_ok p" using assms(1) by (simp add: pager_ok_def)
      have "swap_ok q" unfolding sl(2) using swap_ok_slot [OF sp sl(1)] by (intro swap_ok_add) auto
      moreover have "resident_pages q = resident_pages p" "num_resident q = num_resident p" "next_fifo_seq q = next_fifo_seq p"
        using swap_slot_fields [OF sl(1)] by (simp_all add: sl(2) swapped_add_def)
      ultimately show ?thesis using assms(1) resident_ok_cong [of q p] by (simp add: pager_ok_def)
    qed (use assms in \<open>simp add: swap_victim_def pager_ok_def\<close>)
    then show "pager_ok q" "num_resident q = num_resident p" "resident_pages q = resident_pages p" by (simp_all add: pager_ok_def)
  qed
  moreover have "victim_index p < nat (num_resident p)" by (rule victim_index_min(1) [OF assms(2)])
  ultimately show ?thesis
    using resident_ok_drop [of q "victim_index p"] swap_ok_cong [of "resident_drop (victim_index p) q" q]
    by (simp add: pager_ok_def resident_drop_def)
qed

lemma evict_page_ok:
  assumes "cur s < length (procs s)" "pager_ok (myproc s)" "evict_page s = Ret r t"
  shows "pager_ok (myproc t) \<and> num_resident (myproc t) = num_resident (myproc s) - 1"
proof -
  obtain q where q: "0 < num_resident (myproc s)" "swap_victim (victim_index (myproc s)) (myproc s) q"
    "myproc t = resident_drop (victim_index (myproc s)) q" using evict_page_myproc [OF assms(1,3)] by auto
  then show ?thesis using pager_ok_victim [OF assms(2) q(1,2)] swap_slot_fields [of "myproc s"]
    by (auto simp: resident_drop_def swap_victim_def swapped_add_def split: if_splits)
qed


text \<open>Two clean resident pages; the second one came first.\<close>

definition two_pages :: proc where
  "two_pages = sample_proc\<lparr>resident_pages := (\<lambda>i. if i = 0 then \<lparr>rva = 0x1000, rseq = 5, rdirty = False\<rparr>
     else \<lparr>rva = 0x2000, rseq = 3, rdirty = False\<rparr>), num_resident := 2, next_fifo_seq := 5\<rparr>"

lemma two_pages_ok: "pager_ok two_pages"
  by (auto simp: pager_ok_def resident_ok_def swap_ok_def two_pages_def sample_proc_def inj_on_def numeral_2_eq_2 less_Suc_eq)

lemma load64_blank: "load64 (\<lambda>_. 0) a = 0"
  by (simp add: load64_def mread_def) (simp add: numeral_eq_Suc)

lemma walk_blank: "phys s = (\<lambda>_. 0) \<Longrightarrow> va < MAXVA \<Longrightarrow> walk pt va False s = Ret 0 s"
  by (simp add: walk_def numeral_2_eq_2 load64_blank not_le)

lemma evict_two_pages: "\<exists>t. evict_page (sample_kst [two_pages]) = Ret 0 t"
proof -
  have m: "myproc (sample_kst [two_pages]) = two_pages" by (simp add: sample_kst_def myproc_def)
  have v: "victim_index two_pages = 1" by (simp add: victim_index_def two_pages_def numeral_2_eq_2)
  have un: "uvmunmap pt 0x2000 1 True s = Ret () s" if "phys s = (\<lambda>_. 0)" for pt and s :: kst
    using that walk_blank [of s "0x2000" pt]
    by (simp add: uvmunmap_def uvmunmap_from.simps [of pt "0x2000"] uvmunmap_from.simps [of pt "0x3000"] uvmunmap_page_def MAXVA_def)
  have f: "\<not> rdirty (resident_pages two_pages 1)" "rva (resident_pages two_pages 1) = 0x2000" "num_resident two_pages = 2"
    by (simp_all add: two_pages_def)
  have so: "swap_out (Suc 0) s = Ret () s" if "myproc s = two_pages" for s :: kst using that f by (simp add: swap_out_def)
  have ph: "phys (log_event e s) = phys s" for e and s :: kst by (simp add: log_event_def)
  have "phys (sample_kst [two_pages]) = (\<lambda>_. 0)" by (simp add: sample_kst_def)
  then show ?thesis using f by (simp add: evict_page_def m v so un ph)
qed


section \<open>Page faults\<close>

lemma fault_alloc_myproc:
  assumes "cur s < length (procs s)" "fault_alloc s = Ret mem t" "pager_ok (myproc s)"
  shows "cur t = cur s \<and> length (procs t) = length (procs s) \<and> pager_ok (myproc t) \<and> num_resident (myproc t) \<le> num_resident (myproc s)"
proof -
  obtain m0 a where a: "kalloc s = Ret m0 a"
    "(if m0 \<noteq> 0 then Ret m0 a else bindo (evict_page a) (\<lambda>r s. if r < 0 then Ret 0 (setkilled (cur s) s)
       else bindo (kalloc s) (\<lambda>mem s. if mem = 0 then Panic ''kalloc failed after eviction'' else Ret mem s))) = Ret mem t"
    using assms(2) by (auto simp: fault_alloc_def bindo_Ret_iff)
  have ma: "procs a = procs s" "cur a = cur s" "myproc a = myproc s" using procs_kept(6) [OF a(1)] by (simp_all add: myproc_def)
  show ?thesis
  proof (cases "m0 = 0")
    case True
    then obtain r b where b: "evict_page a = Ret r b" using a(2) by (auto simp: bindo_Ret_iff)
    note e = evict_page_myproc [OF _ b] and f = evict_page_ok [OF _ _ b]
    have eb: "r = 0" "cur b = cur s" "length (procs b) = length (procs s)" "pager_ok (myproc b)" "num_resident (myproc b) \<le> num_resident (myproc s)"
      using e f ma assms(1,3) by auto
    then have "kalloc b = Ret mem t" using a(2) True b by (auto simp: bindo_Ret_iff split: if_splits)
    then show ?thesis using eb procs_kept(6) [of b mem t] by (simp add: myproc_def)
  qed (use a ma assms in \<open>simp add: myproc_def\<close>)
qed

lemma load_page_procs:
  assumes "load_page pt va mem acc s = Ret r t"
  shows "procs t = procs s \<and> cur t = cur s"
proof -
  have "stays (\<lambda>t. procs t = procs s \<and> cur t = cur s) (load_page pt va mem acc s)"
    unfolding load_page_def by (auto intro!: procs_frame.readi_stays procs_frame.find_segment_stays procs_frame.map_or_free_stays
      procs_frame.kfree_stays procs_frame.buffers_stay stay)
  with assms show ?thesis by simp
qed

definition now_resident :: "u64 \<Rightarrow> proc \<Rightarrow> bool" where
  "now_resident va p \<longleftrightarrow> (\<exists>q sw. pager_ok q \<and> p = resident_add va sw q)"

lemma now_resident_add: "pager_ok p \<Longrightarrow> now_resident va (resident_add va sw p) \<and> pager_ok (resident_add va sw p)"
  using resident_ok_add [of p va sw] swap_ok_cong [of "resident_add va sw p" p]
  by (auto simp: now_resident_def pager_ok_def resident_add_def Let_def)

lemma fill_page_ok:
  assumes "cur s < length (procs s)" "pager_ok (myproc s)" "fill_page pt va mem acc s = Ret r t"
  shows "pager_ok (myproc t) \<and> (r = 0 \<longrightarrow> now_resident va (myproc t))"
proof -
  define b where "b = zero_page mem s"
  have b: "cur b = cur s" "length (procs b) = length (procs s)" "myproc b = myproc s" by (simp_all add: b_def zero_page_def myproc_def)
  obtain slo p where p: "take_swapped va (myproc b) = (slo, p)" by fastforce
  have pok: "pager_ok p" using assms(2) b(3) swap_ok_take [OF _ p] take_swapped_fields [OF p] resident_ok_cong [of p "myproc b"]
    by (simp add: pager_ok_def)
  define c where "c = upd_cur (\<lambda>_. p) b"
  have c: "cur c = cur s" "length (procs c) = length (procs s)" "myproc c = p"
    using b assms(1) by (simp_all add: c_def myproc_upd_cur)
  obtain r' d where d: "(case slo of Some sl \<Rightarrow> bindo (swap_in mem sl (log_event (SWAPIN (pid p) va sl) (log_event (PAGEFAULT (pid p) va acc ''swap'') c)))
        (\<lambda>_ s. map_or_free pt va mem (PTE_U OR PTE_R) s) | None \<Rightarrow> load_page pt va mem acc c) = Ret r' d"
    and e: "(if r' < 0 then Ret (-1) d else bindo (add_to_resident_set va (slo \<noteq> None) d) (\<lambda>_ s. Ret 0 s)) = Ret r t"
    using assms(3) p unfolding c_def by (auto simp: fill_page_def bindo_Ret_iff Let_def b_def [symmetric])
  have "procs d = procs c \<and> cur d = cur c"
    using d by (auto simp: bindo_Ret_iff dest!: load_page_procs procs_kept(7) procs_kept(8) split: option.splits)
  then have md: "myproc d = p" "cur d < length (procs d)" using c assms(1) by (simp_all add: myproc_def)
  show ?thesis
  proof (cases "r' < 0")
    case False
    then obtain x where f: "add_to_resident_set va (slo \<noteq> None) d = Ret x t" using e by (auto simp: bindo_Ret_iff)
    have "myproc t = resident_add va (slo \<noteq> None) p"
      using f md by (auto simp: add_to_resident_set_def myproc_upd_cur Let_def split: if_splits)
    then show ?thesis using now_resident_add [OF pok] by simp
  qed (use e md pok in auto)
qed



end
