(* ===== verification/File_Refs.thy ===== *)
theory File_Refs
  imports Sysfile
begin

text \<open>
  Reference counts of open files. The count of a file is the number of descriptors that
  refer to it, over all processes, plus the processes that use it as their swap file;
  the system calls that make and drop descriptors keep it so, on every path, including the ones
  that fail half-way or end asleep.
\<close>

section \<open>Counting references\<close>

definition fd_count :: "nat \<Rightarrow> proc \<Rightarrow> int" where
  "fd_count f p = (\<Sum>i<NOFILE. if ofile p ! i = Some f then 1 else 0) + (if swap_file p = Some f then 1 else 0)"

definition holders :: "nat \<Rightarrow> 'a kst_scheme \<Rightarrow> int" where
  "holders f s = (\<Sum>k<length (procs s). fd_count f (procs s ! k))"

text \<open>
  \<open>refs_off d s\<close>: the counts are right, except that the one of \<open>f\<close> is ahead by \<open>d f\<close>; an entry with
  count zero is marked as unused.
\<close>

definition refs_off :: "(nat \<Rightarrow> int) \<Rightarrow> 'a kst_scheme \<Rightarrow> bool" where
  "refs_off d s \<longleftrightarrow> length (ftable s) = NFILE \<and> cur s < length (procs s) \<and>
     (\<forall>k<length (procs s). length (ofile (procs s ! k)) = NOFILE \<and> list_all (\<lambda>x. \<forall>f. x = Some f \<longrightarrow> f < NFILE) (ofile (procs s ! k))) \<and>
     (\<forall>f<NFILE. fref (ftable s ! f) = holders f s + d f \<and> (fref (ftable s ! f) = 0 \<longrightarrow> ftyp (ftable s ! f) = FD_NONE))"

definition refs_ok :: "'a kst_scheme \<Rightarrow> bool" where
  "refs_ok s \<longleftrightarrow> refs_off (\<lambda>_. 0) s"

lemma sum_change:
  fixes g h :: "nat \<Rightarrow> int"
  assumes "a < n" "\<And>x. x < n \<Longrightarrow> x \<noteq> a \<Longrightarrow> h x = g x"
  shows "(\<Sum>x<n. h x) = (\<Sum>x<n. g x) + (h a - g a)"
proof -
  have "(\<Sum>x\<in>{..<n} - {a}. h x) = (\<Sum>x\<in>{..<n} - {a}. g x)" using assms(2) by (intro sum.cong) auto
  then show ?thesis using assms(1) sum.remove [of "{..<n}" a h] sum.remove [of "{..<n}" a g] by simp
qed

lemma holders_upd_proc:
  assumes "k < length (procs s)"
  shows "holders f (upd_proc k g s) = holders f s + (fd_count f (g (procs s ! k)) - fd_count f (procs s ! k))"
proof -
  have "(\<Sum>j<length (procs s). fd_count f (procs (upd_proc k g s) ! j)) =
      (\<Sum>j<length (procs s). fd_count f (procs s ! j)) + (fd_count f (procs (upd_proc k g s) ! k) - fd_count f (procs s ! k))"
    using assms by (intro sum_change) (auto simp: upd_proc_nth)
  then show ?thesis using assms by (simp add: holders_def upd_proc_nth)
qed

lemma fd_count_set:
  assumes "length (ofile p) = NOFILE" "i < NOFILE"
  shows "fd_count f (p\<lparr>ofile := (ofile p)[i := x]\<rparr>) =
    fd_count f p + ((if x = Some f then 1 else 0) - (if ofile p ! i = Some f then 1 else 0))"
proof -
  have "(\<Sum>j<NOFILE. if (ofile p)[i := x] ! j = Some f then 1 else 0 :: int) =
    (\<Sum>j<NOFILE. if ofile p ! j = Some f then 1 else 0) +
      ((if (ofile p)[i := x] ! i = Some f then 1 else 0) - (if ofile p ! i = Some f then 1 else 0))"
    using assms by (intro sum_change) auto
  then show ?thesis using assms by (simp add: fd_count_def)
qed

lemma holders_nonneg: "0 \<le> holders f s"
  by (auto simp: holders_def fd_count_def intro!: sum_nonneg add_nonneg_nonneg)

lemma holders_same:
  "length (procs t) = length (procs s) \<Longrightarrow> (\<And>k. k < length (procs s) \<Longrightarrow> ofile (procs t ! k) = ofile (procs s ! k) \<and> swap_file (procs t ! k) = swap_file (procs s ! k)) \<Longrightarrow>
   holders f t = holders f s"
  by (auto simp: holders_def fd_count_def intro!: sum.cong)

lemma refs_off_cong:
  assumes "ftable t = ftable s" "cur t = cur s" "length (procs t) = length (procs s)"
    "\<And>k. k < length (procs s) \<Longrightarrow> ofile (procs t ! k) = ofile (procs s ! k) \<and> swap_file (procs t ! k) = swap_file (procs s ! k)"
  shows "refs_off d t = refs_off d s"
  using assms holders_same [of t s] by (auto simp: refs_off_def)

lemma core_files: "core p = core q \<Longrightarrow> ofile p = ofile q \<and> swap_file p = swap_file q"
  by (cases p; cases q) (simp add: core_def)

interpretation refs_frame: page_frame "refs_off d" for d
proof (unfold_locales, goal_cases)
  case (10 f s k)
  have "refs_off d (upd_proc k f s) = refs_off d s"
  proof (rule refs_off_cong)
    fix j
    assume "j < length (procs s)"
    then show "ofile (procs (upd_proc k f s) ! j) = ofile (procs s ! j) \<and> swap_file (procs (upd_proc k f s) ! j) = swap_file (procs s ! j)"
      using core_files [OF 10(1)] by (auto simp: upd_proc_nth)
  qed (simp_all add: upd_proc_def)
  with 10(2) show ?case by simp
qed (rule refs_off_cong; simp)+

lemma refs_off_wakeup [simp]: "refs_off d (wakeup ch s) = refs_off d s"
  by (rule refs_off_cong) (auto simp: wakeup_nth wake_one_def, simp add: wakeup_def)

lemma refs_off_pipe [simp]: "refs_off d (upd_pipe pi f s) = refs_off d s"
  by (rule refs_off_cong) (auto simp: upd_pipe_def)

lemma refs_off_file:
  assumes "refs_off d s" "f < NFILE" "fref (g (ftable s ! f)) = fref (ftable s ! f) + j"
    "fref (g (ftable s ! f)) = 0 \<Longrightarrow> ftyp (g (ftable s ! f)) = FD_NONE"
  shows "refs_off (d(f := d f + j)) (upd_file f g s)"
proof -
  have "holders h (upd_file f g s) = holders h s" for h by (simp add: holders_def upd_file_def)
  then show ?thesis using assms by (auto simp: refs_off_def upd_file_def)
qed

lemma refs_off_fd:
  assumes "refs_off d s" "i < NOFILE" "\<And>f. x = Some f \<Longrightarrow> f < NFILE"
  shows "refs_off (\<lambda>f. d f + (if ofile (myproc s) ! i = Some f then 1 else 0) - (if x = Some f then 1 else 0))
    (upd_cur (\<lambda>p. p\<lparr>ofile := (ofile p)[i := x]\<rparr>) s)"
proof -
  let ?t = "upd_cur (\<lambda>p. p\<lparr>ofile := (ofile p)[i := x]\<rparr>) s"
  have c: "cur s < length (procs s)" "length (ofile (procs s ! cur s)) = NOFILE" using assms(1) by (auto simp: refs_off_def)
  have h: "holders f ?t = holders f s + ((if x = Some f then 1 else 0) - (if ofile (myproc s) ! i = Some f then 1 else 0))" for f
    using c assms(2) by (simp add: upd_cur_def holders_upd_proc fd_count_set myproc_def)
  have "list_all (\<lambda>y. \<forall>f. y = Some f \<longrightarrow> f < NFILE) ((ofile (procs s ! cur s))[i := x])"
    using assms c by (auto simp: refs_off_def list_all_length nth_list_update)
  then show ?thesis using assms(1,2) h by (auto simp: refs_off_def upd_cur_def upd_proc_nth) (auto simp: upd_proc_def)
qed

lemma refs_off_eq: "refs_off d s \<Longrightarrow> (\<And>g. d g = d' g) \<Longrightarrow> refs_off d' s"
  by (simp add: refs_off_def)

section \<open>The operations\<close>

lemma filealloc_refs:
  assumes "refs_off d s" "filealloc s = (Some f, t)"
  shows "f < NFILE" "refs_off (d(f := d f + 1)) t"
proof -
  have f: "f < NFILE" "fref (ftable s ! f) = 0" "t = upd_file f (\<lambda>e. e\<lparr>fref := 1\<rparr>) s"
    using assms(2) by (auto simp: filealloc_def find_Some_iff split: option.splits)
  then show "f < NFILE" "refs_off (d(f := d f + 1)) t" using refs_off_file [OF assms(1) f(1), of "\<lambda>e. e\<lparr>fref := 1\<rparr>" 1] by simp_all
qed

lemma filealloc_entry:
  assumes "refs_off d s" "filealloc s = (Some f, t)"
  shows "fref (ftable t ! f) = 1" "ftyp (ftable t ! f) = FD_NONE" "\<And>g. g \<noteq> f \<Longrightarrow> ftable t ! g = ftable s ! g" "fref (ftable s ! f) = 0"
  using assms by (auto simp: filealloc_def refs_off_def find_Some_iff upd_file_def split: option.splits)

lemma filealloc_None: "filealloc s = (None, t) \<Longrightarrow> t = s"
  by (auto simp: filealloc_def split: option.splits)

lemma filedup_refs: "refs_off d s \<Longrightarrow> f < NFILE \<Longrightarrow> stays (refs_off (d(f := d f + 1))) (filedup f s)"
  by (auto simp: filedup_def intro!: refs_off_file)

lemma pipeclose_stays: "refs_off d s \<Longrightarrow> stays (refs_off d) (pipeclose pi wr s)"
  unfolding pipeclose_def by (auto intro!: stay refs_frame.kfree_stays)

lemma fileclose_refs:
  assumes "refs_off d s" "f < NFILE"
  shows "stays (refs_off (d(f := d f - 1))) (fileclose f s)"
proof -
  let ?s = "upd_file f (\<lambda>e. e\<lparr>fref := 0, ftyp := FD_NONE\<rparr>) s"
  have last: "refs_off (d(f := d f - 1)) ?s" if "\<not> fref (ftable s ! f) < 1" "\<not> fref (ftable s ! f) - 1 > 0"
    using refs_off_file [OF assms, of "\<lambda>e. e\<lparr>fref := 0, ftyp := FD_NONE\<rparr>" "-1"] that by simp
  have more: "refs_off (d(f := d f - 1)) (upd_file f (\<lambda>e. e\<lparr>fref := fref e - 1\<rparr>) s)" if "fref (ftable s ! f) - 1 > 0"
    using that refs_off_file [OF assms, of "\<lambda>e. e\<lparr>fref := fref e - 1\<rparr>" "-1"] by simp
  show ?thesis
    unfolding fileclose_def Let_def
    by (cases "ftyp (ftable s ! f)")
      (auto intro!: stays_if stays_bindo last more pipeclose_stays refs_frame.begin_op_stays refs_frame.iput_stays refs_frame.end_op_stays)
qed

lemma fdalloc_refs:
  assumes "refs_off d s" "fdalloc f s = (Some fd, t)" "f < NFILE"
  shows "refs_off (d(f := d f - 1)) t" "fd < NOFILE" "ofile (myproc t) ! fd = Some f" "ftable t = ftable s"
proof -
  have fd: "fd < NOFILE" "ofile (myproc s) ! fd = None" "t = upd_cur (\<lambda>p. p\<lparr>ofile := (ofile p)[fd := Some f]\<rparr>) s"
    using assms(2) by (auto simp: fdalloc_def find_Some_iff split: option.splits)
  show "refs_off (d(f := d f - 1)) t"
    unfolding fd(3) by (rule refs_off_eq [OF refs_off_fd [OF assms(1) fd(1)]]) (use fd(2) assms(3) in auto)
  show "fd < NOFILE" by (rule fd(1))
  show "ofile (myproc t) ! fd = Some f" "ftable t = ftable s"
    using assms(1) fd by (auto simp: refs_off_def myproc_upd_cur myproc_def upd_cur_def upd_proc_def)
qed

lemma fdalloc_None: "fdalloc f s = (None, t) \<Longrightarrow> t = s"
  by (auto simp: fdalloc_def split: option.splits)

lemma argfd_file:
  assumes "refs_off d s" "argfd i s = Some (fd, f)"
  shows "fd < NOFILE" "f < NFILE" "ofile (myproc s) ! fd = Some f"
proof -
  have a: "fd < NOFILE" "ofile (myproc s) ! fd = Some f" using assms(2) by (auto simp: argfd_def Let_def split: if_splits option.splits)
  moreover have "length (ofile (myproc s)) = NOFILE" "list_all (\<lambda>x. \<forall>f. x = Some f \<longrightarrow> f < NFILE) (ofile (myproc s))"
    using assms(1) by (auto simp: refs_off_def myproc_def)
  ultimately show "fd < NOFILE" "f < NFILE" "ofile (myproc s) ! fd = Some f" by (auto simp: list_all_length)
qed

lemma sys_dup_refs: "refs_ok s \<Longrightarrow> stays refs_ok (sys_dup s)"
proof -
  assume r: "refs_ok s"
  have "stays (refs_off (\<lambda>_. 0)) (filedup f t)" if "argfd 0 s = Some (fd, f)" "fdalloc f s = (Some fd', t)" for fd f fd' t
  proof -
    have f: "f < NFILE" using argfd_file [OF _ that(1)] r by (simp add: refs_ok_def)
    have "refs_off ((\<lambda>_. 0)(f := -1)) t" using fdalloc_refs(1) [OF _ that(2) f, of "\<lambda>_. 0"] r by (simp add: refs_ok_def)
    then show ?thesis using filedup_refs [OF _ f, of "(\<lambda>_. 0)(f := -1)" t] by (simp add: fun_upd_idem)
  qed
  then show ?thesis using r
    unfolding sys_dup_def refs_ok_def [abs_def] by (auto intro!: stays_option stays_prod stays_bindo dest: fdalloc_None split: prod.split option.split)
qed

lemma sys_close_refs: "refs_ok s \<Longrightarrow> stays refs_ok (sys_close s)"
proof -
  assume r: "refs_ok s"
  have "stays (refs_off (\<lambda>_. 0)) (fileclose f (upd_cur (\<lambda>p. p\<lparr>ofile := (ofile p)[fd := None]\<rparr>) s))" if "argfd 0 s = Some (fd, f)" for fd f
  proof -
    have s: "refs_off (\<lambda>_. 0) s" using r by (simp add: refs_ok_def)
    note a = argfd_file [OF s that]
    have "refs_off ((\<lambda>_. 0)(f := 1)) (upd_cur (\<lambda>p. p\<lparr>ofile := (ofile p)[fd := None]\<rparr>) s)"
      by (rule refs_off_eq [OF refs_off_fd [OF s a(1)]]) (use a(3) in auto)
    then show ?thesis using fileclose_refs [OF _ a(2), of "(\<lambda>_. 0)(f := 1)"] by (simp add: fun_upd_idem)
  qed
  then show ?thesis using r unfolding sys_close_def refs_ok_def [abs_def] by (auto intro!: stays_option stays_prod stays_bindo)
qed

lemma pipeclose_returns: "(\<exists>t. pipeclose pi wr s = Ret () t \<and> ftable t = ftable s) \<or> (\<exists>m. pipeclose pi wr s = Panic m)"
  by (simp add: pipeclose_def Let_def kfree_def wakeup_def upd_pipe_def)

text \<open>Closing a pipe end or an entry not yet in use neither sleeps nor exits.\<close>

lemma fileclose_pipe:
  assumes "ftyp (ftable s ! f) = FD_PIPE \<or> ftyp (ftable s ! f) = FD_NONE" "refs_off d s" "f < NFILE"
  shows "(\<exists>t. fileclose f s = Ret () t \<and> refs_off (d(f := d f - 1)) t \<and> (\<forall>g. g \<noteq> f \<longrightarrow> ftable t ! g = ftable s ! g)) \<or>
    (\<exists>m. fileclose f s = Panic m)"
proof -
  let ?u = "upd_file f (\<lambda>e. e\<lparr>fref := 0, ftyp := FD_NONE\<rparr>) s"
  have "(\<exists>t. fileclose f s = Ret () t \<and> (\<forall>g. g \<noteq> f \<longrightarrow> ftable t ! g = ftable s ! g)) \<or> (\<exists>m. fileclose f s = Panic m)"
    using assms(1) pipeclose_returns [of "fpipe (ftable s ! f)" "writable (ftable s ! f)" ?u]
    by (auto simp: fileclose_def Let_def) (auto simp: upd_file_def)
  then show ?thesis using fileclose_refs [OF assms(2,3)] by auto
qed

context low_frame
begin

lemma from_cwd_stays [stay]: "P s \<Longrightarrow> (\<And>c t. P t \<Longrightarrow> stays P (f c t)) \<Longrightarrow> stays P (from_cwd path f s)"
  unfolding from_cwd_def by (auto intro!: stay)

lemma create_stays [stay]: "P s \<Longrightarrow> stays P (create path ty mj mn s)"
  unfolding create_def create_link_def by (auto intro!: stay)

lemma open_inode_stays [stay]: "P s \<Longrightarrow> stays P (open_inode path omode s)"
  unfolding open_inode_def by (auto intro!: stay)

lemma drop_ip_stays [stay]: "P s \<Longrightarrow> stays P (drop_ip ip s)"
  unfolding drop_ip_def end_with_def by (auto intro!: stay)

lemma end_with_stays [stay]: "P s \<Longrightarrow> stays P (end_with v s)"
  unfolding end_with_def by (auto intro!: stay)

end

context page_frame
begin

lemma argstr_stays [stay]: "P s \<Longrightarrow> stays P (argstr i mx s)"
  unfolding argstr_def fetchstr_def by (auto intro!: stay)

end

lemma open_fd_refs:
  assumes "filealloc u = (Some f, t)" "refs_off (\<lambda>_. 0) u"
  shows "stays (refs_off (\<lambda>_. 0)) (open_fd f ip omode t)"
proof (cases "fdalloc f t")
  case (Pair x v)
  note f = filealloc_refs [OF assms(2,1)] and e = filealloc_entry [OF assms(2,1)]
  show ?thesis
  proof (cases x)
    case None
    then have "v = t" using Pair fdalloc_None by blast
    then have "stays (refs_off (\<lambda>_. 0)) (fileclose f v)" using fileclose_refs [OF f(2,1)] by (simp add: fun_upd_idem)
    then show ?thesis using Pair None by (auto simp: open_fd_def intro!: stays_bindo refs_frame.drop_ip_stays)
  next
    case (Some fd)
    note g = fdalloc_refs [OF f(2) Pair [unfolded Some] f(1)]
    have z: "refs_off (\<lambda>_. 0) v" using g(1) by (simp add: fun_upd_idem)
    have "refs_off ((\<lambda>_. 0)(f := 0 + 0)) (upd_file f (open_file ip omode (itable v ! ip)) v)"
      by (rule refs_off_file [OF z f(1)]) (use g(4) e(1) in \<open>auto simp: open_file_def split: if_splits\<close>)
    then have "refs_off (\<lambda>_. 0) (upd_file f (open_file ip omode (itable v ! ip)) v)" by (simp add: fun_upd_idem)
    then show ?thesis using Pair Some
      by (auto simp: open_fd_def Let_def intro!: stays_bindo refs_frame.itrunc_stays refs_frame.iunlock_stays refs_frame.end_with_stays)
  qed
qed

lemma sys_open_refs: "refs_ok s \<Longrightarrow> stays refs_ok (sys_open s)"
  unfolding sys_open_def refs_ok_def [abs_def]
  by (auto intro!: stay open_fd_refs refs_frame.argstr_stays refs_frame.begin_op_stays refs_frame.open_inode_stays refs_frame.end_with_stays
    refs_frame.drop_ip_stays dest: filealloc_None)

lemma clear_fd_refs:
  assumes "refs_off d s" "i < NOFILE" "ofile (myproc s) ! i = Some f"
  shows "refs_off (d(f := d f + 1)) (clear_fd i s)"
  unfolding clear_fd_def by (rule refs_off_eq [OF refs_off_fd [OF assms(1,2)]]) (use assms(3) in auto)

definition pipe_end :: "nat \<Rightarrow> 'a kst_scheme \<Rightarrow> bool" where
  "pipe_end f s \<longleftrightarrow> f < NFILE \<and> (ftyp (ftable s ! f) = FD_PIPE \<or> ftyp (ftable s ! f) = FD_NONE)"

lemma close_pair:
  assumes "refs_off (\<lambda>g. (if g = a then 1 else 0) + (if g = b then 1 else 0)) s" "pipe_end a s" "pipe_end b s" "a \<noteq> b"
  shows "(\<exists>t u. fileclose a s = Ret () t \<and> fileclose b t = Ret () u \<and> refs_off (\<lambda>_. 0) u) \<or>
    (\<exists>m. fileclose a s = Panic m) \<or> (\<exists>t m. fileclose a s = Ret () t \<and> fileclose b t = Panic m)"
proof (cases "\<exists>m. fileclose a s = Panic m")
  case False
  then obtain t where t: "fileclose a s = Ret () t" "refs_off (\<lambda>g. if g = b then 1 else 0) t" "ftable t ! b = ftable s ! b"
    using fileclose_pipe [OF _ assms(1), of a] assms(2-4) refs_off_eq [where d' = "\<lambda>g. if g = b then 1 else 0"]
    by (fastforce simp: pipe_end_def)
  have "refs_off (\<lambda>_. 0) u" if "refs_off ((\<lambda>g. if g = b then 1 else 0)(b := (if b = b then 1 else 0) - 1)) u" for u :: "'a kst_scheme"
    using that by (rule refs_off_eq) simp
  then show ?thesis using fileclose_pipe [OF _ t(2), of b] t(1,3) assms(3) by (fastforce simp: pipe_end_def)
qed blast

lemma close_both_refs:
  assumes "refs_off (\<lambda>g. (if g = a then 1 else 0) + (if g = b then 1 else 0)) s" "pipe_end a s" "pipe_end b s" "a \<noteq> b"
  shows "stays (refs_off (\<lambda>_. 0)) (close_both a b msg s)"
  using close_pair [OF assms] by (auto simp: close_both_def)

text \<open>The new ends of a pipe, or nothing.\<close>

definition pipe_made :: "nat \<Rightarrow> nat \<Rightarrow> 'a kst_scheme \<Rightarrow> bool" where
  "pipe_made a b s \<longleftrightarrow> a \<noteq> b \<and> pipe_end a s \<and> pipe_end b s \<and> refs_off (\<lambda>g. (if g = a then 1 else 0) + (if g = b then 1 else 0)) s"

lemma pipe_setup_made:
  assumes "refs_off (\<lambda>g. (if g = a then 1 else 0) + (if g = b then 1 else 0)) s" "a \<noteq> b" "a < NFILE" "b < NFILE"
    "fref (ftable s ! a) = 1" "fref (ftable s ! b) = 1"
  shows "pipe_made a b (pipe_setup a b pi s)"
proof -
  let ?d = "\<lambda>g. (if g = a then 1 else 0) + (if g = b then 1 else 0) :: int"
  define s1 where "s1 = upd_pipe pi (\<lambda>p. p\<lparr>readopen := True, writeopen := True, nwrite := 0, nread := 0\<rparr>) s"
  define s2 where "s2 = upd_file a (\<lambda>e. e\<lparr>ftyp := FD_PIPE, readable := True, writable := False, fpipe := pi\<rparr>) s1"
  define s3 where "s3 = upd_file b (\<lambda>e. e\<lparr>ftyp := FD_PIPE, readable := False, writable := True, fpipe := pi\<rparr>) s2"
  have l: "length (ftable s) = NFILE" using assms(1) by (simp add: refs_off_def)
  have f1: "ftable s1 = ftable s" by (simp add: s1_def upd_pipe_def)
  have "refs_off ?d s1" using assms(1) by (simp add: s1_def)
  then have "refs_off (?d(a := ?d a + 0)) s2" unfolding s2_def using assms(3,5) f1 by (intro refs_off_file) auto
  then have r2: "refs_off ?d s2" by (rule refs_off_eq) auto
  have "fref (ftable s2 ! b) = 1" using assms(2,6) f1 by (simp add: s2_def upd_file_def)
  then have "refs_off (?d(b := ?d b + 0)) s3" unfolding s3_def using r2 assms(4) by (intro refs_off_file) auto
  then have "refs_off ?d s3" by (rule refs_off_eq) auto
  moreover have "pipe_end a s3" "pipe_end b s3" using assms(2-4) f1 l by (auto simp: s3_def s2_def pipe_end_def upd_file_def)
  moreover have "pipe_setup a b pi s = s3" by (simp add: pipe_setup_def Let_def s1_def s2_def s3_def)
  ultimately show ?thesis using assms(2) by (simp add: pipe_made_def)
qed

lemma pipealloc_refs:
  assumes "refs_off (\<lambda>_. 0) s"
  shows "case pipealloc s of Ret None t \<Rightarrow> refs_off (\<lambda>_. 0) t | Ret (Some (a, b)) t \<Rightarrow> pipe_made a b t | Panic _ \<Rightarrow> True | _ \<Rightarrow> False"
proof (cases "filealloc s")
  case p0: (Pair f0 s1)
  show ?thesis
  proof (cases f0)
    case None
    then show ?thesis using p0 filealloc_None [of s s1] assms by (simp add: pipealloc_def close_opt_def)
  next
    case a: (Some a)
    note ra = filealloc_refs [OF assms p0 [unfolded a]] and ea = filealloc_entry [OF assms p0 [unfolded a]]
    show ?thesis
    proof (cases "filealloc s1")
      case p1: (Pair f1 s2)
      show ?thesis
      proof (cases f1)
        case None
        then have "s2 = s1" using p1 filealloc_None by blast
        moreover have "(\<exists>t. fileclose a s1 = Ret () t \<and> refs_off (\<lambda>_. 0) t) \<or> (\<exists>m. fileclose a s1 = Panic m)"
          using fileclose_pipe [OF _ ra(2,1)] ea(2) by (auto simp: fun_upd_idem)
        ultimately show ?thesis using p0 a p1 None by (auto simp: pipealloc_def close_opt_def)
      next
        case b: (Some b)
        note rb = filealloc_refs [OF ra(2) p1 [unfolded b]] and eb = filealloc_entry [OF ra(2) p1 [unfolded b]]
        have ab: "a \<noteq> b" using ea(1) eb(4) by auto
        have r: "refs_off (\<lambda>g. (if g = a then 1 else 0) + (if g = b then 1 else 0)) s2" by (rule refs_off_eq [OF rb(2)]) (use ab in auto)
        have e: "fref (ftable s2 ! a) = 1" "fref (ftable s2 ! b) = 1" "pipe_end a s2" "pipe_end b s2"
          using ea eb ra(1) rb(1) ab by (auto simp: pipe_end_def)
        obtain pi s3 where k: "kalloc s2 = Ret pi s3" "ftable s3 = ftable s2"
          by (cases "freelist s2 = 0") (auto simp: kalloc_def Let_def)
        have r3: "refs_off (\<lambda>g. (if g = a then 1 else 0) + (if g = b then 1 else 0)) s3"
          using refs_frame.kalloc_stays [OF r] k(1) by simp
        have "pipe_made a b (pipe_setup a b pi s3)" using pipe_setup_made [OF r3 ab] e ra(1) rb(1) k(2) by simp
        moreover have "pipe_end a s3" "pipe_end b s3" using e(3,4) k(2) by (simp_all add: pipe_end_def)
        ultimately show ?thesis using p0 a p1 b k(1) close_pair [OF r3 _ _ ab] by (auto simp: pipealloc_def close_opt_def)
      qed
    qed
  qed
qed

lemma fdalloc_keeps:
  assumes "fdalloc f s = (r, t)"
  shows "ftable t = ftable s" "pipe_end g t = pipe_end g s" "cur t = cur s"
  using assms by (auto simp: fdalloc_def pipe_end_def upd_cur_def upd_proc_def split: option.splits)

interpretation ends_frame: page_frame "\<lambda>t. pipe_end g t = v \<and> ofile (myproc t) = w \<and> cur t < length (procs t)" for g v w
proof (unfold_locales, goal_cases)
  case (10 f s k)
  have "ofile (procs (upd_proc k f s) ! cur s) = ofile (procs s ! cur s)"
    using 10 core_files [of "f (procs s ! k)" "procs s ! k"] by (auto simp: upd_proc_nth)
  then show ?case using 10(2) by (simp add: pipe_end_def myproc_def) (simp add: upd_proc_def)
qed (simp_all add: pipe_end_def myproc_def)

lemma copyout_pipe_end:
  assumes "copyout pt va bs s = Ret r t" "cur s < length (procs s)"
  shows "pipe_end g t = pipe_end g s" "ofile (myproc t) = ofile (myproc s)"
  using ends_frame.copyout_stays [of g s "pipe_end g s" "ofile (myproc s)" pt va bs] assms by auto

lemma pipe_end_clear_fd [simp]: "pipe_end g (clear_fd fd s) = pipe_end g s"
  by (simp add: clear_fd_def pipe_end_def upd_cur_def upd_proc_def)

lemma fdalloc_other:
  assumes "fdalloc f s = (Some fd, t)" "cur s < length (procs s)" "ofile (myproc s) ! i = Some a"
  shows "ofile (myproc t) ! i = Some a"
  using assms by (cases "i = fd") (auto simp: fdalloc_def find_Some_iff myproc_upd_cur split: option.splits)

text \<open>Both ends have descriptors, and the counts are right.\<close>

definition both_open :: "nat \<Rightarrow> nat \<Rightarrow> nat \<Rightarrow> nat \<Rightarrow> 'a kst_scheme \<Rightarrow> bool" where
  "both_open a b fd0 fd1 s \<longleftrightarrow> refs_off (\<lambda>_. 0) s \<and> a \<noteq> b \<and> pipe_end a s \<and> pipe_end b s \<and> fd0 < NOFILE \<and> fd1 < NOFILE \<and>
     ofile (myproc s) ! fd0 = Some a \<and> ofile (myproc s) ! fd1 = Some b"

lemma copyout_both_open: "both_open a b fd0 fd1 s \<Longrightarrow> stays (both_open a b fd0 fd1) (copyout pt va bs s)"
proof -
  assume o: "both_open a b fd0 fd1 s"
  then have c: "cur s < length (procs s)" "refs_off (\<lambda>_. 0) s" by (auto simp: both_open_def refs_off_def)
  show ?thesis
    using refs_frame.copyout_stays [OF c(2), of pt va bs] ends_frame.copyout_stays [of a s "pipe_end a s" "ofile (myproc s)" pt va bs]
      ends_frame.copyout_stays [of b s "pipe_end b s" "ofile (myproc s)" pt va bs] o c(1)
    by (cases "copyout pt va bs s") (auto simp: both_open_def)
qed

lemma both_open_undo:
  assumes "both_open a b fd0 fd1 s"
  shows "stays (refs_off (\<lambda>_. 0)) (close_both a b msg (clear_fd fd1 (clear_fd fd0 s)))"
proof -
  have o: "refs_off (\<lambda>_. 0) s" "a \<noteq> b" "fd0 < NOFILE" "fd1 < NOFILE" "ofile (myproc s) ! fd0 = Some a" "ofile (myproc s) ! fd1 = Some b"
    using assms by (auto simp: both_open_def)
  then have "ofile (myproc (clear_fd fd0 s)) ! fd1 = Some b"
    by (cases "fd1 = fd0") (auto simp: clear_fd_def refs_off_def myproc_upd_cur)
  then have "refs_off (((\<lambda>_. 0)(a := 0 + 1))(b := ((\<lambda>_. 0)(a := 0 + 1)) b + 1)) (clear_fd fd1 (clear_fd fd0 s))"
    using clear_fd_refs [OF clear_fd_refs [OF o(1,3,5)] o(4)] by simp
  then have "refs_off (\<lambda>g. (if g = a then 1 else 0) + (if g = b then 1 else 0)) (clear_fd fd1 (clear_fd fd0 s))"
    by (rule refs_off_eq) (use o(2) in auto)
  then show ?thesis using assms by (intro close_both_refs) (auto simp: both_open_def)
qed

lemma pipe_store_refs:
  assumes "both_open a b fd0 fd1 s"
  shows "stays (refs_off (\<lambda>_. 0))
    (bindo (copyout (pagetable (myproc s)) fdarray (le_bytes 4 (of_nat fd0 :: u32)) s) (\<lambda>r0 s.
     bindo (if r0 < 0 then Ret r0 s else copyout (pagetable (myproc s)) (fdarray + 4) (le_bytes 4 (of_nat fd1 :: u32)) s) (\<lambda>r1 s.
     if r1 < 0 then close_both a b ''copyout failed'' (clear_fd fd1 (clear_fd fd0 s)) else fin 0 s)))"
proof -
  have k: "stays (refs_off (\<lambda>_. 0)) (bindo m k)"
    if "stays (both_open a b fd0 fd1) m" "\<And>x t. both_open a b fd0 fd1 t \<Longrightarrow> stays (refs_off (\<lambda>_. 0)) (k x t)"
    for m :: "(int, 'a kst_scheme) outcome" and k :: "int \<Rightarrow> 'a kst_scheme \<Rightarrow> (io_result, 'a kst_scheme) outcome"
    using that by (cases m) (auto simp: both_open_def)
  show ?thesis by (intro k stays_if) (auto intro!: copyout_both_open both_open_undo assms simp: both_open_def)
qed

lemma pipe_fds_refs:
  assumes "pipe_made a b s"
  shows "stays (refs_off (\<lambda>_. 0)) (pipe_fds fdarray a b s)"
proof (cases "fdalloc a s")
  case p0: (Pair x0 s1)
  let ?d = "\<lambda>g. (if g = a then 1 else 0) + (if g = b then 1 else 0) :: int"
  have r: "refs_off ?d s" "a \<noteq> b" "pipe_end a s" "pipe_end b s" "a < NFILE" "b < NFILE" using assms by (auto simp: pipe_made_def pipe_end_def)
  show ?thesis
  proof (cases x0)
    case None
    then show ?thesis using p0 fdalloc_None [of a s s1] close_both_refs r by (auto simp: pipe_fds_def)
  next
    case f0: (Some fd0)
    note g0 = fdalloc_refs [OF r(1) p0 [unfolded f0] r(5)] and k0 = fdalloc_keeps [OF p0]
    have r1: "refs_off (\<lambda>g. if g = b then 1 else 0) s1" by (rule refs_off_eq [OF g0(1)]) (use r(2) in auto)
    show ?thesis
    proof (cases "fdalloc b s1")
      case p1: (Pair x1 s2)
      show ?thesis
      proof (cases x1)
        case None
        have "refs_off ?d (clear_fd fd0 s1)" by (rule refs_off_eq [OF clear_fd_refs [OF r1 g0(2,3)]]) (use r(2) in auto)
        moreover have "pipe_end a (clear_fd fd0 s1)" "pipe_end b (clear_fd fd0 s1)"
          using r(3,4) k0(2) by simp_all
        ultimately have "stays (refs_off (\<lambda>_. 0)) (close_both a b ''Fd alloc failed'' (clear_fd fd0 s1))"
          using r(2) by (rule close_both_refs)
        then show ?thesis using p0 f0 p1 None fdalloc_None [of b s1 s2] by (simp add: pipe_fds_def)
      next
        case f1: (Some fd1)
        note g1 = fdalloc_refs [OF r1 p1 [unfolded f1] r(6)] and k1 = fdalloc_keeps [OF p1]
        have "refs_off (\<lambda>_. 0) s2" by (rule refs_off_eq [OF g1(1)]) auto
        moreover have "ofile (myproc s2) ! fd0 = Some a" using g0(3) fdalloc_other [OF p1 [unfolded f1]] r1 by (auto simp: refs_off_def)
        ultimately have "both_open a b fd0 fd1 s2" using r(2-4) g0(2) g1(2,3) k0(2) k1(2) by (simp add: both_open_def)
        then show ?thesis using p0 f0 p1 f1 pipe_store_refs [of a b fd0 fd1 s2 fdarray] by (simp add: pipe_fds_def)
      qed
    qed
  qed
qed

lemma sys_pipe_refs: "refs_ok s \<Longrightarrow> stays refs_ok (sys_pipe s)"
proof -
  assume "refs_ok s"
  then have r: "refs_off (\<lambda>_. 0) s" by (simp add: refs_ok_def)
  show ?thesis
  proof (cases "pipealloc s")
    case (Ret x t)
    then show ?thesis using pipealloc_refs [OF r] pipe_fds_refs
      unfolding sys_pipe_def refs_ok_def [abs_def] by (auto split: option.splits prod.splits)
  qed (use pipealloc_refs [OF r] in \<open>auto simp: sys_pipe_def Let_def\<close>)
qed

text \<open>
  C4: The reference count of every open file stays equal to the number of descriptors and swap files that
  refer to it, whatever outcome the system calls \<open>dup\<close>, \<open>close\<close>, \<open>open\<close> and \<open>pipe\<close> have: success, an error after part
  of the work is done, a copy to user memory that fails or ends the process, or waiting for the log or a lock.
\<close>

theorem descriptor_calls_keep_refs:
  assumes "refs_ok s"
  shows "stays refs_ok (sys_dup s) \<and> stays refs_ok (sys_close s) \<and> stays refs_ok (sys_open s) \<and> stays refs_ok (sys_pipe s)"
  using sys_dup_refs sys_close_refs sys_open_refs sys_pipe_refs assms by blast

theorem descriptor_calls_keep_refs_witness: "stays refs_ok (sys_pipe (sample_kst [sample_proc]))"
proof -
  have "refs_ok (sample_kst [sample_proc])"
    by (auto simp: refs_ok_def refs_off_def sample_kst_def sample_proc_def holders_def fd_count_def list_all_length)
  from descriptor_calls_keep_refs [OF this] show ?thesis by blast
qed

end
