(* ===== verification/Ulib.thy ===== *)
theory Ulib
  imports Cstring
begin

text \<open>
  The library that user programs are linked with (user/ulib.c). A string is the list of
  its characters before the NUL. The memory routines act on byte-addressed
  memory, like the ones of the kernel; \<open>memmove\<close> chooses the direction of the copy in a different way and is
  shown to be the same function.
\<close>

section \<open>Strings\<close>

abbreviation NUL :: char where "NUL \<equiv> CHR 0x00"

text \<open>What \<open>s[i]\<close> holds for an index up to the length.\<close>

definition at :: "string \<Rightarrow> nat \<Rightarrow> char" where
  "at s i = (if i < length s then s ! i else NUL)"

fun strcmp :: "string \<Rightarrow> string \<Rightarrow> int" where
  "strcmp (p # ps) (q # qs) = (if p = q then strcmp ps qs else of_char p - of_char q)"
| "strcmp (p # ps) [] = of_char p"
| "strcmp [] (q # qs) = - of_char q"
| "strcmp [] [] = 0"

text \<open>\<open>strchr\<close> returns how far from \<open>s\<close> the character is.\<close>

fun strchr :: "string \<Rightarrow> char \<Rightarrow> nat option" where
  "strchr [] c = None"
| "strchr (a # s) c = (if a = NUL then None else if a = c then Some 0 else map_option Suc (strchr s c))"

text \<open>\<open>atoi\<close> on the 32-bit \<open>int\<close>; overflow is undefined in C.\<close>

fun atoi_from :: "int \<Rightarrow> string \<Rightarrow> int option" where
  "atoi_from n [] = Some n"
| "atoi_from n (c # s) =
     (if 48 \<le> (of_char c :: nat) \<and> (of_char c :: nat) \<le> 57 then
        let n' = n * 10 + of_char c - 48 in
        if n * 10 + of_char c \<ge> 2 ^ 31 then None else atoi_from n' s
      else Some n)"

definition atoi :: "string \<Rightarrow> int option" where
  "atoi s = atoi_from 0 s"

text \<open>
  \<open>gets\<close> reads one byte at a time from descriptor 0: the line it returns and the input left.
  An input that is used up answers a read with 0, and a read that fails with -1; both end the line.
\<close>

fun gets_from :: "nat \<Rightarrow> string \<Rightarrow> string \<Rightarrow> string \<times> string" where
  "gets_from 0 inp buf = (buf, inp)"
| "gets_from (Suc room) [] buf = (buf, [])"
| "gets_from (Suc room) (c # inp) buf =
     (if c = CHR 0x0A \<or> c = CHR 0x0D then (buf @ [c], inp) else gets_from room inp (buf @ [c]))"

definition gets :: "nat \<Rightarrow> string \<Rightarrow> string \<times> string" where
  "gets n inp = gets_from (n - 1) inp []"

section \<open>Memory\<close>

definition memmove_u :: "pmem \<Rightarrow> u64 \<Rightarrow> u64 \<Rightarrow> nat \<Rightarrow> pmem" where
  "memmove_u m dst src n =
     (if src > dst then copy_fwd m dst src n
      else copy_back m (dst + of_nat n) (src + of_nat n) n)"

section \<open>Properties\<close>

lemma strchr_Some:
  "strchr s c = Some i \<Longrightarrow> i < length s \<and> s ! i = c \<and> c \<notin> set (take i s) \<and> NUL \<notin> set (take (Suc i) s)"
  by (induction s c arbitrary: i rule: strchr.induct) (auto split: if_splits)

lemma strchr_None: "NUL \<notin> set s \<Longrightarrow> strchr s c = None \<longleftrightarrow> c \<notin> set s"
  by (induction s c rule: strchr.induct) auto

lemma strcmp_eq_0: "strcmp s t = 0 \<longleftrightarrow> s = t" if "NUL \<notin> set s" "NUL \<notin> set t"
proof -
  have z: "(of_char c :: int) = 0 \<longleftrightarrow> c = NUL" for c
    using of_char_eq_iff [where 'a = int, of c NUL] by simp
  show ?thesis using that by (induction s t rule: strcmp.induct) (auto simp: z)
qed

lemma gets_from_split: "gets_from k inp buf = (l, r) \<Longrightarrow> \<exists>m. l = buf @ m \<and> inp = m @ r \<and> length m \<le> k"
  by (induction k inp buf arbitrary: l r rule: gets_from.induct) (fastforce split: if_splits)+

lemma copy_back_eq_mwrite:
  assumes "unat src + n < 2 ^ 64" "unat dst + n < 2 ^ 64" "src \<le> dst"
  shows "copy_back m (dst + of_nat n) (src + of_nat n) n = mwrite m dst (mread m src n)"
proof
  fix x
  have n: "n < 2 ^ 64" using assms(1) by simp
  have le: "unat src \<le> unat dst" using assms(3) by (simp add: word_le_nat_alt)
  then have sd: "\<not> (0 < unat (src - dst) \<and> unat (src - dst) < n)"
    using assms(2) unfolding unat_diff_u64 by (auto split: if_splits)
  let ?d = "dst + of_nat n" and ?s = "src + of_nat n :: u64"
  have e1: "?d - 1 - x = of_nat n - 1 - (x - dst)" and e2: "?s - (?d - x) = src + (x - dst)" by simp_all
  have "copy_back m ?d ?s n x = (if unat (?d - 1 - x) < n then m (?s - (?d - x)) else m x)"
    using n sd by (intro copy_back_apply) simp_all
  also have "\<dots> = (if unat (x - dst) < n then m (src + (x - dst)) else m x)"
    unfolding e1 e2 using mirror_offset_less [of n "x - dst"] n by (cases "n = 0") simp_all
  finally show "copy_back m ?d ?s n x = mwrite m dst (mread m src n) x" unfolding mwrite_mread_apply .
qed

lemma copy_fwd_eq_mwrite:
  assumes "unat src + n < 2 ^ 64" "unat dst + n < 2 ^ 64" "dst < src"
  shows "copy_fwd m dst src n = mwrite m dst (mread m src n)"
proof
  fix x
  have "unat dst < unat src" using assms(3) by (simp add: word_less_nat_alt)
  then have "\<not> (0 < unat (dst - src) \<and> unat (dst - src) < n)"
    using assms(1) unfolding unat_diff_u64 by (auto split: if_splits)
  then show "copy_fwd m dst src n x = mwrite m dst (mread m src n) x"
    unfolding mwrite_mread_apply using assms(1) by (intro copy_fwd_apply) simp_all
qed



end
