(* ===== verification/Grep.thy ===== *)
theory Grep
  imports Ulib
begin

text \<open>
  user/grep.c: the matcher of Kernighan and Pike, and the loop that reads a file in pieces of
  whatever size the system delivers and prints the lines that match. The matcher is shown to
  decide a declarative semantics of patterns, and the loop to print the same whatever the pieces are.
\<close>

section \<open>The matcher\<close>

function matchhere :: "string \<Rightarrow> string \<Rightarrow> bool"
  and matchstar :: "char \<Rightarrow> string \<Rightarrow> string \<Rightarrow> bool" where
  "matchhere re tx =
     (if re = [] then True
      else if at re 1 = CHR ''*'' then matchstar (at re 0) (drop 2 re) tx
      else if at re 0 = CHR ''$'' \<and> at re 1 = NUL then tx = []
      else if tx \<noteq> [] \<and> (at re 0 = CHR ''.'' \<or> at re 0 = at tx 0) then matchhere (drop 1 re) (drop 1 tx)
      else False)"
| "matchstar c re tx =
     (if matchhere re tx then True
      else if tx \<noteq> [] \<and> (at tx 0 = c \<or> c = CHR ''.'') then matchstar c re (drop 1 tx)
      else False)"
  by pat_completeness auto
termination
  by (relation "measures [\<lambda>x. case x of Inl (re, tx) \<Rightarrow> length re | Inr (c, re, tx) \<Rightarrow> length re,
        \<lambda>x. case x of Inl (re, tx) \<Rightarrow> length tx | Inr (c, re, tx) \<Rightarrow> length tx,
        \<lambda>x. case x of Inl _ \<Rightarrow> 0 | Inr _ \<Rightarrow> Suc 0]")
     (auto simp: at_def split: if_splits)

declare matchhere.simps [simp del] matchstar.simps [simp del]

text \<open>The \<open>do ... while\<close> loop of \<open>match\<close>.\<close>

fun match_from :: "string \<Rightarrow> string \<Rightarrow> bool" where
  "match_from re tx = (if matchhere re tx then True else case tx of [] \<Rightarrow> False | _ # rest \<Rightarrow> match_from re rest)"

declare match_from.simps [simp del]

definition match :: "string \<Rightarrow> string \<Rightarrow> bool" where
  "match re tx = (if at re 0 = CHR ''^'' then matchhere (drop 1 re) tx else match_from re tx)"

section \<open>The loop over the input\<close>

text \<open>
  What a descriptor delivers: the pieces in which its bytes arrive. A \<open>read\<close> takes at most the
  number of bytes asked for from the first piece; the end of the file and an error give no bytes.
\<close>

fun read_pieces :: "nat \<Rightarrow> string list \<Rightarrow> string \<times> string list" where
  "read_pieces n [] = ([], [])"
| "read_pieces n (c # cs) = (if length c \<le> n then (c, cs) else (take n c, drop n c # cs))"

definition BUFSIZE :: nat where "BUFSIZE = 1024"

text \<open>
  The inner loop from \<open>p\<close> on, where \<open>p\<close> is the rest of the \<open>m\<close> bytes in the buffer: what it
  writes, and where it leaves \<open>p\<close>.
\<close>

function scan_lines :: "string \<Rightarrow> string \<Rightarrow> string \<Rightarrow> string \<times> string" where
  "scan_lines pattern p out =
     (case strchr p (CHR 0x0A) of
        None \<Rightarrow> (p, out)
      | Some q \<Rightarrow> scan_lines pattern (drop (q + 1) p) (if match pattern (take q p) then out @ take (q + 1) p else out))"
  by pat_completeness auto
termination
  by (relation "measure (\<lambda>(_, p, _). length p)") (auto dest!: strchr_Some)

declare scan_lines.simps [simp del]

lemma read_pieces_split: "read_pieces n cs = (x, cs') \<Longrightarrow> concat cs = x @ concat cs' \<and> length x \<le> n"
  by (cases "(n, cs)" rule: read_pieces.cases) (auto split: if_splits)

function grep_loop :: "string \<Rightarrow> string \<Rightarrow> string list \<Rightarrow> string \<Rightarrow> string" where
  "grep_loop pattern b inp out =
     (case read_pieces (BUFSIZE - length b - 1) inp of
        (piece, inp) \<Rightarrow>
          if piece = [] then out
          else case scan_lines pattern (b @ piece) out of (rest, out) \<Rightarrow> grep_loop pattern rest inp out)"
  by pat_completeness auto
termination
  by (relation "measure (\<lambda>(_, _, inp, _). length (concat inp))") (auto dest!: read_pieces_split [OF sym])

declare grep_loop.simps [simp del]

definition grep :: "string \<Rightarrow> string list \<Rightarrow> string" where
  "grep pattern fd = grep_loop pattern [] fd []"

section \<open>What a pattern means\<close>

text \<open>A pattern is a sequence of items, possibly anchored at either end.\<close>

datatype item = One char | Many char

definition fits :: "char \<Rightarrow> char \<Rightarrow> bool" where
  "fits c t \<longleftrightarrow> c = CHR ''.'' \<or> c = t"

fun denotes :: "item \<Rightarrow> string \<Rightarrow> bool" where
  "denotes (One c) w \<longleftrightarrow> (\<exists>t. w = [t] \<and> fits c t)"
| "denotes (Many c) w \<longleftrightarrow> (\<forall>t\<in>set w. fits c t)"

fun lang :: "item list \<Rightarrow> string \<Rightarrow> bool" where
  "lang [] w \<longleftrightarrow> w = []"
| "lang (i # is) w \<longleftrightarrow> (\<exists>u v. w = u @ v \<and> denotes i u \<and> lang is v)"

text \<open>The items of a pattern, and whether it ends in the anchor \<open>$\<close>.\<close>

fun items :: "string \<Rightarrow> item list \<times> bool" where
  "items [] = ([], False)"
| "items [c] = (if c = CHR ''$'' then ([], True) else ([One c], False))"
| "items (c # d # re) =
     (if d = CHR ''*'' then (case items re of (is, e) \<Rightarrow> (Many c # is, e))
      else (case items (d # re) of (is, e) \<Rightarrow> (One c # is, e)))"

definition matches_prefix :: "string \<Rightarrow> string \<Rightarrow> bool" where
  "matches_prefix re tx \<longleftrightarrow> (\<exists>v w. tx = v @ w \<and> lang (fst (items re)) v \<and> (snd (items re) \<longrightarrow> w = []))"

definition anchored :: "string \<Rightarrow> bool" where
  "anchored re \<longleftrightarrow> re \<noteq> [] \<and> hd re = CHR ''^''"

text \<open>Some part of the tx, at an end where the pattern is anchored, is in the language of the items.\<close>

definition matches :: "string \<Rightarrow> string \<Rightarrow> bool" where
  "matches re tx \<longleftrightarrow>
     (if anchored re then matches_prefix (tl re) tx
      else \<exists>u v. tx = u @ v \<and> matches_prefix re v)"

section \<open>The matcher decides the language\<close>

lemma prefix_Nil: "matches_prefix [] tx"
  by (auto simp: matches_prefix_def)

lemma prefix_end: "matches_prefix ''$'' tx \<longleftrightarrow> tx = []"
  by (auto simp: matches_prefix_def)

lemma prefix_item:
  assumes "items re = (i # fst (items r), snd (items r))"
  shows "matches_prefix re tx \<longleftrightarrow> (\<exists>u v. tx = u @ v \<and> denotes i u \<and> matches_prefix r v)" (is "?l \<longleftrightarrow> ?r")
proof
  assume ?l
  then obtain v w where "tx = v @ w" "lang (i # fst (items r)) v" "snd (items r) \<longrightarrow> w = []"
    unfolding matches_prefix_def assms by auto
  moreover from this(2) obtain a b where "v = a @ b" "denotes i a" "lang (fst (items r)) b" by auto
  ultimately have "tx = a @ (b @ w) \<and> denotes i a \<and> matches_prefix r (b @ w)" unfolding matches_prefix_def by auto
  then show ?r by blast
next
  assume ?r
  then obtain u a w where d: "tx = u @ (a @ w)" "denotes i u" "lang (fst (items r)) a" "snd (items r) \<longrightarrow> w = []"
    by (auto simp: matches_prefix_def)
  then have "lang (i # fst (items r)) (u @ a)" by auto
  with d show ?l unfolding matches_prefix_def assms by (intro exI [of _ "u @ a"] exI [of _ w]) simp
qed

lemma ex_single:
  "(\<exists>u v. tx = u @ v \<and> (\<exists>t. u = [t] \<and> Q t) \<and> P v) \<longleftrightarrow> (\<exists>t ts. tx = t # ts \<and> Q t \<and> P ts)" (is "?l \<longleftrightarrow> ?r")
proof
  assume ?r
  then obtain t ts where "tx = [t] @ ts" "Q t" "P ts" by auto
  then show ?l by blast
qed auto

lemma prefix_one:
  assumes "c \<noteq> CHR ''$'' \<or> re \<noteq> []" "at re 0 \<noteq> CHR ''*''"
  shows "matches_prefix (c # re) tx \<longleftrightarrow> (\<exists>t ts. tx = t # ts \<and> fits c t \<and> matches_prefix re ts)"
proof -
  have i: "items (c # re) = (One c # fst (items re), snd (items re))"
    using assms by (cases re) (auto simp: at_def split: prod.splits)
  have "(\<exists>u v. tx = u @ v \<and> denotes (One c) u \<and> matches_prefix re v) \<longleftrightarrow> (\<exists>t ts. tx = t # ts \<and> fits c t \<and> matches_prefix re ts)"
    unfolding denotes.simps by (rule ex_single)
  then show ?thesis unfolding prefix_item [OF i] .
qed

lemma prefix_many:
  "matches_prefix (c # CHR ''*'' # re) tx \<longleftrightarrow> (\<exists>u v. tx = u @ v \<and> (\<forall>t\<in>set u. fits c t) \<and> matches_prefix re v)"
proof -
  have "items (c # CHR ''*'' # re) = (Many c # fst (items re), snd (items re))" by (auto split: prod.splits)
  from prefix_item [OF this] show ?thesis by simp
qed

lemma prefix_many_step:
  "matches_prefix (c # CHR ''*'' # re) tx \<longleftrightarrow> matches_prefix re tx \<or>
     (\<exists>t ts. tx = t # ts \<and> fits c t \<and> matches_prefix (c # CHR ''*'' # re) ts)"
proof -
  have "(\<exists>u v. tx = u @ v \<and> (\<forall>t\<in>set u. fits c t) \<and> matches_prefix re v) \<longleftrightarrow> matches_prefix re tx \<or>
    (\<exists>t ts. tx = t # ts \<and> fits c t \<and> (\<exists>u v. ts = u @ v \<and> (\<forall>t\<in>set u. fits c t) \<and> matches_prefix re v))" (is "?l = ?r")
  proof
    assume ?l
    then obtain u v where "tx = u @ v" "\<forall>t\<in>set u. fits c t" "matches_prefix re v" by blast
    then show ?r by (cases u) auto
  next
    assume ?r
    then show ?l
    proof
      assume "matches_prefix re tx"
      then show ?l by (intro exI [of _ "[]"] exI [of _ tx]) simp
    next
      assume "\<exists>t ts. tx = t # ts \<and> fits c t \<and> (\<exists>u v. ts = u @ v \<and> (\<forall>t\<in>set u. fits c t) \<and> matches_prefix re v)"
      then obtain t u v where "tx = t # u @ v" "fits c t" "\<forall>t\<in>set u. fits c t" "matches_prefix re v" by blast
      then show ?l by (intro exI [of _ "t # u"] exI [of _ v]) simp
    qed
  qed
  then show ?thesis by (simp add: prefix_many)
qed

lemma matcher_correct:
  "NUL \<notin> set re \<Longrightarrow> matchhere re tx \<longleftrightarrow> matches_prefix re tx"
  "NUL \<notin> set re \<Longrightarrow> matchstar c re tx \<longleftrightarrow> matches_prefix (c # CHR ''*'' # re) tx"
proof (induction re tx and c re tx rule: matchhere_matchstar.induct)
  case (1 re tx)
  show ?case
  proof (cases re)
    case Nil
    then show ?thesis by (simp add: prefix_Nil matchhere.simps)
  next
    case (Cons c r)
    show ?thesis
    proof (cases "at r 0 = CHR ''*''")
      case True
      then obtain r' where "r = CHR ''*'' # r'" by (cases r) (auto simp: at_def split: if_splits)
      then show ?thesis using 1 Cons by (simp add: matchhere.simps at_def)
    next
      case False
      have nul: "at r 0 = NUL \<longleftrightarrow> r = []" using "1.prems" Cons by (cases r) (auto simp: at_def)
      have a1: "at re 1 = at r 0" "at re 0 = c" using Cons by (auto simp: at_def)
      show ?thesis
      proof (cases "c = CHR ''$'' \<and> r = []")
        case True
        then show ?thesis using Cons False by (simp add: matchhere.simps a1 nul prefix_end) (simp add: at_def)
      next
        case no: False
        have ih: "matchhere (drop 1 re) (drop 1 tx) = matches_prefix (drop 1 re) (drop 1 tx)" if "tx \<noteq> []" "fits c (at tx 0)"
          by (rule "1.IH"(2)) (use that Cons False no a1 nul "1.prems" in \<open>auto simp: fits_def\<close>)
        have "matchhere re tx = (tx \<noteq> [] \<and> fits c (at tx 0) \<and> matchhere r (drop 1 tx))"
          using Cons False no a1 nul by (subst matchhere.simps) (auto simp: fits_def)
        also have "\<dots> = (tx \<noteq> [] \<and> fits c (at tx 0) \<and> matches_prefix r (drop 1 tx))"
          using ih Cons by auto
        also have "\<dots> = matches_prefix re tx"
          using prefix_one [of c r tx] no False Cons by (cases tx) (auto simp: at_def)
        finally show ?thesis .
      qed
    qed
  qed
next
  case (2 c re tx)
  have here: "matchhere re tx = matches_prefix re tx" by (rule "2.IH"(1) [OF "2.prems"])
  have star: "matchstar c re tx = (matchhere re tx \<or> tx \<noteq> [] \<and> fits c (at tx 0) \<and> matchstar c re (drop 1 tx))"
    by (subst matchstar.simps) (auto simp: fits_def)
  show ?case
  proof (cases "\<not> matchhere re tx \<and> tx \<noteq> [] \<and> fits c (at tx 0)")
    case True
    then have "matchstar c re (drop 1 tx) = matches_prefix (c # CHR ''*'' # re) (drop 1 tx)"
      by (intro "2.IH"(2) "2.prems") (auto simp: fits_def)
    then show ?thesis unfolding star prefix_many_step [of c re tx] here using True here by (cases tx) (auto simp: at_def)
  next
    case False
    then show ?thesis unfolding star prefix_many_step [of c re tx] here using here by (cases tx) (auto simp: at_def)
  qed
qed

lemma ex_suffix_Cons: "(\<exists>u v. t # ts = u @ v \<and> P v) \<longleftrightarrow> P (t # ts) \<or> (\<exists>u v. ts = u @ v \<and> P v)"
  by (auto simp: Cons_eq_append_conv)

lemma match_from_suffix: "match_from re tx \<longleftrightarrow> (\<exists>u v. tx = u @ v \<and> matchhere re v)"
proof (induction tx)
  case Nil
  then show ?case by (simp add: match_from.simps)
next
  case (Cons t ts)
  show ?case unfolding ex_suffix_Cons Cons.IH [symmetric] by (subst match_from.simps) simp
qed

text \<open>
  C7: \<open>match\<close> is true exactly for the texts that contain a part described by the pattern: literal
  characters, the dot, stars, and the two anchors. The recursion of its three functions ends on every input.
\<close>

theorem match_correct:
  assumes "NUL \<notin> set re"
  shows "match re tx \<longleftrightarrow> matches re tx"
proof (cases "anchored re")
  case True
  then show ?thesis using assms matcher_correct(1) [of "tl re" tx]
    by (cases re) (auto simp: match_def matches_def anchored_def at_def)
next
  case False
  then have "at re 0 \<noteq> CHR ''^''" by (cases re) (auto simp: anchored_def at_def)
  then show ?thesis using False assms by (simp add: match_def matches_def match_from_suffix matcher_correct(1))
qed

theorem match_correct_witness: "matches ''^ab*c.$'' ''abbcd'' \<and> \<not> matches ''^b*$'' ''x''"
proof -
  have "match ''^ab*c.$'' ''abbcd''" "\<not> match ''^b*$'' ''x''" by code_simp+
  then show ?thesis using match_correct [of "''^ab*c.$''" "''abbcd''"] match_correct [of "''^b*$''" "''x''"] by simp
qed

section \<open>The loop prints the matching lines\<close>

text \<open>The complete lines of a text, each with its newline; what follows the last newline is not one.\<close>

function complete_lines :: "string \<Rightarrow> string list" where
  "complete_lines s =
     (if CHR 0x0A \<in> set s then (takeWhile (\<lambda>c. c \<noteq> CHR 0x0A) s @ [CHR 0x0A]) # complete_lines (drop 1 (dropWhile (\<lambda>c. c \<noteq> CHR 0x0A) s))
      else [])"
  by pat_completeness auto
termination
proof (relation "measure length")
  fix s :: string
  assume "CHR 0x0A \<in> set s"
  then have "dropWhile (\<lambda>c. c \<noteq> CHR 0x0A) s \<noteq> []" by auto
  then show "(drop 1 (dropWhile (\<lambda>c. c \<noteq> CHR 0x0A) s), s) \<in> measure length"
    using length_dropWhile_le [of "\<lambda>c. c \<noteq> CHR 0x0A" s] by (cases "dropWhile (\<lambda>c. c \<noteq> CHR 0x0A) s") auto
qed simp

declare complete_lines.simps [simp del]

definition grep_spec :: "string \<Rightarrow> string \<Rightarrow> string" where
  "grep_spec pattern s = concat (filter (\<lambda>l. match pattern (butlast l)) (complete_lines s))"

lemma lines_none [simp]: "CHR 0x0A \<notin> set s \<Longrightarrow> complete_lines s = []"
  by (subst complete_lines.simps) simp

lemma lines_line: "CHR 0x0A \<notin> set l \<Longrightarrow> complete_lines (l @ CHR 0x0A # s) = (l @ [CHR 0x0A]) # complete_lines s"
  by (subst complete_lines.simps) (simp add: takeWhile_append dropWhile_append)

lemma spec_line:
  "CHR 0x0A \<notin> set l \<Longrightarrow> grep_spec pattern (l @ CHR 0x0A # s) = (if match pattern l then l @ [CHR 0x0A] else []) @ grep_spec pattern s"
  by (simp add: grep_spec_def lines_line)

lemma split_line:
  assumes "strchr p (CHR 0x0A) = Some q"
  obtains l r where "p = l @ CHR 0x0A # r" "q = length l" "CHR 0x0A \<notin> set l"
  using strchr_Some [OF assms] id_take_nth_drop [of q p] by (auto simp: min_def)

text \<open>The inner loop prints the matching lines in the buffer and leaves the last, incomplete one.\<close>

lemma scan_lines_spec:
  assumes "NUL \<notin> set p" "scan_lines pattern p out = (rest, out')"
  shows "CHR 0x0A \<notin> set rest \<and> length rest \<le> length p \<and> NUL \<notin> set rest \<and>
    (\<forall>s. out' @ grep_spec pattern (rest @ s) = out @ grep_spec pattern (p @ s)) \<and>
    (\<forall>s. set (complete_lines (rest @ s)) \<subseteq> set (complete_lines (p @ s)))"
  using assms
proof (induction pattern p out rule: scan_lines.induct)
  case (1 pattern p out)
  show ?case
  proof (cases "strchr p (CHR 0x0A)")
    case None
    then show ?thesis using 1(2,3) strchr_None [of p "CHR 0x0A"] by (simp add: scan_lines.simps [of _ p])
  next
    case (Some q)
    from split_line [OF Some] obtain l r where p: "p = l @ CHR 0x0A # r" "q = length l" "CHR 0x0A \<notin> set l" .
    let ?o = "if match pattern l then out @ l @ [CHR 0x0A] else out"
    have o: "(if match pattern (take q p) then out @ take (q + 1) p else out) = ?o" using p(1,2) by simp
    have eq: "scan_lines pattern r ?o = (rest, out')" using 1(3) Some p(1,2) unfolding scan_lines.simps [of _ p] by (simp split: if_splits)
    have ih: "CHR 0x0A \<notin> set rest \<and> length rest \<le> length r \<and> NUL \<notin> set rest \<and>
      (\<forall>s. out' @ grep_spec pattern (rest @ s) = ?o @ grep_spec pattern (r @ s)) \<and>
      (\<forall>s. set (complete_lines (rest @ s)) \<subseteq> set (complete_lines (r @ s)))"
      using 1(1) [OF Some, unfolded o] 1(2) eq p(1,2) by simp
    have "out @ grep_spec pattern (p @ s) = ?o @ grep_spec pattern (r @ s)" for s
      using spec_line [OF p(3), of pattern "r @ s"] p(1) by simp
    moreover have "set (complete_lines (r @ s)) \<subseteq> set (complete_lines (p @ s))" for s
      using lines_line [OF p(3), of "r @ s"] p(1) by auto
    moreover have "length r \<le> length p" using p(1) by simp
    ultimately show ?thesis using ih by (metis order_trans)
  qed
qed

lemma fitting_line:
  assumes "CHR 0x0A \<notin> set b" "CHR 0x0A \<in> set s" "\<forall>l\<in>set (complete_lines (b @ s)). length l < BUFSIZE"
  shows "length b + 1 < BUFSIZE"
proof -
  obtain l r where "s = l @ CHR 0x0A # r" "CHR 0x0A \<notin> set l" using assms(2) by (meson split_list_first)
  then have "(b @ l) @ [CHR 0x0A] \<in> set (complete_lines (b @ s))" using assms(1) lines_line [of "b @ l" r] by simp
  then show ?thesis using assms(3) by fastforce
qed

lemma read_pieces_nonempty: "[] \<notin> set inp \<Longrightarrow> read_pieces n inp = (x, inp') \<Longrightarrow> [] \<notin> set inp' \<and> (x = [] \<longrightarrow> n = 0 \<or> inp = [])"
  by (cases "(n, inp)" rule: read_pieces.cases) (auto split: if_splits)

lemma grep_loop_spec:
  assumes "NUL \<notin> set (b @ concat inp)" "CHR 0x0A \<notin> set b" "[] \<notin> set inp"
    "\<forall>l\<in>set (complete_lines (b @ concat inp)). length l < BUFSIZE"
  shows "grep_loop pattern b inp out = out @ grep_spec pattern (b @ concat inp)"
  using assms
proof (induction pattern b inp out rule: grep_loop.induct)
  case (1 pattern b inp out)
  obtain x inp' where rd: "read_pieces (BUFSIZE - length b - 1) inp = (x, inp')" by fastforce
  note sp = read_pieces_split [OF rd] and ne = read_pieces_nonempty [OF 1(4) rd]
  show ?case
  proof (cases "x = []")
    case True
    then have "CHR 0x0A \<notin> set (concat inp)"
      using ne fitting_line [OF 1(3) _ 1(5)] by fastforce
    then show ?thesis using True rd 1(3) by (simp add: grep_loop.simps [of _ b] grep_spec_def)
  next
    case False
    obtain rest out' where sc: "scan_lines pattern (b @ x) out = (rest, out')" by fastforce
    have bx: "b @ concat inp = (b @ x) @ concat inp'" using sp by simp
    note sl = scan_lines_spec [OF _ sc]
    have s: "CHR 0x0A \<notin> set rest" "NUL \<notin> set rest" "out' @ grep_spec pattern (rest @ concat inp') = out @ grep_spec pattern (b @ concat inp)"
      "set (complete_lines (rest @ concat inp')) \<subseteq> set (complete_lines (b @ concat inp))"
      using sl 1(2) unfolding bx by auto
    have "grep_loop pattern rest inp' out' = out' @ grep_spec pattern (rest @ concat inp')"
      by (rule 1(1) [OF rd [symmetric] False sc [symmetric]]) (use 1(2,5) s ne bx in auto)
    then show ?thesis using rd False sc s(3) by (simp add: grep_loop.simps [of _ b])
  qed
qed

text \<open>
  C19: On a text without NULs whose lines fit into the buffer of 1024 bytes, \<open>grep\<close> prints exactly
  the complete lines that match, in order, however the bytes are divided over the reads: the partial
  line that a read ends with is carried over to the next one.
\<close>

theorem grep_prints_matching_lines:
  assumes "NUL \<notin> set (concat fd)" "[] \<notin> set fd" "\<forall>l\<in>set (complete_lines (concat fd)). length l < BUFSIZE"
  shows "grep pattern fd = concat (filter (\<lambda>l. match pattern (butlast l)) (complete_lines (concat fd)))"
  using grep_loop_spec [of "[]" fd pattern "[]"] assms by (simp add: grep_def grep_spec_def)

theorem grep_prints_matching_lines_witness:
  "grep ''b.d'' [''ab'', ''cd'' @ [CHR 0x0A] @ ''x'', ''yz'' @ [CHR 0x0A], ''b''] = ''abcd'' @ [CHR 0x0A]"
proof -
  let ?fd = "[''ab'', ''cd'' @ [CHR 0x0A] @ ''x'', ''yz'' @ [CHR 0x0A], ''b'']"
  have l: "complete_lines (concat ?fd) = [''abcd'' @ [CHR 0x0A], ''xyz'' @ [CHR 0x0A]]"
    using lines_line [of "''abcd''" "''xyz'' @ CHR 0x0A # ''b''"] lines_line [of "''xyz''" "''b''"] by simp
  have m: "match ''b.d'' ''abcd''" "\<not> match ''b.d'' ''xyz''" by code_simp+
  have "grep ''b.d'' ?fd = concat (filter (\<lambda>l. match ''b.d'' (butlast l)) (complete_lines (concat ?fd)))"
    by (rule grep_prints_matching_lines) (simp, simp, simp only: l, simp add: BUFSIZE_def)
  then show ?thesis unfolding l using m by simp
qed

end
