(* ===== verification/Shell.thy ===== *)
theory Shell
  imports Ulib
begin

text \<open>
  The parser of the shell (user/sh.c). The line being parsed is a string; a pointer into it
  is an index, and \<open>es\<close> is its length. A command is a tree whose words are pairs of indices, the
  \<open>argv\<close>/\<open>eargv\<close> and \<open>file\<close>/\<open>efile\<close> of the source, until \<open>nulterminate\<close> makes C strings of them. The mutual
  recursion of the parser is cut off by fuel; that the fuel \<open>parsecmd\<close> gives is always enough is proved. Trees are
  allocated by \<open>malloc\<close>, whose failure the source does not check and the model does not represent.
\<close>

section \<open>Commands\<close>

definition MAXARGS :: nat where "MAXARGS = 10"

datatype mode = ReadOnly | CreateTrunc | CreateOnly

text \<open>\<open>O_RDONLY\<close>, \<open>O_WRONLY|O_CREATE|O_TRUNC\<close> and \<open>O_WRONLY|O_CREATE\<close>.\<close>

datatype 'w cmd =
    EXEC "'w list"
  | REDIR "'w cmd" 'w mode nat
  | PIPE "'w cmd" "'w cmd"
  | LIST "'w cmd" "'w cmd"
  | BACK "'w cmd"

type_synonym span = "nat \<times> nat"

text \<open>What a parsing function does: it returns a value and the new \<open>*ps\<close>, or panics.\<close>

datatype 'a parsed = Parsed 'a nat | Syntax string | OutOfFuel

fun bindp :: "'a parsed \<Rightarrow> ('a \<Rightarrow> nat \<Rightarrow> 'b parsed) \<Rightarrow> 'b parsed" where
  "bindp (Parsed x i) f = f x i"
| "bindp (Syntax m) f = Syntax m"
| "bindp OutOfFuel f = OutOfFuel"

section \<open>Tokens\<close>

definition whitespace :: string where
  "whitespace = [CHR '' '', CHR 0x09, CHR 0x0D, CHR 0x0A, CHR 0x0B]"

definition symbols :: string where
  "symbols = ''<|>&;()''"

definition is_in :: "string \<Rightarrow> char \<Rightarrow> bool" where
  "is_in toks c \<longleftrightarrow> strchr toks c \<noteq> None"

function skip_white :: "string \<Rightarrow> nat \<Rightarrow> nat" where
  "skip_white s i = (if i < length s \<and> is_in whitespace (at s i) then skip_white s (i + 1) else i)"
  by pat_completeness auto
termination
  by (relation "measure (\<lambda>(s, i). length s - i)") auto

function word_end :: "string \<Rightarrow> nat \<Rightarrow> nat" where
  "word_end s i = (if i < length s \<and> \<not> is_in whitespace (at s i) \<and> \<not> is_in symbols (at s i) then word_end s (i + 1) else i)"
  by pat_completeness auto
termination
  by (relation "measure (\<lambda>(s, i). length s - i)") auto

declare skip_white.simps [simp del] word_end.simps [simp del]

text \<open>The \<open>switch\<close> of \<open>gettoken\<close> at \<open>q\<close>: the token and its end.\<close>

definition token_at :: "string \<Rightarrow> nat \<Rightarrow> char \<times> nat" where
  "token_at s q =
     (let c = at s q in
      if c = NUL then (c, q)
      else if c \<in> {CHR ''|'', CHR ''('', CHR '')'', CHR '';'', CHR ''&'', CHR ''<''} then (c, q + 1)
      else if c = CHR ''>'' then (if at s (q + 1) = CHR ''>'' then (CHR ''+'', q + 2) else (c, q + 1))
      else (CHR ''a'', word_end s q))"

text \<open>The token, where it starts and ends, and the new \<open>*ps\<close>.\<close>

definition gettoken :: "string \<Rightarrow> nat \<Rightarrow> char \<times> nat \<times> nat \<times> nat" where
  "gettoken s ps = (let q = skip_white s ps; (ret, eq) = token_at s q in (ret, q, eq, skip_white s eq))"

text \<open>\<open>peek\<close>: the new \<open>*ps\<close> and the answer.\<close>

definition peek :: "string \<Rightarrow> nat \<Rightarrow> string \<Rightarrow> nat \<times> bool" where
  "peek s ps toks = (let i = skip_white s ps in (i, at s i \<noteq> NUL \<and> is_in toks (at s i)))"

lemma skip_white_more: "i < length s \<Longrightarrow> is_in whitespace (at s i) \<Longrightarrow> skip_white s i = skip_white s (Suc i)"
  by (subst skip_white.simps) simp

lemma skip_white_here: "\<not> (i < length s \<and> is_in whitespace (at s i)) \<Longrightarrow> skip_white s i = i"
  by (subst skip_white.simps) auto

lemma word_end_more: "i < length s \<Longrightarrow> \<not> is_in whitespace (at s i) \<Longrightarrow> \<not> is_in symbols (at s i) \<Longrightarrow> word_end s i = word_end s (Suc i)"
  by (subst word_end.simps) simp

lemma word_end_here: "\<not> (i < length s \<and> \<not> is_in whitespace (at s i) \<and> \<not> is_in symbols (at s i)) \<Longrightarrow> word_end s i = i"
  by (subst word_end.simps) auto

text \<open>The scans go forward, stay inside the line, and stop for the reason they are meant to.\<close>

lemma skip_white_scan:
  "i \<le> skip_white s i \<and> (i \<le> length s \<longrightarrow> skip_white s i \<le> length s) \<and>
     (skip_white s i < length s \<longrightarrow> \<not> is_in whitespace (at s (skip_white s i)))"
proof (induction s i rule: skip_white.induct)
  case (1 s i)
  show ?case
  proof (cases "i < length s \<and> is_in whitespace (at s i)")
    case True
    then show ?thesis using 1 by (simp add: skip_white_more)
  next
    case False
    then show ?thesis using skip_white_here [OF False] by auto
  qed
qed

lemma word_end_scan:
  "i \<le> word_end s i \<and> (i \<le> length s \<longrightarrow> word_end s i \<le> length s) \<and>
     (\<forall>k. i \<le> k \<and> k < word_end s i \<longrightarrow> \<not> is_in whitespace (at s k) \<and> \<not> is_in symbols (at s k)) \<and>
     (word_end s i < length s \<longrightarrow> is_in whitespace (at s (word_end s i)) \<or> is_in symbols (at s (word_end s i)))"
proof (induction s i rule: word_end.induct)
  case (1 s i)
  show ?case
  proof (cases "i < length s \<and> \<not> is_in whitespace (at s i) \<and> \<not> is_in symbols (at s i)")
    case True
    then have eq: "word_end s i = word_end s (Suc i)" by (simp add: word_end_more)
    have "k = i \<or> Suc i \<le> k" if "i \<le> k" for k using that by linarith
    moreover note 1 [OF True]
    ultimately show ?thesis unfolding eq using True by (metis Suc_eq_plus1 Suc_leD Suc_leI)
  next
    case False
    then show ?thesis using word_end_here [OF False] by auto
  qed
qed

lemma is_in_symbols: "is_in symbols c \<longleftrightarrow> c \<in> {CHR ''<'', CHR ''|'', CHR ''>'', CHR ''&'', CHR '';'', CHR ''('', CHR '')''}"
  by (auto simp: is_in_def symbols_def)

lemma is_in_whitespace: "is_in whitespace c \<longleftrightarrow> c \<in> {CHR '' '', CHR 0x09, CHR 0x0D, CHR 0x0A, CHR 0x0B}"
  by (auto simp: is_in_def whitespace_def)

lemma at_less: "at s i \<noteq> NUL \<Longrightarrow> i < length s"
  by (auto simp: at_def split: if_splits)

text \<open>
  The span of a token lies inside the line. A word is not empty, has no special character and is followed by one, or by
  the end of the line.
\<close>

definition word_at :: "string \<Rightarrow> span \<Rightarrow> bool" where
  "word_at s = (\<lambda>(q, e). q < e \<and> e \<le> length s \<and>
     (\<forall>k. q \<le> k \<and> k < e \<longrightarrow> \<not> is_in whitespace (at s k) \<and> \<not> is_in symbols (at s k)) \<and>
     (e < length s \<longrightarrow> is_in whitespace (at s e) \<or> is_in symbols (at s e)))"

lemma gettoken_parts:
  "gettoken s i = (t, q, e, j) \<longleftrightarrow> q = skip_white s i \<and> token_at s q = (t, e) \<and> j = skip_white s e"
  by (auto simp: gettoken_def Let_def split: prod.splits)

lemma token_at_span:
  assumes "token_at s q = (t, e)" "\<not> is_in whitespace (at s q)" "q \<le> length s"
  shows "t = NUL \<and> e = q \<or> t \<noteq> NUL \<and> q < e \<and> e \<le> length s"
proof (cases "at s q = NUL")
  case False
  then have l: "q < length s" by (rule at_less)
  have "q < word_end s q \<and> word_end s q \<le> length s" if "\<not> is_in symbols (at s q)"
    using that l assms(2) word_end_more [of q s] word_end_scan [of "Suc q" s] by auto
  then show ?thesis using assms(1) False l at_less [of s "Suc q"]
    by (auto simp: token_at_def Let_def is_in_symbols split: if_splits)
qed (use assms in \<open>auto simp: token_at_def\<close>)

lemma NUL_not_white: "\<not> is_in whitespace NUL"
  by (simp add: is_in_def whitespace_def)

lemma skip_white_stop: "\<not> is_in whitespace (at s (skip_white s i))"
  using skip_white_scan [of i s] by (cases "skip_white s i < length s") (auto simp: at_def NUL_not_white)

lemma gettoken_span:
  assumes "gettoken s i = (t, q, e, j)" "i \<le> length s"
  shows "i \<le> q" "q \<le> e" "e \<le> j" "j \<le> length s" "t \<noteq> NUL \<Longrightarrow> q < e"
proof -
  have q: "q = skip_white s i" "token_at s q = (t, e)" "j = skip_white s e" using assms(1) by (auto simp: gettoken_parts)
  moreover have "q \<le> length s" "i \<le> q" using skip_white_scan [of i s] assms(2) q by auto
  ultimately have "t = NUL \<and> e = q \<or> t \<noteq> NUL \<and> q < e \<and> e \<le> length s"
    using token_at_span [of s q t e] skip_white_stop [of s i] by auto
  then show "i \<le> q" "q \<le> e" "e \<le> j" "j \<le> length s" "t \<noteq> NUL \<Longrightarrow> q < e"
    using skip_white_scan [of e s] \<open>q \<le> length s\<close> \<open>i \<le> q\<close> q(3) by auto
qed

lemma gettoken_word:
  assumes "gettoken s i = (CHR ''a'', q, e, j)" "i \<le> length s"
  shows "word_at s (q, e)"
proof -
  have "token_at s q = (CHR ''a'', e)" using assms(1) by (auto simp: gettoken_parts)
  then have "e = word_end s q" by (auto simp: token_at_def Let_def split: if_splits)
  then show ?thesis using gettoken_span [OF assms] word_end_scan [of q s] by (auto simp: word_at_def)
qed

lemma peek_parts: "peek s i toks = (j, b) \<longleftrightarrow> j = skip_white s i \<and> (b \<longleftrightarrow> at s j \<noteq> NUL \<and> is_in toks (at s j))"
  by (auto simp: peek_def Let_def)

lemma peek_yes:
  assumes "peek s i toks = (j, True)"
  shows "i \<le> j" "j < length s" "is_in toks (at s j)"
  using assms skip_white_scan [of i s] at_less by (auto simp: peek_parts)

lemma peek_ok: "peek s i toks = (j, y) \<Longrightarrow> i \<le> length s \<Longrightarrow> i \<le> j \<and> j \<le> length s"
  using skip_white_scan [of i s] by (auto simp: peek_parts)

lemma peek_gettoken:
  assumes "peek s i toks = (j, True)" "gettoken s j = (t, q, e, k)"
  shows "i \<le> j" "q = j" "j < k" "k \<le> length s" "t \<noteq> NUL"
proof -
  note p = peek_yes [OF assms(1)]
  have j: "skip_white s j = j" using assms(1) skip_white_stop [of s i] by (intro skip_white_here) (auto simp: peek_parts)
  then have "token_at s j = (t, e)" "q = j" using assms(2) by (auto simp: gettoken_parts)
  moreover have "at s j \<noteq> NUL" using assms(1) by (auto simp: peek_parts)
  ultimately have "t \<noteq> NUL" by (auto simp: token_at_def Let_def split: if_splits)
  then show "i \<le> j" "q = j" "j < k" "k \<le> length s" "t \<noteq> NUL" using gettoken_span [OF assms(2)] p \<open>q = j\<close> by auto
qed

section \<open>The parser\<close>

lemma redirs_progress:
  assumes "peek s i toks = (j, True)" "gettoken s j = (t1, q1, e1, k)" "gettoken s k = (t, q, e, l)"
  shows "i < l \<and> l \<le> length s"
  using peek_gettoken [OF assms(1,2)] gettoken_span [OF assms(3)] by auto

text \<open>The loop of \<open>parseredirs\<close>.\<close>

function parseredirs :: "string \<Rightarrow> span cmd \<Rightarrow> nat \<Rightarrow> span cmd parsed" where
  "parseredirs s cmd ps =
     (case peek s ps ''<>'' of (ps, yes) \<Rightarrow>
        if \<not> yes then Parsed cmd ps
        else case gettoken s ps of (tok, _, _, ps) \<Rightarrow>
          case gettoken s ps of (t, q, eq, ps) \<Rightarrow>
            if t \<noteq> CHR ''a'' then Syntax ''missing file for redirection''
            else parseredirs s
              (if tok = CHR ''<'' then REDIR cmd (q, eq) ReadOnly 0
               else if tok = CHR ''>'' then REDIR cmd (q, eq) CreateTrunc 1
               else if tok = CHR ''+'' then REDIR cmd (q, eq) CreateOnly 1
               else cmd) ps)"
  by pat_completeness auto
termination
  apply (relation "measure (\<lambda>(s, _, i). length s - i)")
   apply simp
  subgoal for s cmd ps x y xa ya xb yb xc yc xd yd xe ye xf yf
    using redirs_progress [of s ps "''<>''" x xa xb xc yc xd xe xf yf] by (simp add: diff_less_mono2)
  done

declare parseredirs.simps [simp del]

text \<open>The assignment to \<open>cmd->argv[argc]\<close>, where \<open>cmd\<close> is the \<open>execcmd\<close> below the redirections of \<open>ret\<close>.\<close>

fun add_arg :: "'w \<Rightarrow> 'w cmd \<Rightarrow> 'w cmd" where
  "add_arg w (EXEC ws) = EXEC (ws @ [w])"
| "add_arg w (REDIR c f m fd) = REDIR (add_arg w c) f m fd"
| "add_arg w c = c"

lemma parseredirs_pos: "parseredirs s c i = Parsed c' j \<Longrightarrow> i \<le> j \<and> (i \<le> length s \<longrightarrow> j \<le> length s)"
proof (induction s c i arbitrary: c' rule: parseredirs.induct)
  case (1 s c i)
  obtain i1 y where pk: "peek s i ''<>'' = (i1, y)" by fastforce
  show ?case
  proof (cases y)
    case False
    then show ?thesis using 1(2) pk skip_white_scan [of i s] by (auto simp: parseredirs.simps [of s c] peek_parts)
  next
    case True
    obtain tok q1 e1 i2 where g1: "gettoken s i1 = (tok, q1, e1, i2)" by (metis prod_cases4)
    obtain t q e i3 where g2: "gettoken s i2 = (t, q, e, i3)" by (metis prod_cases4)
    have "i < i3 \<and> i3 \<le> length s" using redirs_progress pk True g1 g2 by simp
    then show ?thesis using 1(1) [OF pk [symmetric] _ g1 [symmetric] refl refl g2 [symmetric] refl refl] 1(2) pk True g1 g2
      by (fastforce simp: parseredirs.simps [of s c] split: if_splits)
  qed
qed

lemma bindp_cong [fundef_cong]:
  "m = m' \<Longrightarrow> (\<And>x i. m' = Parsed x i \<Longrightarrow> f x i = f' x i) \<Longrightarrow> bindp m f = bindp m' f'"
  by (cases m') auto

lemma gettoken_less:
  assumes "gettoken s i = (t, q, e, j)" "t \<noteq> NUL"
  shows "i < j \<and> j \<le> length s"
proof (cases "i \<le> length s")
  case True
  then show ?thesis using gettoken_span [OF assms(1)] assms(2) by auto
next
  case False
  then have "q = i" "at s i = NUL" using assms(1) skip_white_here [of i s] by (auto simp: gettoken_parts at_def)
  then show ?thesis using assms by (auto simp: gettoken_parts token_at_def)
qed

lemma args_progress:
  assumes "peek s i toks = (j, y)" "gettoken s j = (t, q, e, k)" "t \<noteq> NUL" "parseredirs s c k = Parsed r l"
  shows "i < l \<and> l \<le> length s"
  using assms(1) gettoken_less [OF assms(2,3)] parseredirs_pos [OF assms(4)] skip_white_scan [of i s] by (auto simp: peek_parts)

text \<open>The loop of \<open>parseexec\<close>.\<close>

function parseargs :: "string \<Rightarrow> span cmd \<Rightarrow> nat \<Rightarrow> nat \<Rightarrow> span cmd parsed" where
  "parseargs s ret argc ps =
     (case peek s ps ''|)&;'' of (ps, yes) \<Rightarrow>
        if yes then Parsed ret ps
        else case gettoken s ps of (tok, q, eq, ps) \<Rightarrow>
          if tok = NUL then Parsed ret ps
          else if tok \<noteq> CHR ''a'' then Syntax ''syntax''
          else if argc + 1 \<ge> MAXARGS then Syntax ''too many args''
          else bindp (parseredirs s (add_arg (q, eq) ret) ps) (\<lambda>ret ps. parseargs s ret (argc + 1) ps))"
  by pat_completeness auto
termination
  apply (relation "measure (\<lambda>(s, _, _, i). length s - i)")
   apply simp
  subgoal for s ret argc ps x y xa ya xb yb xc yc z u
    using args_progress [of s ps "''|)&;''" x y xa xb xc yc "add_arg (xb, xc) ret" z u] by (simp add: diff_less_mono2)
  done

declare parseargs.simps [simp del]

text \<open>The loop of \<open>parseline\<close>.\<close>

function parsebacks :: "string \<Rightarrow> span cmd \<Rightarrow> nat \<Rightarrow> span cmd \<times> nat" where
  "parsebacks s cmd ps =
     (case peek s ps ''&'' of (ps, yes) \<Rightarrow>
        if yes then case gettoken s ps of (_, _, _, ps) \<Rightarrow> parsebacks s (BACK cmd) ps
        else (cmd, ps))"
  by pat_completeness auto
termination
  apply (relation "measure (\<lambda>(s, _, i). length s - i)")
   apply simp
  subgoal for s cmd ps x y xa ya xb yb xc yc
    using peek_gettoken [of s ps "''&''" x xa xb xc yc] by (simp add: diff_less_mono2)
  done

declare parsebacks.simps [simp del]

fun parseline :: "nat \<Rightarrow> string \<Rightarrow> nat \<Rightarrow> span cmd parsed"
  and parsepipe :: "nat \<Rightarrow> string \<Rightarrow> nat \<Rightarrow> span cmd parsed"
  and parseexec :: "nat \<Rightarrow> string \<Rightarrow> nat \<Rightarrow> span cmd parsed"
  and parseblock :: "nat \<Rightarrow> string \<Rightarrow> nat \<Rightarrow> span cmd parsed" where
  "parseline 0 s ps = OutOfFuel"
| "parseline (Suc n) s ps =
     bindp (parsepipe n s ps) (\<lambda>cmd ps.
     case parsebacks s cmd ps of (cmd, ps) \<Rightarrow>
     case peek s ps '';'' of (ps, yes) \<Rightarrow>
     if yes then case gettoken s ps of (_, _, _, ps) \<Rightarrow>
       bindp (parseline n s ps) (\<lambda>right ps. Parsed (LIST cmd right) ps)
     else Parsed cmd ps)"
| "parsepipe 0 s ps = OutOfFuel"
| "parsepipe (Suc n) s ps =
     bindp (parseexec n s ps) (\<lambda>cmd ps.
     case peek s ps ''|'' of (ps, yes) \<Rightarrow>
     if yes then case gettoken s ps of (_, _, _, ps) \<Rightarrow>
       bindp (parsepipe n s ps) (\<lambda>right ps. Parsed (PIPE cmd right) ps)
     else Parsed cmd ps)"
| "parseexec 0 s ps = OutOfFuel"
| "parseexec (Suc n) s ps =
     (case peek s ps ''('' of (ps, yes) \<Rightarrow>
      if yes then parseblock n s ps
      else bindp (parseredirs s (EXEC []) ps) (\<lambda>ret ps. parseargs s ret 0 ps))"
| "parseblock 0 s ps = OutOfFuel"
| "parseblock (Suc n) s ps =
     (case peek s ps ''('' of (ps, yes) \<Rightarrow>
      if \<not> yes then Syntax ''parseblock''
      else case gettoken s ps of (_, _, _, ps) \<Rightarrow>
        bindp (parseline n s ps) (\<lambda>cmd ps.
        case peek s ps '')'' of (ps, yes) \<Rightarrow>
        if \<not> yes then Syntax ''syntax - missing )''
        else case gettoken s ps of (_, _, _, ps) \<Rightarrow> parseredirs s cmd ps))"

section \<open>From spans to strings\<close>

fun nulterminate :: "span cmd \<Rightarrow> string \<Rightarrow> string" where
  "nulterminate (EXEC ws) buf = fold (\<lambda>w buf. buf[snd w := NUL]) ws buf"
| "nulterminate (REDIR c f _ _) buf = (nulterminate c buf)[snd f := NUL]"
| "nulterminate (PIPE l r) buf = nulterminate r (nulterminate l buf)"
| "nulterminate (LIST l r) buf = nulterminate r (nulterminate l buf)"
| "nulterminate (BACK c) buf = nulterminate c buf"

text \<open>
  \<open>parsecmd\<close> returns the tree and leaves the buffer with the NULs in it. Each level of the
  recursion takes one unit of fuel, and a block takes one character and four levels.
\<close>

definition parsecmd :: "string \<Rightarrow> (span cmd \<times> string) parsed" where
  "parsecmd s =
     bindp (parseline (4 * length s + 4) s 0) (\<lambda>cmd ps.
     case peek s ps [] of (ps, _) \<Rightarrow>
     if ps \<noteq> length s then Syntax ''syntax'' else Parsed (cmd, nulterminate cmd (s @ [NUL])) ps)"

section \<open>The parser returns well-formed trees\<close>

text \<open>The words of a good tree are words of the line, and its argument vectors fit into \<open>argv\<close> with the final null pointer.\<close>

fun args_ok :: "'w cmd \<Rightarrow> bool" where
  "args_ok (EXEC ws) \<longleftrightarrow> length ws < MAXARGS"
| "args_ok (REDIR c _ _ _) \<longleftrightarrow> args_ok c"
| "args_ok (PIPE l r) \<longleftrightarrow> args_ok l \<and> args_ok r"
| "args_ok (LIST l r) \<longleftrightarrow> args_ok l \<and> args_ok r"
| "args_ok (BACK c) \<longleftrightarrow> args_ok c"

definition good :: "string \<Rightarrow> span cmd \<Rightarrow> bool" where
  "good s c \<longleftrightarrow> args_ok c \<and> (\<forall>w\<in>set_cmd c. word_at s w)"

fun parse_ok :: "string \<Rightarrow> nat \<Rightarrow> span cmd parsed \<Rightarrow> bool" where
  "parse_ok s i (Parsed c j) \<longleftrightarrow> i \<le> j \<and> j \<le> length s \<and> good s c"
| "parse_ok s i (Syntax _) \<longleftrightarrow> True"
| "parse_ok s i OutOfFuel \<longleftrightarrow> False"

lemma parse_ok_mono: "parse_ok s j r \<Longrightarrow> i \<le> j \<Longrightarrow> parse_ok s i r"
  by (cases r) auto

lemma parse_ok_bindp:
  assumes "parse_ok s i m" "\<And>c j. i \<le> j \<Longrightarrow> j \<le> length s \<Longrightarrow> good s c \<Longrightarrow> parse_ok s j (f c j)"
  shows "parse_ok s i (bindp m f)"
  using assms by (cases m) (auto intro: parse_ok_mono)

lemma good_simps [simp]:
  "good s (REDIR c f m fd) \<longleftrightarrow> good s c \<and> word_at s f"
  "good s (PIPE c d) \<longleftrightarrow> good s c \<and> good s d" "good s (LIST c d) \<longleftrightarrow> good s c \<and> good s d"
  "good s (BACK c) \<longleftrightarrow> good s c" "good s (EXEC ws) \<longleftrightarrow> length ws < MAXARGS \<and> (\<forall>w\<in>set ws. word_at s w)"
  by (auto simp: good_def)

text \<open>The argument vector below the redirections.\<close>

fun exec_args :: "'w cmd \<Rightarrow> 'w list option" where
  "exec_args (EXEC ws) = Some ws"
| "exec_args (REDIR c _ _ _) = exec_args c"
| "exec_args c = None"

lemma good_add_arg:
  "exec_args c = Some ws \<Longrightarrow> Suc (length ws) < MAXARGS \<Longrightarrow> good s c \<Longrightarrow> word_at s w \<Longrightarrow>
     good s (add_arg w c) \<and> exec_args (add_arg w c) = Some (ws @ [w])"
  by (induction c) auto

lemma parseredirs_ok:
  "i \<le> length s \<Longrightarrow> good s c \<Longrightarrow> parse_ok s i (parseredirs s c i) \<and>
     (\<forall>c' j. parseredirs s c i = Parsed c' j \<longrightarrow> exec_args c' = exec_args c)"
proof (induction s c i rule: parseredirs.induct)
  case (1 s c i)
  obtain i1 y where pk: "peek s i ''<>'' = (i1, y)" by fastforce
  show ?case
  proof (cases y)
    case False
    then show ?thesis using 1(2,3) pk peek_ok [OF pk 1(2)] by (simp add: parseredirs.simps [of s c])
  next
    case True
    obtain tok q1 e1 i2 where g1: "gettoken s i1 = (tok, q1, e1, i2)" by (metis prod_cases4)
    obtain t q e i3 where g2: "gettoken s i2 = (t, q, e, i3)" by (metis prod_cases4)
    have pos: "i \<le> i3" "i3 \<le> length s" using redirs_progress pk True g1 g2 by (metis less_imp_le)+
    show ?thesis
    proof (cases "t = CHR ''a''")
      case False
      then show ?thesis using pk True g1 g2 by (simp add: parseredirs.simps [of s c])
    next
      case a: True
      define d where "d = (if tok = CHR ''<'' then REDIR c (q, e) ReadOnly 0 else if tok = CHR ''>'' then REDIR c (q, e) CreateTrunc 1
        else if tok = CHR ''+'' then REDIR c (q, e) CreateOnly 1 else c)"
      have eq: "parseredirs s c i = parseredirs s d i3" using pk True g1 g2 a by (simp add: parseredirs.simps [of s c] d_def)
      have "i2 \<le> length s" using pk True g1 peek_gettoken(4) by simp
      then have "word_at s (q, e)" using gettoken_word g2 a by blast
      then have "good s d" "exec_args d = exec_args c" using 1(3) by (auto simp: d_def)
      moreover have "parse_ok s i3 (parseredirs s d i3) \<and> (\<forall>c' j. parseredirs s d i3 = Parsed c' j \<longrightarrow> exec_args c' = exec_args d)"
        using 1(1) [OF pk [symmetric] _ g1 [symmetric] refl refl g2 [symmetric] refl refl] True a pos \<open>good s d\<close> unfolding d_def by simp
      ultimately show ?thesis unfolding eq using parse_ok_mono pos(1) by metis
    qed
  qed
qed

lemma parseargs_ok:
  "i \<le> length s \<Longrightarrow> good s c \<Longrightarrow> exec_args c = Some ws \<Longrightarrow> length ws = argc \<Longrightarrow> parse_ok s i (parseargs s c argc i)"
proof (induction s c argc i arbitrary: ws rule: parseargs.induct)
  case (1 s c argc i)
  obtain i1 y where pk: "peek s i ''|)&;'' = (i1, y)" by fastforce
  have i1: "i \<le> i1" "i1 \<le> length s" using pk skip_white_scan [of i s] 1(2) by (auto simp: peek_parts)
  obtain t q e i2 where g: "gettoken s i1 = (t, q, e, i2)" by (metis prod_cases4)
  have i2: "i \<le> i2" "i2 \<le> length s" using gettoken_span [OF g i1(2)] i1 by auto
  show ?case
  proof (cases "\<not> y \<and> t = CHR ''a'' \<and> argc + 1 < MAXARGS")
    case False
    then show ?thesis using pk g i1 i2 1(3) by (auto simp: parseargs.simps [of s c])
  next
    case True
    let ?d = "add_arg (q, e) c"
    have w: "word_at s (q, e)" using gettoken_word g i1(2) True by blast
    then have d: "good s ?d" "exec_args ?d = Some (ws @ [(q, e)])" using good_add_arg [OF 1(4), of s "(q, e)"] True 1(3,5) by auto
    note r = parseredirs_ok [OF i2(2) d(1)]
    have "parse_ok s j (parseargs s c' (argc + 1) j)" if "parseredirs s ?d i2 = Parsed c' j" for c' j
      using 1(1) [OF pk [symmetric] _ g [symmetric] refl refl _ _ _ that, of "ws @ [(q, e)]"] True r that d(2) 1(5) by auto
    then have "parse_ok s i2 (bindp (parseredirs s ?d i2) (\<lambda>c' j. parseargs s c' (argc + 1) j))"
      using r parse_ok_mono by (cases "parseredirs s ?d i2") auto
    then show ?thesis using pk g True parse_ok_mono [OF _ i2(1)] by (simp add: parseargs.simps [of s c])
  qed
qed

lemma parsebacks_ok: "i \<le> length s \<Longrightarrow> good s c \<Longrightarrow> parsebacks s c i = (d, j) \<Longrightarrow> i \<le> j \<and> j \<le> length s \<and> good s d"
proof (induction s c i rule: parsebacks.induct)
  case (1 s c i)
  obtain i1 y where pk: "peek s i ''&'' = (i1, y)" by fastforce
  obtain t q e i2 where g: "gettoken s i1 = (t, q, e, i2)" by (metis prod_cases4)
  show ?case
  proof (cases y)
    case True
    then have "i < i2" "i2 \<le> length s" using peek_gettoken [of s i "''&''" i1 t q e i2] pk g by auto
    then show ?thesis using 1(1) [OF pk [symmetric] True g [symmetric] refl refl] 1(3,4) pk g True
      by (simp add: parsebacks.simps [of s c])
  next
    case False
    then show ?thesis using 1(2,3,4) pk peek_ok [OF pk 1(2)] by (auto simp: parsebacks.simps [of s c])
  qed
qed

text \<open>The common end of \<open>parseline\<close> and \<open>parsepipe\<close>: an operator and what is to its right.\<close>

lemma operator_ok:
  assumes "i \<le> length s" "good s c" "\<And>k. i < k \<Longrightarrow> k \<le> length s \<Longrightarrow> parse_ok s k (p k)" "\<And>d. good s d \<Longrightarrow> good s (f d)"
  shows "parse_ok s i (case peek s i toks of (ps, yes) \<Rightarrow>
    if yes then case gettoken s ps of (_, _, _, ps) \<Rightarrow> bindp (p ps) (\<lambda>right ps. Parsed (f right) ps) else Parsed c ps)"
proof -
  obtain j y where pk: "peek s i toks = (j, y)" by fastforce
  obtain t q e k where g: "gettoken s j = (t, q, e, k)" by (metis prod_cases4)
  show ?thesis
  proof (cases y)
    case True
    then have k: "i < k" "k \<le> length s" using peek_gettoken [of s i toks j t q e k] pk g by auto
    have "parse_ok s k (bindp (p k) (\<lambda>right ps. Parsed (f right) ps))"
      by (rule parse_ok_bindp [OF assms(3) [OF k]]) (simp add: assms(4))
    then show ?thesis using pk g True k(1) parse_ok_mono by auto
  next
    case False
    then show ?thesis using pk peek_ok [OF pk assms(1)] assms(2) by simp
  qed
qed

lemma parseline_step:
  assumes "parse_ok s i (parsepipe n s i)" "\<And>k. i < k \<Longrightarrow> k \<le> length s \<Longrightarrow> parse_ok s k (parseline n s k)"
  shows "parse_ok s i (parseline (Suc n) s i)"
  unfolding parseline.simps
proof (rule parse_ok_bindp [OF assms(1)])
  fix c j
  assume j: "i \<le> j" "j \<le> length s" "good s c"
  obtain d k where b: "parsebacks s c j = (d, k)" by fastforce
  note k = parsebacks_ok [OF j(2,3) b]
  have "parse_ok s k (case peek s k '';'' of (ps, yes) \<Rightarrow> if yes then case gettoken s ps of (_, _, _, ps) \<Rightarrow>
    bindp (parseline n s ps) (\<lambda>right ps. Parsed (LIST d right) ps) else Parsed d ps)"
    using k j(1) by (intro operator_ok assms(2)) auto
  then show "parse_ok s j (case parsebacks s c j of (cmd, ps) \<Rightarrow> case peek s ps '';'' of (ps, yes) \<Rightarrow>
    if yes then case gettoken s ps of (_, _, _, ps) \<Rightarrow> bindp (parseline n s ps) (\<lambda>right ps. Parsed (LIST cmd right) ps)
    else Parsed cmd ps)"
    using k b parse_ok_mono by auto
qed

lemma parsepipe_step:
  assumes "parse_ok s i (parseexec n s i)" "\<And>k. i < k \<Longrightarrow> k \<le> length s \<Longrightarrow> parse_ok s k (parsepipe n s k)"
  shows "parse_ok s i (parsepipe (Suc n) s i)"
  unfolding parsepipe.simps by (rule parse_ok_bindp [OF assms(1)], rule operator_ok) (use assms(2) in auto)

lemma parseexec_step:
  assumes "i \<le> length s" "\<And>k. i \<le> k \<Longrightarrow> k \<le> length s \<Longrightarrow> parse_ok s k (parseblock n s k)"
  shows "parse_ok s i (parseexec (Suc n) s i)"
proof -
  obtain j y where pk: "peek s i ''('' = (j, y)" by fastforce
  note j = peek_ok [OF pk assms(1)]
  have e: "good s (EXEC [])" by (simp add: MAXARGS_def)
  note r = parseredirs_ok [of j s "EXEC []", OF _ e]
  have "parse_ok s j (bindp (parseredirs s (EXEC []) j) (\<lambda>ret ps. parseargs s ret 0 ps))"
    using r j parseargs_ok [of _ s _ "[]" 0] by (cases "parseredirs s (EXEC []) j") (auto intro: parse_ok_mono)
  then show ?thesis using pk assms(2) [of j] j parse_ok_mono [of s j _ i] by simp
qed

lemma parseblock_step:
  assumes "i \<le> length s" "\<And>k. i < k \<Longrightarrow> k \<le> length s \<Longrightarrow> parse_ok s k (parseline n s k)"
  shows "parse_ok s i (parseblock (Suc n) s i)"
proof -
  obtain j y where pk: "peek s i ''('' = (j, y)" by fastforce
  obtain t q e k where g: "gettoken s j = (t, q, e, k)" by (metis prod_cases4)
  show ?thesis
  proof (cases y)
    case True
    then have k: "i < k" "k \<le> length s" using peek_gettoken [of s i "''(''" j t q e k] pk g by auto
    have "parse_ok s k (bindp (parseline n s k) (\<lambda>cmd ps. case peek s ps '')'' of (ps, yes) \<Rightarrow>
        if \<not> yes then Syntax ''syntax - missing )'' else case gettoken s ps of (_, _, _, ps) \<Rightarrow> parseredirs s cmd ps))"
    proof (rule parse_ok_bindp [OF assms(2) [OF k]])
      fix c l
      assume l: "k \<le> l" "l \<le> length s" "good s c"
      obtain l1 y1 where pk1: "peek s l '')'' = (l1, y1)" by fastforce
      obtain t1 q1 e1 l2 where g1: "gettoken s l1 = (t1, q1, e1, l2)" by (metis prod_cases4)
      show "parse_ok s l (case peek s l '')'' of (ps, yes) \<Rightarrow>
        if \<not> yes then Syntax ''syntax - missing )'' else case gettoken s ps of (_, _, _, ps) \<Rightarrow> parseredirs s c ps)"
        using pk1 g1 peek_gettoken [of s l "'')''" l1 t1 q1 e1 l2] parseredirs_ok [of l2 s c] l parse_ok_mono [of s l2 _ l] by auto
    qed
    then show ?thesis using pk g True k(1) parse_ok_mono by auto
  qed (use pk in auto)
qed

text \<open>Each level needs one unit of fuel more than the next; a block starts with a character of its own.\<close>

lemma parse_total:
  "(\<forall>i. i \<le> length s \<longrightarrow> 4 * (length s - i) + 4 \<le> n \<longrightarrow> parse_ok s i (parseline n s i)) \<and>
   (\<forall>i. i \<le> length s \<longrightarrow> 4 * (length s - i) + 3 \<le> n \<longrightarrow> parse_ok s i (parsepipe n s i)) \<and>
   (\<forall>i. i \<le> length s \<longrightarrow> 4 * (length s - i) + 2 \<le> n \<longrightarrow> parse_ok s i (parseexec n s i)) \<and>
   (\<forall>i. i \<le> length s \<longrightarrow> 4 * (length s - i) + 1 \<le> n \<longrightarrow> parse_ok s i (parseblock n s i))"
proof (induction n)
  case (Suc n)
  then show ?case
    by (intro conjI allI impI parseline_step parsepipe_step parseexec_step parseblock_step) auto
qed simp

section \<open>The strings of a parsed command\<close>

definition ends :: "span cmd \<Rightarrow> nat set" where
  "ends c = snd ` set_cmd c"

lemma nth_update_any: "k < length xs \<Longrightarrow> xs[i := v] ! k = (if i = k then v else xs ! k)"
  by (cases "i = k") auto

lemma fold_nul: "length (fold (\<lambda>w buf. buf[snd w := NUL]) ws buf) = length buf \<and>
   (k < length buf \<longrightarrow> fold (\<lambda>w buf. buf[snd w := NUL]) ws buf ! k = (if k \<in> snd ` set ws then NUL else buf ! k))"
  by (induction ws arbitrary: buf) (auto simp: nth_update_any)

lemma nulterminate_nth:
  "length (nulterminate c buf) = length buf \<and> (k < length buf \<longrightarrow> nulterminate c buf ! k = (if k \<in> ends c then NUL else buf ! k))"
  by (induction c arbitrary: buf) (auto simp: fold_nul ends_def nth_update_any)

text \<open>The C string at an index of the buffer, and the part of the line that a span denotes.\<close>

definition cstr :: "string \<Rightarrow> nat \<Rightarrow> string" where
  "cstr buf q = takeWhile (\<lambda>c. c \<noteq> NUL) (drop q buf)"

definition part :: "string \<Rightarrow> span \<Rightarrow> string" where
  "part s = (\<lambda>(q, e). take (e - q) (drop q s))"

lemma cstr_part:
  assumes "NUL \<notin> set s" "good s c" "(q, e) \<in> set_cmd c"
  shows "cstr (nulterminate c (s @ [NUL])) q = part s (q, e)"
proof -
  let ?b = "nulterminate c (s @ [NUL])"
  have w: "word_at s (q, e)" using assms(2,3) by (auto simp: good_def)
  have "k \<notin> ends c" if "q \<le> k" "k < e" for k
  proof
    assume "k \<in> ends c"
    then obtain q' where "word_at s (q', k)" using assms(2) by (force simp: ends_def good_def)
    then show False using that w by (auto simp: word_at_def)
  qed
  then have "?b ! k = s ! k" if "q \<le> k" "k < e" for k
    using that w nulterminate_nth [of c "s @ [NUL]" k] by (auto simp: word_at_def nth_append)
  then have "take (e - q) (drop q ?b) = part s (q, e)"
    using w nulterminate_nth [of c "s @ [NUL]" 0] by (auto simp: part_def word_at_def intro!: nth_equalityI)
  moreover have "?b ! e = NUL" "e < length ?b" "length ?b = Suc (length s)"
    using assms(3) nulterminate_nth [of c "s @ [NUL]" e] w by (force simp: ends_def word_at_def)+
  moreover have "drop q ?b = take (e - q) (drop q ?b) @ drop (e - q + q) ?b" by (metis append_take_drop_id drop_drop)
  moreover have "e - q + q = e" using w by (simp add: word_at_def)
  moreover have "drop e ?b = NUL # drop (Suc e) ?b" using calculation(2,3) by (metis Cons_nth_drop_Suc)
  moreover have "\<forall>x\<in>set (part s (q, e)). x \<noteq> NUL" using assms(1) by (auto simp: part_def dest!: in_set_takeD in_set_dropD)
  ultimately show ?thesis unfolding cstr_def by (simp add: takeWhile_append2)
qed

text \<open>
  C14: The parser of the shell terminates on every line, with a panic for a syntax error or with a
  command. In a command no argument vector overruns its array, every word lies inside the line, and after
  \<open>nulterminate\<close> every word reads as the C string that was typed: no terminator falls inside another word.
\<close>

theorem parsecmd_total:
  assumes "NUL \<notin> set s"
  shows "(\<exists>m. parsecmd s = Syntax m) \<or>
    (\<exists>c buf. parsecmd s = Parsed (c, buf) (length s) \<and> args_ok c \<and>
      (\<forall>w\<in>set_cmd c. fst w < snd w \<and> snd w \<le> length s \<and> cstr buf (fst w) = part s w))"
proof (cases "parseline (4 * length s + 4) s 0")
  case (Parsed c i)
  then have ok: "i \<le> length s" "good s c" using parse_total [of s "4 * length s + 4"] by force+
  obtain j y where pk: "peek s i [] = (j, y)" by fastforce
  show ?thesis
  proof (cases "j = length s")
    case True
    then have "parsecmd s = Parsed (c, nulterminate c (s @ [NUL])) (length s)" using Parsed pk by (simp add: parsecmd_def)
    then show ?thesis using ok(2) cstr_part [OF assms ok(2)] by (fastforce simp: good_def word_at_def)
  qed (use Parsed pk in \<open>simp add: parsecmd_def\<close>)
next
  case OutOfFuel
  then show ?thesis using parse_total [of s "4 * length s + 4"] by (metis diff_zero le0 le_refl parse_ok.simps(3))
qed (simp add: parsecmd_def)

theorem parsecmd_total_witness:
  "\<exists>c buf. parsecmd ''echo a>b'' = Parsed (c, buf) 8 \<and> args_ok c \<and> c = REDIR (EXEC [(0, 4), (5, 6)]) (7, 8) CreateTrunc 1 \<and> cstr buf 5 = ''a''"
proof -
  have p: "parsecmd ''echo a>b'' = Parsed (REDIR (EXEC [(0, 4), (5, 6)]) (7, 8) CreateTrunc 1, ''echo'' @ [NUL] @ ''a'' @ [NUL] @ ''b'' @ [NUL]) 8"
    by code_simp
  show ?thesis using parsecmd_total [of "''echo a>b''"] by (simp add: p part_def)
qed

end
