(* ===== verification/Shell_Roundtrip.thy ===== *)
theory Shell_Roundtrip
  imports Shell
begin

text \<open>
  The language that the parser of the shell reads: commands printed with the precedence of the operators, brackets
  where they are needed, and one blank after each token. Parsing a printed command gives the command
  back, so the parser implements the precedence and the associativity of the printed form.
\<close>

section \<open>Printing\<close>

definition valid_word :: "string \<Rightarrow> bool" where
  "valid_word w \<longleftrightarrow> w \<noteq> [] \<and> (\<forall>c\<in>set w. c \<noteq> NUL \<and> \<not> is_in whitespace c \<and> \<not> is_in symbols c)"

fun mode_fd :: "mode \<Rightarrow> nat" where
  "mode_fd ReadOnly = 0" | "mode_fd CreateTrunc = 1" | "mode_fd CreateOnly = 1"

fun valid :: "string cmd \<Rightarrow> bool" where
  "valid (EXEC ws) \<longleftrightarrow> length ws < MAXARGS \<and> (\<forall>w\<in>set ws. valid_word w)"
| "valid (REDIR c f m fd) \<longleftrightarrow> valid c \<and> valid_word f \<and> fd = mode_fd m"
| "valid (PIPE l r) \<longleftrightarrow> valid l \<and> valid r"
| "valid (LIST l r) \<longleftrightarrow> valid l \<and> valid r"
| "valid (BACK c) \<longleftrightarrow> valid c"

fun mode_sym :: "mode \<Rightarrow> string" where
  "mode_sym ReadOnly = ''<''" | "mode_sym CreateTrunc = ''>''" | "mode_sym CreateOnly = ''>>''"

definition words :: "string list \<Rightarrow> string" where
  "words ws = concat (map (\<lambda>w. w @ '' '') ws)"

definition bracket :: "bool \<Rightarrow> string \<Rightarrow> string" where
  "bracket b x = (if b then ''( '' @ x @ '') '' else x)"

text \<open>The levels: 0 a line, 1 what may be put into the background, 2 a pipeline, 3 one element of a pipeline.\<close>

fun render :: "nat \<Rightarrow> string cmd \<Rightarrow> string" where
  "render l (EXEC ws) = words ws"
| "render l (REDIR c f m fd) = render 3 c @ mode_sym m @ '' '' @ f @ '' ''"
| "render l (PIPE c d) = bracket (l > 2) (render 3 c @ ''| '' @ render 2 d)"
| "render l (BACK c) = bracket (l > 1) (render 1 c @ ''& '')"
| "render l (LIST c d) = bracket (l > 0) (render 1 c @ ''; '' @ render 0 d)"

section \<open>Tokens of a printed line\<close>

definition tidy :: "string \<Rightarrow> bool" where
  "tidy y \<longleftrightarrow> y = [] \<or> \<not> is_in whitespace (hd y)"

text \<open>The rest of the line from an index on.\<close>

definition rest :: "string \<Rightarrow> nat \<Rightarrow> string \<Rightarrow> bool" where
  "rest s i y \<longleftrightarrow> i \<le> length s \<and> drop i s = y"

lemma rest_at: "rest s i y \<Longrightarrow> at s (i + k) = at y k"
  by (auto simp: rest_def at_def)

lemma rest_more: "rest s i (x @ y) \<Longrightarrow> rest s (i + length x) y"
proof -
  assume r: "rest s i (x @ y)"
  have "drop (length x) (drop i s) = y" using r by (simp add: rest_def del: drop_drop)
  then have "drop (i + length x) s = y" by (simp add: add.commute)
  moreover have "length (drop i s) = length x + length y" using r by (simp add: rest_def)
  ultimately show ?thesis using r by (auto simp: rest_def)
qed

lemma rest_length: "rest s i y \<Longrightarrow> length s = i + length y"
  by (auto simp: rest_def)

lemma rest_skip: "rest s i y \<Longrightarrow> tidy y \<Longrightarrow> skip_white s i = i"
  using rest_at [of s i y 0] by (intro skip_white_here) (auto simp: tidy_def rest_def at_def hd_conv_nth split: if_splits)

lemma rest_blank: "rest s i (CHR '' '' # y) \<Longrightarrow> tidy y \<Longrightarrow> skip_white s i = i + 1"
  using rest_at [of s i "CHR '' '' # y" 0] rest_length [of s i "CHR '' '' # y"] rest_skip [of s "i + 1" y] rest_more [of s i "'' ''" y]
  by (subst skip_white_more) (auto simp: at_def is_in_whitespace)

lemma rest_peek:
  assumes "rest s i y" "tidy y"
  shows "peek s i toks = (i, y \<noteq> [] \<and> hd y \<noteq> NUL \<and> is_in toks (hd y))"
  using rest_skip [OF assms] rest_at [OF assms(1), of 0] by (cases y) (auto simp: peek_def at_def)

lemma rest_symbol:
  assumes "rest s i (c # CHR '' '' # y)" "tidy y" "c \<in> {CHR ''|'', CHR ''('', CHR '')'', CHR '';'', CHR ''&'', CHR ''<'', CHR ''>''}"
  shows "gettoken s i = (c, i, i + 1, i + 2)"
proof -
  have "skip_white s i = i" using assms(3) by (intro rest_skip [OF assms(1)]) (auto simp: tidy_def is_in_whitespace)
  moreover have "skip_white s (i + 1) = i + 2" using rest_blank [OF rest_more [of s i "[c]" "CHR '' '' # y"]] assms by simp
  moreover have "token_at s i = (c, i + 1)"
    using assms(3) rest_at [OF assms(1), of 0] rest_at [OF assms(1), of 1] by (auto simp: token_at_def at_def)
  ultimately show ?thesis by (simp add: gettoken_parts)
qed

lemma rest_append:
  assumes "rest s i (''>> '' @ y)" "tidy y"
  shows "gettoken s i = (CHR ''+'', i, i + 2, i + 3)"
proof -
  have "skip_white s i = i" by (intro rest_skip [OF assms(1)]) (auto simp: tidy_def is_in_whitespace)
  moreover have "skip_white s (i + 2) = i + 3" using rest_blank [OF rest_more [of s i "''>>''" "CHR '' '' # y"]] assms by simp
  moreover have "token_at s i = (CHR ''+'', i + 2)"
    using rest_at [OF assms(1), of 0] rest_at [OF assms(1), of 1] by (auto simp: token_at_def at_def)
  ultimately show ?thesis by (simp add: gettoken_parts)
qed

lemma word_end_rest:
  "rest s i (w @ CHR '' '' # y) \<Longrightarrow> (\<forall>c\<in>set w. \<not> is_in whitespace c \<and> \<not> is_in symbols c) \<Longrightarrow> word_end s i = i + length w"
proof (induction w arbitrary: i)
  case Nil
  then show ?case using rest_at [OF Nil(1), of 0] by (subst word_end_here) (auto simp: at_def is_in_whitespace)
next
  case (Cons a w)
  then show ?case using rest_at [OF Cons(2), of 0] rest_length [OF Cons(2)] rest_more [of s i "[a]" "w @ CHR '' '' # y"]
    by (subst word_end_more) (auto simp: at_def)
qed

lemma rest_word:
  assumes "rest s i (w @ CHR '' '' # y)" "valid_word w" "tidy y"
  shows "gettoken s i = (CHR ''a'', i, i + length w, i + length w + 1)" "part s (i, i + length w) = w"
proof -
  obtain a v where w: "w = a # v" "a \<noteq> NUL" "\<not> is_in whitespace a" "\<not> is_in symbols a" using assms(2) by (cases w) (auto simp: valid_word_def)
  have "skip_white s i = i" using w by (intro rest_skip [OF assms(1)]) (auto simp: tidy_def)
  moreover have "skip_white s (i + length w) = i + length w + 1" using rest_blank [OF rest_more [OF assms(1)]] assms(3) by simp
  moreover have "token_at s i = (CHR ''a'', i + length w)"
    using w rest_at [OF assms(1), of 0] word_end_rest [OF assms(1)] assms(2) by (auto simp: token_at_def at_def is_in_symbols valid_word_def)
  ultimately show "gettoken s i = (CHR ''a'', i, i + length w, i + length w + 1)" by (simp add: gettoken_parts)
  show "part s (i, i + length w) = w" using assms(1) by (simp add: part_def rest_def)
qed

section \<open>Parsing what was printed\<close>

text \<open>The text ends, or goes on with one of some characters.\<close>

definition starts :: "string \<Rightarrow> string \<Rightarrow> bool" where
  "starts toks y \<longleftrightarrow> y = [] \<or> is_in toks (hd y)"

lemma is_in_Cons: "is_in (t # ts) c \<longleftrightarrow> t \<noteq> NUL \<and> (c = t \<or> is_in ts c)"
  by (auto simp: is_in_def)

lemma is_in_Nil [simp]: "\<not> is_in [] c"
  by (simp add: is_in_def)

lemma starts_tidy: "starts ''|)&;<>'' y \<Longrightarrow> tidy y"
  by (auto simp: starts_def tidy_def is_in_Cons is_in_whitespace)

lemma parseredirs_none: "rest s i y \<Longrightarrow> tidy y \<Longrightarrow> y = [] \<or> \<not> is_in ''<>'' (hd y) \<Longrightarrow> parseredirs s c i = Parsed c i"
  using rest_peek [of s i y "''<>''"] by (subst parseredirs.simps) auto

lemma parseredirs_one:
  assumes "rest s i (mode_sym m @ '' '' @ f @ '' '' @ y)" "valid_word f" "tidy y"
  shows "\<exists>w. part s w = f \<and> parseredirs s c i = parseredirs s (REDIR c w m (mode_fd m)) (i + length (mode_sym m @ '' '' @ f @ '' ''))"
proof -
  let ?k = "i + length (mode_sym m) + 1"
  have tf: "tidy (f @ '' '' @ y)" using assms(2) by (cases f) (auto simp: tidy_def valid_word_def)
  have r: "rest s ?k (f @ CHR '' '' # y)" using rest_more [of s i "mode_sym m @ '' ''" "f @ CHR '' '' # y"] assms(1) by simp
  note w = rest_word [OF r assms(2,3)]
  have "tidy (mode_sym m @ '' '' @ f @ '' '' @ y)" by (cases m) (auto simp: tidy_def is_in_whitespace)
  then have pk: "peek s i ''<>'' = (i, True)" using rest_peek [OF assms(1), of "''<>''"] by (cases m) (auto simp: is_in_Cons)
  have g: "\<exists>q e. gettoken s i = (case m of ReadOnly \<Rightarrow> CHR ''<'' | CreateTrunc \<Rightarrow> CHR ''>'' | CreateOnly \<Rightarrow> CHR ''+'', q, e, ?k)"
    using rest_symbol [of s i _ "f @ '' '' @ y"] rest_append [of s i "f @ '' '' @ y"] assms(1) tf by (cases m) auto
  then obtain q e where g: "gettoken s i = (case m of ReadOnly \<Rightarrow> CHR ''<'' | CreateTrunc \<Rightarrow> CHR ''>'' | CreateOnly \<Rightarrow> CHR ''+'', q, e, ?k)" by blast
  have "parseredirs s c i = parseredirs s (REDIR c (?k, ?k + length f) m (mode_fd m)) (?k + length f + 1)"
    using pk g w(1) by (subst parseredirs.simps) (cases m; simp)
  then show ?thesis using w(2) by (intro exI [of _ "(?k, ?k + length f)"]) (simp add: algebra_simps)
qed

text \<open>An element of a pipeline is complete at \<open>j\<close>.\<close>

definition finished :: "string \<Rightarrow> nat \<Rightarrow> bool" where
  "finished s j \<longleftrightarrow> skip_white s j = j \<and> (at s j = NUL \<or> is_in ''|)&;'' (at s j))"

lemma rest_finished: "rest s j y \<Longrightarrow> starts ''|)&;'' y \<Longrightarrow> finished s j"
proof -
  assume r: "rest s j y" and st: "starts ''|)&;'' y"
  have "tidy y" using st by (auto simp: starts_def tidy_def is_in_Cons is_in_whitespace)
  then have "skip_white s j = j" by (rule rest_skip [OF r])
  moreover have "at y 0 = NUL \<or> is_in ''|)&;'' (at y 0)" using st by (cases y) (auto simp: starts_def at_def)
  ultimately show ?thesis using rest_at [OF r, of 0] by (simp add: finished_def)
qed

lemma parseargs_finished: "finished s j \<Longrightarrow> parseargs s ret argc j = Parsed ret j"
  by (subst parseargs.simps) (auto simp: finished_def peek_def gettoken_def token_at_def Let_def)

text \<open>
  \<open>parses_exec x c\<close>: after the text \<open>x\<close> the parser has read \<open>c\<close> and goes on with redirections.
\<close>

definition parses_exec :: "string \<Rightarrow> string cmd \<Rightarrow> bool" where
  "parses_exec x c \<longleftrightarrow> (\<forall>s i y n. rest s i (x @ y) \<longrightarrow> starts ''|)&;<>'' y \<longrightarrow> 4 * (length s - i) + 2 \<le> n \<longrightarrow>
     (\<exists>t. map_cmd (part s) t = c \<and>
       (\<forall>t' j. parseredirs s t (i + length x) = Parsed t' j \<longrightarrow> finished s j \<longrightarrow> parseexec n s i = Parsed t' j)))"

definition parses_pipe :: "string \<Rightarrow> string cmd \<Rightarrow> bool" where
  "parses_pipe x c \<longleftrightarrow> (\<forall>s i y n. rest s i (x @ y) \<longrightarrow> starts '')&;'' y \<longrightarrow> 4 * (length s - i) + 3 \<le> n \<longrightarrow>
     (\<exists>t. map_cmd (part s) t = c \<and> parsepipe n s i = Parsed t (i + length x)))"

definition parses_back :: "string \<Rightarrow> string cmd \<Rightarrow> bool" where
  "parses_back x c \<longleftrightarrow> (\<forall>s i y n. rest s i (x @ y) \<longrightarrow> starts '')&;'' y \<longrightarrow> 4 * (length s - i) + 3 \<le> n \<longrightarrow>
     (\<exists>t u j. map_cmd (part s) t = c \<and> parsepipe n s i = Parsed u j \<and> parsebacks s u j = parsebacks s t (i + length x)))"

definition parses_line :: "string \<Rightarrow> string cmd \<Rightarrow> bool" where
  "parses_line x c \<longleftrightarrow> (\<forall>s i y n. rest s i (x @ y) \<longrightarrow> starts '')'' y \<longrightarrow> 4 * (length s - i) + 4 \<le> n \<longrightarrow>
     (\<exists>t. map_cmd (part s) t = c \<and> parseline n s i = Parsed t (i + length x)))"

lemma words_Cons: "words (w # ws) @ y = w @ CHR '' '' # words ws @ y"
  by (simp add: words_def)

lemma words_tidy: "(\<forall>w\<in>set ws. valid_word w) \<Longrightarrow> tidy y \<Longrightarrow> tidy (words ws @ y)"
  by (cases ws) (auto simp: words_def tidy_def valid_word_def hd_append)

lemma parseargs_words:
  assumes "rest s i (words ws @ y)" "\<forall>w\<in>set ws. valid_word w" "starts ''|)&;<>'' y" "length as + length ws < MAXARGS"
  shows "\<exists>sp. map (part s) sp = ws \<and> (\<forall>t' j. parseredirs s (EXEC (as @ sp)) (i + length (words ws)) = Parsed t' j \<longrightarrow> finished s j \<longrightarrow>
    bindp (parseredirs s (EXEC as) i) (\<lambda>r p. parseargs s r (length as) p) = Parsed t' j)"
  using assms
proof (induction ws arbitrary: as i)
  case Nil
  then show ?case by (auto simp: words_def parseargs_finished)
next
  case (Cons w ws)
  have ty: "tidy (words ws @ y)" "tidy (words (w # ws) @ y)" using words_tidy [of _ y] starts_tidy [OF Cons(4)] Cons(3) by auto
  have r: "rest s i (w @ CHR '' '' # words ws @ y)" using Cons(2) by (simp add: words_Cons)
  note wd = rest_word [OF r _ ty(1)]
  have hd: "\<not> is_in symbols (hd (words (w # ws) @ y))" "hd (words (w # ws) @ y) \<noteq> NUL"
    using Cons(3) by (auto simp: words_Cons valid_word_def hd_append)
  have p0: "parseredirs s (EXEC as) i = Parsed (EXEC as) i"
    using parseredirs_none [OF Cons(2) ty(2)] hd by (auto simp: is_in_symbols is_in_Cons)
  have pk: "peek s i ''|)&;'' = (i, False)" using rest_peek [OF Cons(2) ty(2)] hd by (auto simp: is_in_symbols is_in_Cons)
  let ?i = "i + length w + 1" and ?w = "(i, i + length w)"
  have st: "parseargs s (EXEC as) (length as) i = bindp (parseredirs s (EXEC (as @ [?w])) ?i) (\<lambda>r p. parseargs s r (length (as @ [?w])) p)"
    using pk wd(1) Cons(3,5) by (subst parseargs.simps) (simp add: MAXARGS_def)
  have "rest s ?i (words ws @ y)" using rest_more [of s i "w @ '' ''" "words ws @ y"] r by simp
  then obtain sp where sp: "map (part s) sp = ws" "\<forall>t' j. parseredirs s (EXEC ((as @ [?w]) @ sp)) (?i + length (words ws)) = Parsed t' j \<longrightarrow>
      finished s j \<longrightarrow> bindp (parseredirs s (EXEC (as @ [?w])) ?i) (\<lambda>r p. parseargs s r (length (as @ [?w])) p) = Parsed t' j"
    using Cons(1) [of ?i "as @ [?w]"] Cons(3-5) by auto
  have "map (part s) (?w # sp) = w # ws" using wd(2) sp(1) Cons(3) by simp
  moreover have "i + length (words (w # ws)) = ?i + length (words ws)" by (simp add: words_def)
  ultimately show ?case using sp(2) st p0 by (intro exI [of _ "?w # sp"]) (simp add: add.assoc)
qed

lemma parses_words:
  assumes "valid (EXEC ws)"
  shows "parses_exec (words ws) (EXEC ws)"
  unfolding parses_exec_def
proof (intro allI impI)
  fix s i y n
  assume a: "rest s i (words ws @ y)" "starts ''|)&;<>'' y" "4 * (length s - i) + 2 \<le> n"
  obtain m where n: "n = Suc m" using a(3) by (cases n) auto
  have ty: "tidy (words ws @ y)" using words_tidy starts_tidy [OF a(2)] assms by auto
  have "hd (words ws @ y) \<noteq> CHR ''('' \<or> words ws @ y = []"
    using assms a(2) by (cases ws) (auto simp: words_def valid_word_def is_in_symbols starts_def is_in_Cons hd_append)
  then have "peek s i ''('' = (i, False)" using rest_peek [OF a(1) ty] by (auto simp: is_in_Cons)
  then show "\<exists>t. map_cmd (part s) t = EXEC ws \<and> (\<forall>t' j. parseredirs s t (i + length (words ws)) = Parsed t' j \<longrightarrow> finished s j \<longrightarrow> parseexec n s i = Parsed t' j)"
    using parseargs_words [of s i ws y "[]"] a assms n by auto (metis cmd.map(1))
qed

lemma parses_redir:
  assumes "parses_exec x c" "valid_word f"
  shows "parses_exec (x @ mode_sym m @ '' '' @ f @ '' '') (REDIR c f m (mode_fd m))"
  unfolding parses_exec_def
proof (intro allI impI)
  fix s i y n
  let ?r = "mode_sym m @ '' '' @ f @ '' ''"
  assume a: "rest s i ((x @ ?r) @ y)" "starts ''|)&;<>'' y" "4 * (length s - i) + 2 \<le> n"
  have r: "rest s i (x @ ?r @ y)" using a(1) by simp
  have "starts ''|)&;<>'' (?r @ y)" by (cases m) (auto simp: starts_def is_in_Cons)
  then obtain t where t: "map_cmd (part s) t = c"
    "\<forall>t' j. parseredirs s t (i + length x) = Parsed t' j \<longrightarrow> finished s j \<longrightarrow> parseexec n s i = Parsed t' j"
    using assms(1) r a(3) unfolding parses_exec_def by metis
  obtain w where "part s w = f" "parseredirs s t (i + length x) = parseredirs s (REDIR t w m (mode_fd m)) (i + length x + length ?r)"
    using parseredirs_one [of s "i + length x" m f y t] rest_more [OF r] assms(2) starts_tidy [OF a(2)] by auto
  then show "\<exists>t. map_cmd (part s) t = REDIR c f m (mode_fd m) \<and>
      (\<forall>t' j. parseredirs s t (i + length (x @ ?r)) = Parsed t' j \<longrightarrow> finished s j \<longrightarrow> parseexec n s i = Parsed t' j)"
    using t by (intro exI [of _ "REDIR t w m (mode_fd m)"]) (simp add: add.assoc)
qed

lemma starts_mono: "starts toks y \<Longrightarrow> (\<And>c. is_in toks c \<Longrightarrow> is_in toks' c) \<Longrightarrow> starts toks' y"
  by (auto simp: starts_def)

lemma parses_block:
  assumes "parses_line x c" "\<And>y. tidy y \<Longrightarrow> tidy (x @ y)"
  shows "parses_exec (bracket True x) c"
  unfolding parses_exec_def
proof (intro allI impI)
  fix s i y n
  assume a: "rest s i (bracket True x @ y)" "starts ''|)&;<>'' y" "4 * (length s - i) + 2 \<le> n"
  have ty: "tidy y" using starts_tidy [OF a(2)] .
  let ?z = "CHR '')'' # CHR '' '' # y"
  have r0: "rest s i (CHR ''('' # CHR '' '' # x @ ?z)" using a(1) by (simp add: bracket_def)
  then have r1: "rest s (i + 2) (x @ ?z)" using rest_more [of s i "''( ''"] by simp
  have r2: "rest s (i + 2 + length x) ?z" using rest_more [OF r1] .
  have sz: "starts '')'' ?z" by (simp add: starts_def is_in_Cons)
  have "tidy ?z" by (simp add: tidy_def is_in_whitespace)
  note tz = this assms(2) [OF this]
  obtain m where n: "n = Suc (Suc m)" "4 * (length s - (i + 2)) + 4 \<le> m"
    using a(3) rest_length [OF r0] by (cases n; cases "n - 1") auto
  obtain t where t: "map_cmd (part s) t = c" "parseline m s (i + 2) = Parsed t (i + 2 + length x)"
    using assms(1) r1 n(2) sz unfolding parses_line_def by metis
  have "peek s i ''('' = (i, True)" using rest_peek [OF r0] by (auto simp: tidy_def is_in_Cons is_in_whitespace)
  moreover have "gettoken s i = (CHR ''('', i, i + 1, i + 2)" using rest_symbol [OF r0 tz(2)] by simp
  moreover have "peek s (i + 2 + length x) '')'' = (i + 2 + length x, True)" using rest_peek [OF r2 tz(1)] by (simp add: is_in_Cons)
  moreover have "gettoken s (i + 2 + length x) = (CHR '')'', i + 2 + length x, i + 2 + length x + 1, i + 2 + length x + 2)"
    using rest_symbol [OF r2 ty] by simp
  ultimately have "parseexec n s i = parseredirs s t (i + length (bracket True x))" using n(1) t(2) by (simp add: bracket_def add.assoc)
  then show "\<exists>t. map_cmd (part s) t = c \<and> (\<forall>t' j. parseredirs s t (i + length (bracket True x)) = Parsed t' j \<longrightarrow> finished s j \<longrightarrow> parseexec n s i = Parsed t' j)"
    using t(1) by auto
qed

lemma exec_parsed:
  assumes "parses_exec x c" "rest s i (x @ y)" "starts ''|)&;'' y" "4 * (length s - i) + 2 \<le> n"
  obtains t where "map_cmd (part s) t = c" "parseexec n s i = Parsed t (i + length x)"
proof -
  have "starts ''|)&;<>'' y" using assms(3) by (rule starts_mono) (auto simp: is_in_Cons)
  then obtain t where t: "map_cmd (part s) t = c"
    "\<forall>t' j. parseredirs s t (i + length x) = Parsed t' j \<longrightarrow> finished s j \<longrightarrow> parseexec n s i = Parsed t' j"
    using assms(1,2,4) unfolding parses_exec_def by metis
  have "parseredirs s t (i + length x) = Parsed t (i + length x)"
    using assms(3) by (intro parseredirs_none [OF rest_more [OF assms(2)]]) (auto simp: starts_def tidy_def is_in_Cons is_in_whitespace)
  then show ?thesis using that t rest_finished [OF rest_more [OF assms(2)] assms(3)] by blast
qed

lemma parses_exec_pipe:
  assumes "parses_exec x c"
  shows "parses_pipe x c"
  unfolding parses_pipe_def
proof (intro allI impI)
  fix s i y n
  assume a: "rest s i (x @ y)" "starts '')&;'' y" "4 * (length s - i) + 3 \<le> n"
  obtain m where n: "n = Suc m" "4 * (length s - i) + 2 \<le> m" using a(3) by (cases n) auto
  have "starts ''|)&;'' y" using a(2) by (rule starts_mono) (auto simp: is_in_Cons)
  from exec_parsed [OF assms a(1) this n(2)] obtain t where t: "map_cmd (part s) t = c" "parseexec m s i = Parsed t (i + length x)" .
  have "tidy y" "y = [] \<or> hd y \<noteq> CHR ''|''" using a(2) by (auto simp: starts_def tidy_def is_in_Cons is_in_whitespace)
  then have "peek s (i + length x) ''|'' = (i + length x, False)" using rest_peek [OF rest_more [OF a(1)]] by (auto simp: is_in_Cons)
  then show "\<exists>t. map_cmd (part s) t = c \<and> parsepipe n s i = Parsed t (i + length x)" using t n(1) by auto
qed

lemma parses_pipe_op:
  assumes "parses_exec x c" "parses_pipe z d" "\<And>y. tidy y \<Longrightarrow> tidy (z @ y)"
  shows "parses_pipe (x @ ''| '' @ z) (PIPE c d)"
  unfolding parses_pipe_def
proof (intro allI impI)
  fix s i y n
  assume a: "rest s i ((x @ ''| '' @ z) @ y)" "starts '')&;'' y" "4 * (length s - i) + 3 \<le> n"
  obtain m where n: "n = Suc m" "4 * (length s - i) + 2 \<le> m" using a(3) by (cases n) auto
  have r: "rest s i (x @ CHR ''|'' # CHR '' '' # z @ y)" using a(1) by simp
  have "starts ''|)&;'' (CHR ''|'' # CHR '' '' # z @ y)" by (simp add: starts_def is_in_Cons)
  from exec_parsed [OF assms(1) r this n(2)] obtain t where t: "map_cmd (part s) t = c" "parseexec m s i = Parsed t (i + length x)" .
  note r1 = rest_more [OF r]
  have r2: "rest s (i + length x + 2) (z @ y)" using rest_more [of s "i + length x" "''| ''" "z @ y"] r1 by simp
  have "tidy y" using a(2) by (auto simp: starts_def tidy_def is_in_Cons is_in_whitespace)
  then have ty: "tidy (z @ y)" by (rule assms(3))
  have "peek s (i + length x) ''|'' = (i + length x, True)" using rest_peek [OF r1] by (simp add: is_in_Cons tidy_def is_in_whitespace)
  moreover have "gettoken s (i + length x) = (CHR ''|'', i + length x, i + length x + 1, i + length x + 2)" using rest_symbol [OF r1 ty] by simp
  moreover have "4 * (length s - (i + length x + 2)) + 3 \<le> m" using n(2) rest_length [OF r] by auto
  with assms(2) r2 a(2) obtain u where "map_cmd (part s) u = d" "parsepipe m s (i + length x + 2) = Parsed u (i + length x + 2 + length z)"
    unfolding parses_pipe_def by metis
  ultimately show "\<exists>t. map_cmd (part s) t = PIPE c d \<and> parsepipe n s i = Parsed t (i + length (x @ ''| '' @ z))"
    using t n(1) by (intro exI [of _ "PIPE t u"]) (simp add: add.assoc)
qed

lemma parses_pipe_back: "parses_pipe x c \<Longrightarrow> parses_back x c"
  unfolding parses_pipe_def parses_back_def by metis

lemma parses_back_op:
  assumes "parses_back x c"
  shows "parses_back (x @ ''& '') (BACK c)"
  unfolding parses_back_def
proof (intro allI impI)
  fix s i y n
  assume a: "rest s i ((x @ ''& '') @ y)" "starts '')&;'' y" "4 * (length s - i) + 3 \<le> n"
  have r: "rest s i (x @ CHR ''&'' # CHR '' '' # y)" using a(1) by simp
  have "starts '')&;'' (CHR ''&'' # CHR '' '' # y)" by (simp add: starts_def is_in_Cons)
  then obtain t u j where t: "map_cmd (part s) t = c" "parsepipe n s i = Parsed u j" "parsebacks s u j = parsebacks s t (i + length x)"
    using assms r a(3) unfolding parses_back_def by metis
  note r1 = rest_more [OF r]
  have ty: "tidy y" using a(2) by (auto simp: starts_def tidy_def is_in_Cons is_in_whitespace)
  have "peek s (i + length x) ''&'' = (i + length x, True)" using rest_peek [OF r1] by (simp add: is_in_Cons tidy_def is_in_whitespace)
  moreover have "gettoken s (i + length x) = (CHR ''&'', i + length x, i + length x + 1, i + length x + 2)" using rest_symbol [OF r1 ty] by simp
  ultimately have "parsebacks s t (i + length x) = parsebacks s (BACK t) (i + length (x @ ''& ''))" by (subst parsebacks.simps) (simp add: add.assoc)
  then show "\<exists>t u j. map_cmd (part s) t = BACK c \<and> parsepipe n s i = Parsed u j \<and> parsebacks s u j = parsebacks s t (i + length (x @ ''& ''))"
    using t by (intro exI [of _ "BACK t"] exI [of _ u] exI [of _ j]) simp
qed

lemma back_parsed:
  assumes "parses_back x c" "rest s i (x @ y)" "starts '');'' y" "4 * (length s - i) + 3 \<le> n"
  obtains t u j where "map_cmd (part s) t = c" "parsepipe n s i = Parsed u j" "parsebacks s u j = (t, i + length x)"
proof -
  have "starts '')&;'' y" using assms(3) by (rule starts_mono) (auto simp: is_in_Cons)
  then obtain t u j where t: "map_cmd (part s) t = c" "parsepipe n s i = Parsed u j" "parsebacks s u j = parsebacks s t (i + length x)"
    using assms(1,2,4) unfolding parses_back_def by metis
  have "tidy y" "y = [] \<or> hd y \<noteq> CHR ''&''" using assms(3) by (auto simp: starts_def tidy_def is_in_Cons is_in_whitespace)
  then have "peek s (i + length x) ''&'' = (i + length x, False)" using rest_peek [OF rest_more [OF assms(2)]] by (auto simp: is_in_Cons)
  then have "parsebacks s t (i + length x) = (t, i + length x)" by (subst parsebacks.simps) simp
  then show ?thesis using that t by simp
qed

lemma parses_back_line:
  assumes "parses_back x c"
  shows "parses_line x c"
  unfolding parses_line_def
proof (intro allI impI)
  fix s i y n
  assume a: "rest s i (x @ y)" "starts '')'' y" "4 * (length s - i) + 4 \<le> n"
  obtain m where n: "n = Suc m" "4 * (length s - i) + 3 \<le> m" using a(3) by (cases n) auto
  have "starts '');'' y" using a(2) by (rule starts_mono) (auto simp: is_in_Cons)
  from back_parsed [OF assms a(1) this n(2)] obtain t u j where t: "map_cmd (part s) t = c" "parsepipe m s i = Parsed u j" "parsebacks s u j = (t, i + length x)" .
  have "tidy y" "y = [] \<or> hd y \<noteq> CHR '';''" using a(2) by (auto simp: starts_def tidy_def is_in_Cons is_in_whitespace)
  then have "peek s (i + length x) '';'' = (i + length x, False)" using rest_peek [OF rest_more [OF a(1)]] by (auto simp: is_in_Cons)
  then show "\<exists>t. map_cmd (part s) t = c \<and> parseline n s i = Parsed t (i + length x)" using t n(1) by auto
qed

lemma parses_line_op:
  assumes "parses_back x c" "parses_line z d" "\<And>y. tidy y \<Longrightarrow> tidy (z @ y)"
  shows "parses_line (x @ ''; '' @ z) (LIST c d)"
  unfolding parses_line_def
proof (intro allI impI)
  fix s i y n
  assume a: "rest s i ((x @ ''; '' @ z) @ y)" "starts '')'' y" "4 * (length s - i) + 4 \<le> n"
  obtain m where n: "n = Suc m" "4 * (length s - i) + 3 \<le> m" using a(3) by (cases n) auto
  have r: "rest s i (x @ CHR '';'' # CHR '' '' # z @ y)" using a(1) by simp
  have "starts '');'' (CHR '';'' # CHR '' '' # z @ y)" by (simp add: starts_def is_in_Cons)
  from back_parsed [OF assms(1) r this n(2)] obtain t u j where t: "map_cmd (part s) t = c" "parsepipe m s i = Parsed u j" "parsebacks s u j = (t, i + length x)" .
  note r1 = rest_more [OF r]
  have r2: "rest s (i + length x + 2) (z @ y)" using rest_more [of s "i + length x" "''; ''" "z @ y"] r1 by simp
  have "tidy y" using a(2) by (auto simp: starts_def tidy_def is_in_Cons is_in_whitespace)
  then have ty: "tidy (z @ y)" by (rule assms(3))
  have "peek s (i + length x) '';'' = (i + length x, True)" using rest_peek [OF r1] by (simp add: is_in_Cons tidy_def is_in_whitespace)
  moreover have "gettoken s (i + length x) = (CHR '';'', i + length x, i + length x + 1, i + length x + 2)" using rest_symbol [OF r1 ty] by simp
  moreover have "4 * (length s - (i + length x + 2)) + 4 \<le> m" using n(2) rest_length [OF r] by auto
  with assms(2) r2 a(2) obtain v where "map_cmd (part s) v = d" "parseline m s (i + length x + 2) = Parsed v (i + length x + 2 + length z)"
    unfolding parses_line_def by metis
  ultimately show "\<exists>t. map_cmd (part s) t = LIST c d \<and> parseline n s i = Parsed t (i + length (x @ ''; '' @ z))"
    using t n(1) by (intro exI [of _ "LIST t v"]) (simp add: add.assoc)
qed

section \<open>The round trip\<close>

lemma tidy_Cons: "tidy (c # y) \<longleftrightarrow> \<not> is_in whitespace c"
  by (simp add: tidy_def)

lemma not_blank: "\<not> is_in whitespace (CHR ''('')" "\<not> is_in whitespace (CHR ''|'')" "\<not> is_in whitespace (CHR '';'')" "\<not> is_in whitespace (CHR ''&'')"
  by (simp_all add: is_in_whitespace)

lemma tidy_render: "valid c \<Longrightarrow> tidy y \<Longrightarrow> tidy (render l c @ y)"
proof (induction c arbitrary: l y)
  case (EXEC ws)
  then show ?case by (simp add: words_tidy)
next
  case (REDIR c f m fd)
  have "tidy (mode_sym m @ '' '' @ f @ '' '' @ y)" by (cases m) (auto simp: tidy_def is_in_whitespace)
  then show ?case using REDIR by simp
next
  case (PIPE c d)
  then show ?case by (simp add: bracket_def tidy_Cons not_blank)
next
  case (LIST c d)
  then show ?case by (simp add: bracket_def tidy_Cons not_blank)
next
  case (BACK c)
  then show ?case by (simp add: bracket_def tidy_Cons not_blank)
qed

lemma parses_levels:
  "(parses_exec x c \<longrightarrow> parses_pipe x c) \<and> (parses_pipe x c \<longrightarrow> parses_back x c) \<and> (parses_back x c \<longrightarrow> parses_line x c)"
  using parses_exec_pipe parses_pipe_back parses_back_line by blast

lemma parses_render:
  "valid c \<Longrightarrow> parses_exec (render 3 c) c \<and> parses_pipe (render 2 c) c \<and> parses_back (render 1 c) c \<and> parses_line (render 0 c) c"
proof (induction c)
  case (EXEC ws)
  then show ?case using parses_words [OF EXEC] parses_levels by simp
next
  case (REDIR c f m fd)
  then have "parses_exec (render l (REDIR c f m fd)) (REDIR c f m fd)" for l using parses_redir [of "render 3 c" c f m] by simp
  then show ?case using parses_levels by blast
next
  case (PIPE c d)
  have p: "parses_pipe (render 3 c @ ''| '' @ render 2 d) (PIPE c d)" using PIPE tidy_render by (intro parses_pipe_op) auto
  then have "parses_exec (bracket True (render 3 c @ ''| '' @ render 2 d)) (PIPE c d)"
    using PIPE(3) tidy_render [of "PIPE c d" _ 0] parses_levels by (intro parses_block) (auto simp: bracket_def)
  then show ?case using p parses_levels by (simp add: bracket_def)
next
  case (LIST c d)
  have p: "parses_line (render 1 c @ ''; '' @ render 0 d) (LIST c d)" using LIST tidy_render by (intro parses_line_op) auto
  then have "parses_exec (bracket True (render 1 c @ ''; '' @ render 0 d)) (LIST c d)"
    using LIST(3) tidy_render [of "LIST c d" _ 0] by (intro parses_block) (auto simp: bracket_def)
  then show ?case using p parses_levels by (simp add: bracket_def)
next
  case (BACK c)
  have p: "parses_back (render 1 c @ ''& '') (BACK c)" using BACK by (intro parses_back_op) auto
  then have "parses_exec (bracket True (render 1 c @ ''& '')) (BACK c)"
    using BACK(2) tidy_render [of "BACK c" _ 0] parses_levels by (intro parses_block) (auto simp: bracket_def)
  then show ?case using p parses_levels by (simp add: bracket_def)
qed

lemma render_no_NUL: "valid c \<Longrightarrow> NUL \<notin> set (render l c)"
proof (induction c arbitrary: l)
  case (REDIR c f m fd)
  then show ?case by (cases m) (auto simp: valid_word_def)
qed (auto simp: words_def bracket_def valid_word_def)

text \<open>
  C6: Parsing a printed command gives the command back, for every tree of commands, redirections,
  pipelines, lists and background jobs: after \<open>parsecmd\<close> the C strings in the tree are the words that were printed.
\<close>

theorem parse_render:
  assumes "valid c"
  shows "\<exists>t buf. parsecmd (render 0 c) = Parsed (t, buf) (length (render 0 c)) \<and> map_cmd (\<lambda>w. cstr buf (fst w)) t = c"
proof -
  let ?s = "render 0 c"
  have "rest ?s 0 (?s @ [])" "starts '')'' []" by (auto simp: rest_def starts_def)
  then obtain t where t: "map_cmd (part ?s) t = c" "parseline (4 * length ?s + 4) ?s 0 = Parsed t (length ?s)"
    using parses_render [OF assms] unfolding parses_line_def by (metis add_0 diff_zero le_refl)
  have pk: "peek ?s (length ?s) [] = (length ?s, False)" using rest_peek [of ?s "length ?s" "[]"] by (simp add: rest_def tidy_def)
  have g: "good ?s t" using parse_total [of ?s "4 * length ?s + 4"] t(2) by force
  let ?b = "nulterminate t (?s @ [NUL])"
  have "map_cmd (\<lambda>w. cstr ?b (fst w)) t = map_cmd (part ?s) t"
    using cstr_part [OF render_no_NUL [OF assms] g] by (intro cmd.map_cong) auto
  then show ?thesis using t pk by (simp add: parsecmd_def)
qed

theorem parse_render_witness:
  "\<exists>t buf. parsecmd ''ls | ( wc -l ; ) > out & '' = Parsed (t, buf) 25 \<and>
     map_cmd (\<lambda>w. cstr buf (fst w)) t =
       BACK (PIPE (EXEC [''ls'']) (REDIR (LIST (EXEC [''wc'', ''-l'']) (EXEC [])) ''out'' CreateTrunc 1))"
proof -
  let ?c = "BACK (PIPE (EXEC [''ls'']) (REDIR (LIST (EXEC [''wc'', ''-l'']) (EXEC [])) ''out'' CreateTrunc 1))"
  have v: "valid ?c" by (simp add: MAXARGS_def valid_word_def is_in_whitespace is_in_symbols)
  have r: "render 0 ?c = ''ls | ( wc -l ; ) > out & ''" by (simp add: words_def bracket_def)
  have l: "length ''ls | ( wc -l ; ) > out & '' = 25" by simp
  from parse_render [OF v, unfolded r l] show ?thesis .
qed

end
