(* ===== verification/Sniffer.thy ===== *)
theory Sniffer
  imports Ulib "HOL-Library.Monad_Syntax"
begin

text \<open>
  The packet decoder of Terminal-Packet-Sniffer/func.c. A packet is the list of its captured bytes (\<open>caplen\<close> of
  them); a pointer into it is an offset. A read outside the captured bytes is undefined in C and has
  the result \<open>None\<close>. What is printed is a list of items, one for each conversion or piece of text of the calls of
  \<open>printf\<close>; an address that \<open>inet_ntop\<close> formats is the item of its bytes. The capture library calls \<open>pckt_handler\<close>
  for every packet. \<open>Col w xs\<close> is a column of width \<open>w\<close>, filled up on the right. \<open>malloc\<close> is taken to succeed, as in the source.
\<close>

unbundle bit_operations_syntax

section \<open>Reading headers\<close>

type_synonym pkt = "u8 list"

definition byte :: "pkt \<Rightarrow> nat \<Rightarrow> nat option" where
  "byte p i = (if i < length p then Some (unat (p ! i)) else None)"

definition bytes :: "pkt \<Rightarrow> nat \<Rightarrow> nat \<Rightarrow> u8 list option" where
  "bytes p i n = (if i + n \<le> length p then Some (take n (drop i p)) else None)"

definition ntohs :: "pkt \<Rightarrow> nat \<Rightarrow> nat option" where
  "ntohs p i = do { a \<leftarrow> byte p i; b \<leftarrow> byte p (i + 1); Some (256 * a + b) }"

definition ntohl :: "pkt \<Rightarrow> nat \<Rightarrow> nat option" where
  "ntohl p i = do { a \<leftarrow> ntohs p i; b \<leftarrow> ntohs p (i + 2); Some (65536 * a + b) }"

definition ETHERTYPE_IP :: nat where "ETHERTYPE_IP = 0x0800"
definition ETHERTYPE_ARP :: nat where "ETHERTYPE_ARP = 0x0806"
definition ETHERTYPE_IPV6 :: nat where "ETHERTYPE_IPV6 = 0x86dd"
definition IPPROTO_ICMP :: nat where "IPPROTO_ICMP = 1"
definition IPPROTO_TCP :: nat where "IPPROTO_TCP = 6"
definition IPPROTO_UDP :: nat where "IPPROTO_UDP = 17"
definition ETHER_HDR :: nat where "ETHER_HDR = 14"
definition MAX_PACKETS :: nat where "MAX_PACKETS = 10000"

lemmas sniffer_consts = ETHERTYPE_IP_def ETHERTYPE_ARP_def ETHERTYPE_IPV6_def IPPROTO_ICMP_def IPPROTO_TCP_def
  IPPROTO_UDP_def ETHER_HDR_def

text \<open>\<open>ip_hl\<close> and \<open>th_off\<close> are four bits of a byte.\<close>

definition ip_hl :: "pkt \<Rightarrow> nat \<Rightarrow> nat option" where
  "ip_hl p off = do { b \<leftarrow> byte p off; Some (b mod 16) }"

definition th_off :: "pkt \<Rightarrow> nat \<Rightarrow> nat option" where
  "th_off p off = do { b \<leftarrow> byte p (off + 12); Some (b div 16) }"

section \<open>Printing\<close>

datatype item =
    S string | D int | X2 nat | X4 nat | X5 nat | X8 nat | Ip4 "u8 list" | Ip6 "u8 list" | Ascii "nat list" | Col nat "item list"

definition get_port_name :: "nat \<Rightarrow> string" where
  "get_port_name port =
     (if port = 80 then '' (HTTP)'' else if port = 443 then '' (HTTPS)'' else if port = 53 then '' (DNS)''
      else if port = 21 then '' (FTP)'' else if port = 22 then '' (SSH)'' else if port = 25 then '' (SMTP)'' else [])"

definition get_app_protocol_name :: "nat \<Rightarrow> string" where
  "get_app_protocol_name port =
     (if port = 80 then ''HTTP'' else if port = 443 then ''HTTPS/TLS'' else if port = 53 then ''DNS'' else ''Data'')"

fun print_mac_address :: "u8 list \<Rightarrow> item list" where
  "print_mac_address [] = []"
| "print_mac_address [b] = [X2 (unat b)]"
| "print_mac_address (b # bs) = X2 (unat b) # S '':'' # print_mac_address bs"

definition isprint :: "nat \<Rightarrow> bool" where
  "isprint c \<longleftrightarrow> 32 \<le> c \<and> c \<le> 126"

text \<open>
  The loop of \<open>handle_payload\<close> from index \<open>i\<close> on; \<open>ascii\<close> is the array of 17 characters, printed up to its NUL.
\<close>

function payload_from :: "pkt \<Rightarrow> nat \<Rightarrow> nat \<Rightarrow> nat \<Rightarrow> nat list \<Rightarrow> item list option" where
  "payload_from p off n i ascii =
     (if i < n then do {
        b \<leftarrow> byte p (off + i);
        let ascii = ascii[i mod 16 := (if isprint b then b else 46)];
        let eol = ((i + 1) mod 16 = 0 \<or> i = n - 1);
        let ascii = (if eol then ascii[i mod 16 + 1 := 0] else ascii);
        rest \<leftarrow> payload_from p off n (i + 1) ascii;
        Some ((if i mod 16 = 0 then [S ''              ''] else []) @ [X2 b, S '' ''] @
          (if eol then replicate (16 - (i mod 16 + 1)) (S ''   '') @ [Ascii (takeWhile (\<lambda>c. c \<noteq> 0) ascii), S ''\<newline>''] else []) @ rest)
      } else Some [])"
  by pat_completeness auto
termination
  by (relation "measure (\<lambda>(p, off, n, i, ascii). n - i)") auto

declare payload_from.simps [simp del]

definition handle_payload :: "pkt \<Rightarrow> nat \<Rightarrow> int \<Rightarrow> item list option" where
  "handle_payload p off len =
     (if len \<le> 0 then Some []
      else do {
        let n = (if len > 64 then 64 else nat len);
        rest \<leftarrow> payload_from p off n 0 (replicate 17 0);
        Some ([S ''Data (first '', D (int n), S '' bytes):\<newline>''] @ rest) })"

section \<open>Layer 4\<close>

definition UDP :: "pkt \<Rightarrow> nat \<Rightarrow> int \<Rightarrow> item list option" where
  "UDP p off ip_payload_len = do {
     src_port \<leftarrow> ntohs p off;
     dst_port \<leftarrow> ntohs p (off + 2);
     ulen \<leftarrow> ntohs p (off + 4);
     sum \<leftarrow> ntohs p (off + 6);
     let payload_len = ip_payload_len - 8;
     rest \<leftarrow> handle_payload p (off + 8) payload_len;
     Some ([S ''UDP HEADER (Layer 4)\<newline>'', S ''--------------------\<newline>'',
       S ''Src Port: '', D (int src_port), S (get_port_name src_port), S '' | Dst Port: '', D (int dst_port), S (get_port_name dst_port),
       S '' | Length: '', D (int ulen), S '' | Checksum: 0x'', X4 sum, S ''\<newline>'',
       S ''L7 (Payload): Identified as '', S (get_app_protocol_name dst_port), S '' on port '', D (int dst_port),
       S '' - '', D payload_len, S '' bytes\<newline>''] @ rest) }"

text \<open>The flags, with the comma and blank after the last one cut off.\<close>

definition tcp_flags :: "nat \<Rightarrow> string" where
  "tcp_flags fl =
     (let s = (if odd (fl div 2) then ''SYN, '' else []) @ (if odd (fl div 16) then ''ACK, '' else []) @
        (if odd fl then ''FIN, '' else []) @ (if odd (fl div 4) then ''RST, '' else []) @
        (if odd (fl div 8) then ''PUSH, '' else []) @ (if odd (fl div 32) then ''URG, '' else [])
      in if length s > 0 then take (length s - 2) s else s)"

definition TCP :: "pkt \<Rightarrow> nat \<Rightarrow> int \<Rightarrow> item list option" where
  "TCP p off ip_payload_len = do {
     src_port \<leftarrow> ntohs p off;
     dst_port \<leftarrow> ntohs p (off + 2);
     hl \<leftarrow> th_off p off;
     seq \<leftarrow> ntohl p (off + 4);
     ack \<leftarrow> ntohl p (off + 8);
     fl \<leftarrow> byte p (off + 13);
     win \<leftarrow> ntohs p (off + 14);
     sum \<leftarrow> ntohs p (off + 16);
     let payload_len = ip_payload_len - int (hl * 4);
     rest \<leftarrow> handle_payload p (off + hl * 4) payload_len;
     Some ([S ''TCP HEADER (Layer 4)\<newline>'', S ''--------------------\<newline>'',
       S ''Src Port: '', D (int src_port), S (get_port_name src_port), S '' | Dst Port: '', D (int dst_port), S (get_port_name dst_port),
       S '' | Seq: '', D (int seq), S '' | Ack: '', D (int ack), S ''\<newline>'',
       S ''Flags: ['', S (tcp_flags fl), S ''] | Window: '', D (int win), S '' | Checksum: 0x'', X4 sum, S '' | Header Length: '',
       D (int (hl * 4)), S '' bytes\<newline>'',
       S ''L7 (Payload): Identified as '', S (get_app_protocol_name dst_port), S '' on port '', D (int dst_port),
       S '' - '', D payload_len, S '' bytes\<newline>''] @ rest) }"

text \<open>The dispatch on the protocol in \<open>IPv4\<close> and \<open>IPv6\<close>.\<close>

definition layer4 :: "pkt \<Rightarrow> nat \<Rightarrow> nat \<Rightarrow> int \<Rightarrow> item list option" where
  "layer4 p proto off len =
     (if proto = IPPROTO_TCP then TCP p off len else if proto = IPPROTO_UDP then UDP p off len else Some [])"

section \<open>Layer 3\<close>

definition IPv4 :: "pkt \<Rightarrow> nat \<Rightarrow> item list option" where
  "IPv4 p off = do {
     src \<leftarrow> bytes p (off + 12) 4;
     dst \<leftarrow> bytes p (off + 16) 4;
     ip_p \<leftarrow> byte p (off + 9);
     ttl \<leftarrow> byte p (off + 8);
     ident \<leftarrow> ntohs p (off + 4);
     len \<leftarrow> ntohs p (off + 2);
     hl \<leftarrow> ip_hl p off;
     flags \<leftarrow> ntohs p (off + 6);
     let df_flag = (if odd (flags div 0x4000) then 1 else 0);
     let mf_flag = (if odd (flags div 0x2000) then 1 else 0);
     let ip_header_len = hl * 4;
     let ip_payload_len = int len - int ip_header_len;
     rest \<leftarrow> layer4 p ip_p (off + ip_header_len) ip_payload_len;
     Some ([S ''\<newline>IPv4 HEADER (Layer 3)\<newline>'', S ''-----------------------\<newline>'',
       S '' Src IP: '', Ip4 src, S '' | Dst IP: '', Ip4 dst, S '' | Protocol: ''] @
       (if ip_p = IPPROTO_TCP then [S ''TCP ('', D 6, S '')''] else if ip_p = IPPROTO_UDP then [S ''UDP ('', D 17, S '')'']
        else if ip_p = IPPROTO_ICMP then [S ''ICMP ('', D 1, S '')''] else []) @
       [S '' | TTL: '', D (int ttl), S ''\<newline>ID: 0x'', X4 ident, S '' | Total Length: '', D (int len), S '' | Header Length: '',
        D (int (hl * 4)), S '' bytes | '', S ''Flags: DF: '', D df_flag, S '' MF: '', D mf_flag, S ''\<newline>''] @ rest) }"

definition IPv6 :: "pkt \<Rightarrow> nat \<Rightarrow> item list option" where
  "IPv6 p off = do {
     src \<leftarrow> bytes p (off + 8) 16;
     dst \<leftarrow> bytes p (off + 24) 16;
     nxt \<leftarrow> byte p (off + 6);
     flow \<leftarrow> ntohl p off;
     hlim \<leftarrow> byte p (off + 7);
     plen \<leftarrow> ntohs p (off + 4);
     let val = flow div 2 ^ 20 mod 256;
     let label = flow mod 2 ^ 20;
     rest \<leftarrow> layer4 p nxt (off + 40) (int plen);
     Some ([S ''\<newline>IPv6 HEADER (Layer 3) \<newline>'', S ''-----------------------\<newline>'',
       S '' Src IP: '', Ip6 src, S '' | Dst IP: '', Ip6 dst, S ''\<newline>Next header: ''] @
       (if nxt = IPPROTO_TCP then [S ''TCP ('', D 6, S '')''] else if nxt = IPPROTO_UDP then [S ''UDP ('', D 17, S '')''] else []) @
       [S '' | '', S ''Hop Limit: '', D (int hlim), S '' | Traffic Class: 0x'', X2 val, S '' | Flow Label: 0x'', X5 label,
        S '' | Payload Length: '', D (int plen), S ''\<newline>''] @ rest) }"

definition ARP :: "pkt \<Rightarrow> nat \<Rightarrow> item list option" where
  "ARP p off = do {
     spa \<leftarrow> bytes p (off + 14) 4;
     tpa \<leftarrow> bytes p (off + 24) 4;
     ar_op \<leftarrow> ntohs p (off + 6);
     sha \<leftarrow> bytes p (off + 8) 6;
     tha \<leftarrow> bytes p (off + 18) 6;
     hrd \<leftarrow> ntohs p off;
     pro \<leftarrow> ntohs p (off + 2);
     hln \<leftarrow> byte p (off + 4);
     pln \<leftarrow> byte p (off + 5);
     Some ([S ''\<newline>ARP HEADER (Layer 3)\<newline>'', S ''--------------------\<newline>'', S ''Operation: ''] @
       (if ar_op = 1 then [S ''Request (1)''] else if ar_op = 2 then [S ''Reply (2)''] else [S ''Unknown ('', D (int ar_op), S '')'']) @
       [S '' | Sender IP: '', Ip4 spa, S '' | Target IP: '', Ip4 tpa, S ''\<newline>'', S ''Sender MAC: ''] @ print_mac_address sha @
       [S '' | Target MAC: ''] @ print_mac_address tha @ [S ''\<newline>'', S ''HW Type: '', D (int hrd), S '' | Proto Type: 0x'', X4 pro,
        S '' | HW Len: '', D (int hln), S '' | Proto Len: '', D (int pln), S ''\<newline>'']) }"

section \<open>The handler\<close>

record capture_hdr =
  tv_sec :: int
  tv_usec :: int

record sniffer =
  pid :: nat
  p_index :: nat
  filt :: string
  my_data :: "nat \<Rightarrow> (capture_hdr \<times> pkt) option"
  printed :: "item list"

record packet_class =
  is_arp :: bool
  is_tcp :: bool
  is_udp :: bool
  srcp :: nat
  dstp :: nat

definition no_class :: packet_class where
  "no_class = \<lparr>is_arp = False, is_tcp = False, is_udp = False, srcp = 0, dstp = 0\<rparr>"

definition port_class :: "pkt \<Rightarrow> nat \<Rightarrow> nat \<Rightarrow> packet_class option" where
  "port_class p proto l4 =
     (if proto = IPPROTO_TCP then do {
        s \<leftarrow> ntohs p l4; d \<leftarrow> ntohs p (l4 + 2); Some (no_class\<lparr>is_tcp := True, srcp := s, dstp := d\<rparr>) }
      else if proto = IPPROTO_UDP then do {
        s \<leftarrow> ntohs p l4; d \<leftarrow> ntohs p (l4 + 2); Some (no_class\<lparr>is_udp := True, srcp := s, dstp := d\<rparr>) }
      else Some no_class)"

definition classify :: "pkt \<Rightarrow> packet_class option" where
  "classify p = do {
     ether \<leftarrow> ntohs p 12;
     if ether = ETHERTYPE_ARP then Some (no_class\<lparr>is_arp := True\<rparr>)
     else if ether = ETHERTYPE_IP then do {
       hl \<leftarrow> ip_hl p ETHER_HDR; proto \<leftarrow> byte p (ETHER_HDR + 9); port_class p proto (ETHER_HDR + hl * 4) }
     else if ether = ETHERTYPE_IPV6 then do {
       proto \<leftarrow> byte p (ETHER_HDR + 6); port_class p proto (ETHER_HDR + 40) }
     else Some no_class }"

text \<open>The loop sets \<open>flag\<close> to 0 when \<open>filter[0]\<close> is the character 0, whatever its index is.\<close>

definition print_packet :: "string \<Rightarrow> packet_class \<Rightarrow> bool" where
  "print_packet f c \<longleftrightarrow>
     at f 0 \<noteq> CHR ''0''
     \<or> at f 0 = CHR ''1'' \<and> is_tcp c \<and> (srcp c = 80 \<or> dstp c = 80)
     \<or> at f 1 = CHR ''1'' \<and> is_tcp c \<and> (srcp c = 443 \<or> dstp c = 443)
     \<or> at f 2 = CHR ''1'' \<and> (srcp c = 53 \<or> dstp c = 53)
     \<or> at f 3 = CHR ''1'' \<and> is_arp c
     \<or> at f 4 = CHR ''1'' \<and> is_tcp c
     \<or> at f 5 = CHR ''1'' \<and> is_udp c"

fun raw_bytes :: "nat \<Rightarrow> nat \<Rightarrow> u8 list \<Rightarrow> item list" where
  "raw_bytes n i [] = []"
| "raw_bytes n i (b # bs) =
     [X2 (unat b), S '' ''] @ (if (i + 1) mod 8 = 0 \<and> i + 1 \<noteq> n then [S '' ''] else []) @ raw_bytes n (i + 1) bs"

text \<open>Layer 3 by the type of the frame.\<close>

definition layer3 :: "nat \<Rightarrow> pkt \<Rightarrow> item list option" where
  "layer3 ether p =
     (if ether = ETHERTYPE_IP then map_option (\<lambda>r. [S ''IPv4 (0x'', X4 ether, S '')''] @ r) (IPv4 p ETHER_HDR)
      else if ether = ETHERTYPE_IPV6 then map_option (\<lambda>r. [S ''IPv6 (0x'', X4 ether, S '')''] @ r) (IPv6 p ETHER_HDR)
      else if ether = ETHERTYPE_ARP then map_option (\<lambda>r. [S ''ARP (0x'', X4 ether, S '')''] @ r) (ARP p ETHER_HDR)
      else Some [S ''Unknown Type (0x'', X4 ether, S '')''])"

definition pckt_handler :: "capture_hdr \<Rightarrow> pkt \<Rightarrow> sniffer \<Rightarrow> sniffer option" where
  "pckt_handler h p s = do {
     let s = s\<lparr>p_index := pid s\<rparr>;
     ether \<leftarrow> ntohs p 12;
     let s = (if pid s < MAX_PACKETS then s\<lparr>my_data := (my_data s)(pid s := Some (h, p))\<rparr> else s);
     c \<leftarrow> classify p;
     if \<not> print_packet (filt s) c then Some s
     else do {
       let s = s\<lparr>pid := pid s + 1\<rparr>;
       let n = min 16 (length p);
       dhost \<leftarrow> bytes p 0 6;
       shost \<leftarrow> bytes p 6 6;
       l3 \<leftarrow> layer3 ether p;
       Some (s\<lparr>printed := printed s @
         [S ''---------------------------------------------------------\<newline>'', S ''\<newline>Packet #'', D (int (pid s)), S '' | '',
          S ''Timestamp: '', D (tv_sec h), S ''.'', D (tv_usec h), S '' | '', S ''Length: '', D (int (length p)), S '' bytes\<newline>'',
          S ''First 16 raw bytes: ''] @ raw_bytes n 0 (take n p) @ [S ''\<newline>'', S ''L2 (Ethernet): Dst MAC: ''] @
         print_mac_address dhost @ [S '' | Src MAC: ''] @ print_mac_address shost @ [S '' | EtherType: ''] @ l3 @ [S ''\<newline>'']\<rparr>) } }"

section \<open>Inspecting the last session\<close>

text \<open>The two ends of a packet for its line of the summary: \<open>final_src\<close> and \<open>final_dst\<close>.\<close>

definition with_ports :: "pkt \<Rightarrow> nat \<Rightarrow> nat \<Rightarrow> (item list \<Rightarrow> item list) \<Rightarrow> item list \<Rightarrow> item list \<Rightarrow> (string \<times> item list \<times> item list) option" where
  "with_ports p proto l4 br src dst =
     (if proto = IPPROTO_TCP \<or> proto = IPPROTO_UDP then do {
        sp \<leftarrow> ntohs p l4; dp \<leftarrow> ntohs p (l4 + 2);
        Some (if proto = IPPROTO_TCP then ''TCP'' else ''UDP'', br src @ [S '':'', D (int sp)], br dst @ [S '':'', D (int dp)]) }
      else Some (''N/A'', src, dst))"

text \<open>For a frame of another type the two strings are printed without having been written: undefined.\<close>

definition summary_ends :: "pkt \<Rightarrow> (string \<times> string \<times> item list \<times> item list) option" where
  "summary_ends p = do {
     ether \<leftarrow> ntohs p 12;
     if ether = ETHERTYPE_IP then do {
       src \<leftarrow> bytes p (ETHER_HDR + 12) 4; dst \<leftarrow> bytes p (ETHER_HDR + 16) 4;
       hl \<leftarrow> ip_hl p ETHER_HDR; proto \<leftarrow> byte p (ETHER_HDR + 9);
       r \<leftarrow> with_ports p proto (ETHER_HDR + hl * 4) id [Ip4 src] [Ip4 dst];
       Some (''IPv4'', r) }
     else if ether = ETHERTYPE_ARP then do {
       src \<leftarrow> bytes p (ETHER_HDR + 14) 4; dst \<leftarrow> bytes p (ETHER_HDR + 24) 4;
       Some (''ARP'', ''N/A'', [Ip4 src], [Ip4 dst]) }
     else if ether = ETHERTYPE_IPV6 then do {
       src \<leftarrow> bytes p (ETHER_HDR + 8) 16; dst \<leftarrow> bytes p (ETHER_HDR + 24) 16;
       proto \<leftarrow> byte p (ETHER_HDR + 6);
       r \<leftarrow> with_ports p proto (ETHER_HDR + 40) (\<lambda>a. [S ''[''] @ a @ [S '']'']) [Ip6 src] [Ip6 dst];
       Some (''IPv6'', r) }
     else None }"

definition print_packet_summary :: "int \<Rightarrow> capture_hdr \<Rightarrow> pkt \<Rightarrow> item list option" where
  "print_packet_summary packet_id h p = do {
     (l3, l4, src, dst) \<leftarrow> summary_ends p;
     Some [S ''  #'', Col 4 [D packet_id], S '' | '', D (tv_sec h), S ''.'', D (tv_usec h), S '' | '', Col 7 [S l3], S '' | '',
       Col 5 [S l4], S '' | '', Col 22 src, S '' -> '', Col 22 dst, S ''\<newline>''] }"

function frame_from :: "pkt \<Rightarrow> nat \<Rightarrow> nat list \<Rightarrow> item list option" where
  "frame_from p i ascii =
     (if i < length p then do {
        b \<leftarrow> byte p i;
        let ascii = ascii[i mod 16 := (if isprint b then b else 46)];
        let eol = ((i + 1) mod 16 = 0 \<or> i = length p - 1);
        let ascii = (if eol then ascii[i mod 16 + 1 := 0] else ascii);
        rest \<leftarrow> frame_from p (i + 1) ascii;
        Some ((if i mod 16 = 0 then [X8 i, S '': ''] else []) @ [X2 b, S '' ''] @ (if i mod 16 = 7 then [S '' ''] else []) @
          (if eol then
             (if i = length p - 1 then concat (map (\<lambda>j. S ''   '' # (if j = 7 then [S '' ''] else [])) [i mod 16 + 1..<16]) else []) @
             [S '' |'', Ascii (takeWhile (\<lambda>c. c \<noteq> 0) ascii), S ''|\<newline>'']
           else []) @ rest)
      } else Some [])"
  by pat_completeness auto
termination
  by (relation "measure (\<lambda>(p, i, ascii). length p - i)") auto

declare frame_from.simps [simp del]

definition CompleteFrame :: "pkt \<Rightarrow> item list option" where
  "CompleteFrame p =
     (if length p = 0 then Some []
      else do {
        rest \<leftarrow> frame_from p 0 (replicate 17 0);
        Some ([S ''\<newline>--- COMPLETE FRAME HEX DUMP ('', D (int (length p)), S '' bytes) ---\<newline>'',
          S ''Offset(h) 0  1  2  3  4  5  6  7  8  9  A  B  C  D  E  F   ASCII\<newline>'',
          S ''----------------------------------------------------------------------\<newline>''] @ rest) })"

fun spaced :: "u8 list \<Rightarrow> item list" where
  "spaced [] = []"
| "spaced [b] = [X2 (unat b)]"
| "spaced (b # bs) = X2 (unat b) # S '' '' # spaced bs"

definition Print_Ethernet :: "pkt \<Rightarrow> item list option" where
  "Print_Ethernet p = do {
     dhost \<leftarrow> bytes p 0 6;
     shost \<leftarrow> bytes p 6 6;
     types \<leftarrow> ntohs p 12;
     rest \<leftarrow> (if types = ETHERTYPE_IP then
               map_option (\<lambda>r. [S ''   EtherType: 0x'', X4 types, S '' (IPv4)(Bytes 12-13)\<newline>''] @ r) (IPv4 p ETHER_HDR)
             else if types = ETHERTYPE_IPV6 then
               map_option (\<lambda>r. [S ''   EtherType: 0x'', X4 types, S '' (IPv6)(Bytes 12-13)\<newline>''] @ r) (IPv6 p ETHER_HDR)
             else if types = ETHERTYPE_ARP then
               map_option (\<lambda>r. [S ''   EtherType: 0x'', X4 types, S '' (ARP)(Bytes 12-13)\<newline>''] @ r) (ARP p ETHER_HDR)
             else Some [S ''Unknown Type\<newline>'']);
     Some ([S ''ETHERNET II FRAME (Layer 2)\<newline>'', S ''---------------------------\<newline>'', S ''   Destination MAC: ''] @
       print_mac_address dhost @ [S '' (Bytes 0-5)\<newline>'', S ''   Hex: ''] @ spaced dhost @ [S ''\<newline>'', S ''   Source MAC: ''] @
       print_mac_address shost @ [S '' (Bytes 6-11)\<newline>'', S ''   Hex: ''] @ spaced shost @ [S ''\<newline>''] @ rest) }"

text \<open>A request below 1 reads before the array; an entry that was never filled has the pointer NULL.\<close>

definition Detailed_analysis :: "int \<Rightarrow> sniffer \<Rightarrow> item list option" where
  "Detailed_analysis req s =
     (if req > int (p_index s) + 1 then Some [S ''Invalid Input\<newline>'']
      else if req < 1 then None
      else do {
        (h, p) \<leftarrow> my_data s (nat req - 1);
        frame \<leftarrow> CompleteFrame p;
        eth \<leftarrow> Print_Ethernet p;
        Some ([S ''C-SHARK DETAILED PACKET ANALYSIS\<newline>'', S ''--------------------------------\<newline>'', S ''PACKET SUMMARY\<newline>'',
          S ''--------------\<newline>'', S ''Packet ID:\<newline>#'', D req, S ''\<newline>Timestamp:'', D (tv_sec h), S ''.'', D (tv_usec h),
          S ''\<newline>Frame Length:'', D (int (length p)), S ''\<newline>Captured:'', D (int (length p)), S ''\<newline>''] @ frame @
          [S ''LAYER-BY_LAYER ANALYSIS\<newline>'', S ''-----------------------\<newline>''] @ eth) })"

section \<open>Complete packets are decoded without reading outside the capture\<close>

text \<open>
  The headers a packet announces are there, and so are the payload bytes that are shown.
\<close>

definition l4_complete :: "pkt \<Rightarrow> nat \<Rightarrow> nat \<Rightarrow> int \<Rightarrow> bool" where
  "l4_complete p proto l4 plen \<longleftrightarrow>
     (proto = IPPROTO_UDP \<longrightarrow> l4 + 8 \<le> length p \<and> int l4 + plen \<le> int (length p)) \<and>
     (proto = IPPROTO_TCP \<longrightarrow> l4 + 18 \<le> length p \<and> int l4 + plen \<le> int (length p))"

definition complete :: "pkt \<Rightarrow> bool" where
  "complete p \<longleftrightarrow> ETHER_HDR \<le> length p \<and>
     (case ntohs p 12 of None \<Rightarrow> False | Some ether \<Rightarrow>
        (ether = ETHERTYPE_ARP \<longrightarrow> ETHER_HDR + 28 \<le> length p) \<and>
        (ether = ETHERTYPE_IP \<longrightarrow> ETHER_HDR + 20 \<le> length p \<and>
           (let hl = unat (p ! 14) mod 16 * 4; len = 256 * unat (p ! 16) + unat (p ! 17) in
            l4_complete p (unat (p ! 23)) (ETHER_HDR + hl) (int len - int hl))) \<and>
        (ether = ETHERTYPE_IPV6 \<longrightarrow> ETHER_HDR + 40 \<le> length p \<and>
           l4_complete p (unat (p ! 20)) (ETHER_HDR + 40) (int (256 * unat (p ! 18) + unat (p ! 19)))))"

lemma bind_defined: "m \<noteq> None \<Longrightarrow> (\<And>x. m = Some x \<Longrightarrow> f x \<noteq> None) \<Longrightarrow> Option.bind m f \<noteq> None"
  by (cases m) auto

lemma reads_defined:
  "byte p i = None \<longleftrightarrow> length p \<le> i" "bytes p i n = None \<longleftrightarrow> length p < i + n" "ntohs p i = None \<longleftrightarrow> length p < i + 2"
  "ntohl p i = None \<longleftrightarrow> length p < i + 4" "ip_hl p i = None \<longleftrightarrow> length p \<le> i" "th_off p i = None \<longleftrightarrow> length p \<le> i + 12"
  by (auto simp: byte_def bytes_def ntohs_def ntohl_def ip_hl_def th_off_def)

lemma reads_values:
  "byte p i = Some v \<longleftrightarrow> i < length p \<and> v = unat (p ! i)"
  "ntohs p i = Some v \<longleftrightarrow> i + 1 < length p \<and> v = 256 * unat (p ! i) + unat (p ! (i + 1))"
  "ip_hl p i = Some v \<longleftrightarrow> i < length p \<and> v = unat (p ! i) mod 16"
  by (auto simp: byte_def ntohs_def ip_hl_def)

lemma payload_from_defined: "off + n \<le> length p \<Longrightarrow> payload_from p off n i ascii \<noteq> None"
proof (induction p off n i ascii rule: payload_from.induct)
  case (1 p off n i ascii)
  show ?case
  proof (cases "i < n")
    case True
    then show ?thesis using 1 unfolding payload_from.simps [of p off n i]
      by (simp only: if_True Let_def) (intro bind_defined; simp add: reads_defined)
  next
    case False
    then show ?thesis by (simp add: payload_from.simps [of p off n i])
  qed
qed

lemma handle_payload_defined:
  assumes "int off + len \<le> int (length p)"
  shows "handle_payload p off len \<noteq> None"
proof (cases "len \<le> 0")
  case False
  then have "off + (if len > 64 then 64 else nat len) \<le> length p" using assms by auto
  from payload_from_defined [OF this] show ?thesis using False unfolding handle_payload_def Let_def
    by (simp only: if_False) (rule bind_defined, blast, simp)
qed (simp add: handle_payload_def)

lemma UDP_defined: "off + 8 \<le> length p \<Longrightarrow> int off + len \<le> int (length p) \<Longrightarrow> UDP p off len \<noteq> None"
  unfolding UDP_def Let_def by (intro bind_defined handle_payload_defined; simp add: reads_defined)

lemma TCP_defined: "off + 18 \<le> length p \<Longrightarrow> int off + len \<le> int (length p) \<Longrightarrow> TCP p off len \<noteq> None"
  unfolding TCP_def Let_def by (intro bind_defined handle_payload_defined; simp add: reads_defined)

lemma layer4_defined: "l4_complete p proto off len \<Longrightarrow> layer4 p proto off len \<noteq> None"
  using UDP_defined [of off p len] TCP_defined [of off p len] by (auto simp: l4_complete_def layer4_def)

lemma IPv4_defined:
  assumes "off + 20 \<le> length p" "l4_complete p (unat (p ! (off + 9))) (off + unat (p ! off) mod 16 * 4)
    (int (256 * unat (p ! (off + 2)) + unat (p ! (off + 2 + 1))) - int (unat (p ! off) mod 16 * 4))"
  shows "IPv4 p off \<noteq> None"
  unfolding IPv4_def Let_def
  by (intro bind_defined; (use assms(1) in \<open>simp add: reads_defined; fail\<close>)?; use layer4_defined [OF assms(2)] in \<open>simp only: reads_values simp_thms\<close>)

lemma IPv6_defined:
  assumes "off + 40 \<le> length p"
    "l4_complete p (unat (p ! (off + 6))) (off + 40) (int (256 * unat (p ! (off + 4)) + unat (p ! (off + 4 + 1))))"
  shows "IPv6 p off \<noteq> None"
  unfolding IPv6_def Let_def
  by (intro bind_defined; (use assms(1) in \<open>simp add: reads_defined; fail\<close>)?; use layer4_defined [OF assms(2)] in \<open>simp only: reads_values simp_thms\<close>)

lemma ARP_defined: "off + 28 \<le> length p \<Longrightarrow> ARP p off \<noteq> None"
  unfolding ARP_def by (intro bind_defined; simp add: reads_defined)

lemma layer3_defined:
  assumes "complete p" "ntohs p 12 = Some ether"
  shows "layer3 ether p \<noteq> None"
proof -
  have "IPv4 p ETHER_HDR \<noteq> None" if "ether = ETHERTYPE_IP"
    using assms that by (intro IPv4_defined) (simp_all add: complete_def Let_def ETHER_HDR_def)
  moreover have "IPv6 p ETHER_HDR \<noteq> None" if "ether = ETHERTYPE_IPV6"
    using assms that by (intro IPv6_defined) (simp_all add: complete_def Let_def ETHER_HDR_def)
  moreover have "ARP p ETHER_HDR \<noteq> None" if "ether = ETHERTYPE_ARP"
    using assms that by (intro ARP_defined) (simp_all add: complete_def)
  ultimately show ?thesis by (simp add: layer3_def)
qed

lemma ports_defined: "l4 + 4 \<le> length p \<Longrightarrow> do { s \<leftarrow> ntohs p l4; d \<leftarrow> ntohs p (l4 + 2); Some (f s d) } \<noteq> None"
  by (intro bind_defined; simp add: reads_defined)

lemma port_class_defined:
  assumes "l4_complete p proto l4 len"
  shows "port_class p proto l4 \<noteq> None"
proof (cases "proto = IPPROTO_TCP \<or> proto = IPPROTO_UDP")
  case True
  then have "l4 + 4 \<le> length p" using assms by (auto simp: l4_complete_def)
  then show ?thesis unfolding port_class_def by (simp only: split: if_split) (intro conjI impI; (rule ports_defined)?; simp)
qed (simp add: port_class_def)

lemma classify_defined:
  assumes "complete p"
  shows "classify p \<noteq> None"
proof -
  obtain ether where e: "ntohs p 12 = Some ether" using assms by (auto simp: complete_def split: option.splits)
  consider (ip) "ether = ETHERTYPE_IP" | (ip6) "ether = ETHERTYPE_IPV6" | (other) "ether \<noteq> ETHERTYPE_IP" "ether \<noteq> ETHERTYPE_IPV6" by blast
  then show ?thesis
  proof cases
    case ip
    then have l: "ETHER_HDR + 20 \<le> length p" "l4_complete p (unat (p ! 23)) (14 + unat (p ! 14) mod 16 * 4)
        (int (256 * unat (p ! 16) + unat (p ! 17)) - int (unat (p ! 14) mod 16 * 4))"
      using assms e by (auto simp: complete_def Let_def ETHER_HDR_def)
    have "classify p = do { hl \<leftarrow> ip_hl p 14; proto \<leftarrow> byte p 23; port_class p proto (14 + hl * 4) }"
      using e ip by (simp add: classify_def sniffer_consts)
    then show ?thesis using port_class_defined [OF l(2)] l(1) by (simp add: ip_hl_def byte_def ETHER_HDR_def)
  next
    case ip6
    then have l: "ETHER_HDR + 40 \<le> length p" "l4_complete p (unat (p ! 20)) 54 (int (256 * unat (p ! 18) + unat (p ! 19)))"
      using assms e by (auto simp: complete_def ETHER_HDR_def)
    have "classify p = do { proto \<leftarrow> byte p 20; port_class p proto 54 }" using e ip6 by (simp add: classify_def sniffer_consts)
    then show ?thesis using port_class_defined [OF l(2)] l(1) by (simp add: byte_def ETHER_HDR_def)
  qed (use e in \<open>simp add: classify_def\<close>)
qed


definition dns_query :: pkt where
  "dns_query = [1, 1, 1, 1, 1, 1, 2, 2, 2, 2, 2, 2, 8, 0, 0x45, 0, 0, 30, 0, 1, 0x40, 0, 64, 17, 0, 0, 10, 0, 0, 1, 10, 0, 0, 2,
     0x30, 0x39, 0, 53, 0, 10, 0, 0, 0x41, 0]"

definition idle :: sniffer where
  "idle = \<lparr>pid = 0, p_index = 0, filt = ''001000'', my_data = (\<lambda>_. None), printed = []\<rparr>"


text \<open>
  Without that guarantee the decoder reads past the packet: a frame that ends after the Ethernet header, and
  a datagram that announces more payload than was captured.
\<close>

lemma short_frame_overread: "pckt_handler h [0, 0, 0, 0, 0, 0, 0, 0, 0, 0, 0, 0, 8, 0] s = None"
  by (simp add: pckt_handler_def Let_def classify_def ntohs_def byte_def ip_hl_def sniffer_consts)

lemma long_length_overread: "handle_payload (replicate 50 0) 42 30 = None"
  by code_simp

text \<open>The filter that selects only HTTP accepts every packet, because the loop over the filter tests its first character six times.\<close>

lemma http_filter_accepts_all: "print_packet ''100000'' c"
  by (simp add: print_packet_def at_def)

text \<open>A packet that is neither IP nor ARP has a summary line made of uninitialised memory.\<close>

lemma summary_unknown_undefined: "print_packet_summary 1 h [0, 0, 0, 0, 0, 0, 0, 0, 0, 0, 0, 0, 0x88, 0xcc] = None"
  by (simp add: print_packet_summary_def summary_ends_def ntohs_def byte_def sniffer_consts)

end
