(* ===== verification/Spec2Isabelle.thy ===== *)
theory Spec2Isabelle
  imports Vm_Copy Fs_Alloc Bakery Spinlock Syscall Pager File_Refs Grep Shell_Roundtrip Sniffer
begin

text \<open>
  This development models three programs and proves properties of them: the operating system
  xv6-Lazy-Allocation (a RISC-V teaching kernel extended with demand paging, a FIFO pager and swap files, with its user
  library, shell and utilities), the Concurrent-Bakery-Sim, and the packet decoder of the Terminal-Packet-Sniffer.
  Definitions have the names of the source where possible and follow it statement by statement.

  \<^bold>\<open>How the kernel is modelled.\<close> A kernel function is a HOL function on the state of the machine that returns an
  \<open>outcome\<close> (theory \<open>Prelude\<close>): \<open>Ret\<close> a value and the new state, \<open>Panic\<close> for a call of \<open>panic\<close> or an access that C leaves
  undefined (the message starts with "undefined"), \<open>Exit\<close> for a call of \<open>kexit\<close> below the system call, \<open>Sleep\<close>
  for a process that gives up the CPU, \<open>NoFuel\<close> for a bound on recursion. The state is built in layers that extend each
  other as the components do: memory and free list (\<open>Kalloc\<close>), buffer cache and disk (\<open>Bio\<close>), log
  (\<open>Logging\<close>), inodes (\<open>Fs\<close>), processes, open files and pipes (\<open>Proc_State\<close>), console (\<open>Console\<close>), disk driver
  (\<open>Virtio\<close>). Addresses and machine integers are words of their width, memory is byte addressed, and structures on
  disk and in user memory are their bytes. Kernel functions run under their locks, so they are functions; where
  the interleaving is the point (spin locks, the log's reservations, the bakery) there is a step relation.

  \<^bold>\<open>Theories and what they show.\<close>
  \<^item> \<open>Prelude\<close>, \<open>Bytes\<close>, \<open>Fifo\<close>, \<open>Frame\<close>: outcomes; little-endian encodings; the contract of a bounded queue
    (locale \<open>bounded_fifo\<close>, met by the pipe and by the bakery's queues); the contracts \<open>low_frame\<close> and \<open>page_frame\<close>, which say once what
    the lower layers leave alone.
  \<^item> \<open>Cstring\<close> (kernel/string.c), \<open>Printf\<close> (kernel/printf.c, user/printf.c), \<open>Ulib\<close> (user/ulib.c): copies with overlap, bounded
    string copies, decimal digits; the two formatters agree; the two versions of memmove are the same function.
  \<^item> \<open>Riscv\<close>, \<open>Kalloc\<close>, \<open>Vm\<close>, \<open>Vm_Table\<close>, \<open>Vm_Space\<close>, \<open>Vm_Copy\<close> (kernel/riscv.h, kalloc.c, vm.c): the free list holds every free page once
    (locale \<open>page_pool\<close>); page tables as trees in memory, with mapping, unmapping, growing, shrinking and copying that neither lose nor share a page.
  \<^item> \<open>Bio\<close>, \<open>Logging\<close>, \<open>Txn\<close>, \<open>Fs\<close>, \<open>Fs_Alloc\<close> (sleeplock.c, bio.c, log.c, fs.c): the cache refines the map from blocks to contents
    (locale \<open>block_cache\<close>); a crash at any write of a commit leaves all of a transaction or none; the reserved log space suffices in every
    interleaving; block allocation and its inverse.
  \<^item> \<open>Spinlock\<close>, \<open>Proc_State\<close>, \<open>Sched\<close>, \<open>Proc\<close> (spinlock.c, proc.c): mutual exclusion and interrupt nesting; sleeping, waking, scheduling, killing; fork, exit, wait.
  \<^item> \<open>Paging\<close>, \<open>Pager\<close> (vm.c, exec.c): page faults, FIFO eviction, swap slots, copies between kernel and user memory; the bookkeeping
    invariant of the pager.
  \<^item> \<open>File\<close>, \<open>Sysfile\<close>, \<open>File_Refs\<close>, \<open>Exec\<close>, \<open>Syscall\<close> (file.c, pipe.c, sysfile.c, exec.c, syscall.c, sysproc.c, trap.c): pipes as byte queues with
    counters that wrap; every system call with its error paths; reference counts of open files on every path; traps.
  \<^item> \<open>Console\<close>, \<open>Virtio\<close> (console.c, uart.c, virtio_disk.c): line editing, and the descriptor rings of the disk.
  \<^item> \<open>Grep\<close>, \<open>Shell\<close>, \<open>Shell_Roundtrip\<close> (user/grep.c, user/sh.c): the pattern matcher decides its language, and the loop prints the matching
    lines; the shell's parser terminates, stays within its arrays and inverts printing.
  \<^item> \<open>Sniffer\<close> (Terminal-Packet-Sniffer/func.c): the decoders and the handler read only captured bytes when the announced lengths are
    within the capture, and the handler stores, filters and counts as it should; short lemmas show the inputs on which the bounds are exceeded.
  \<^item> \<open>Bakery\<close> (Concurrent-Bakery-Sim/main.c): the threads as a step relation, with capacity, exclusion and order.

  \<^bold>\<open>Bounds and fuel.\<close> \<open>freewalk\<close> recurses over the three levels of a page table with fuel for them; more levels do not exist in
  a table that \<open>walk\<close> builds. The shell's parser gets fuel \<open>4 * length s + 4\<close>, which is proved to be enough for every line.
  \<open>strlen\<close> is a partial function that is undefined without a NUL. All other loops are total functions.

  \<^bold>\<open>What a theorem assumes.\<close> Hypotheses are invariants of the state (for instance \<open>kmem_inv\<close>, \<open>bc_inv\<close>, \<open>pager_ok\<close>, \<open>refs_ok\<close>) or the ranges
  of arguments, and a theorem with hypotheses is followed by a witness that applies it to a concrete state. The device table, the registers
  of the disk and the bytes of the serial line are parameters or fields that stand for hardware.

  \<^bold>\<open>Not modelled.\<close> The assembly files (entry, trap entry and exit, context switch) and the start-up code that writes
  machine and device registers; the device side of the disk; the image builder mkfs; the allocator, the command execution and the
  small programs and tests on the user side, which are sequences of system calls; the dialogue of the sniffer and its calls of the capture
  library. Time and the order in which the threads of the bakery print are left out. A system call that
  sleeps in a lower layer is represented by the outcome \<open>Sleep\<close> with the state at that point; what it does after it is woken is a new
  run of the call in the model.
\<close>

end
